(* ===== verification/Prelude.thy ===== *)
theory Prelude
  imports Main "HOL-Library.Word" "HOL-Library.Monad_Syntax" "HOL-Library.Sublist"
begin

text \<open>
  Shared vocabulary of the development.

  Rust's fixed-width integers are words, a \<open>usize\<close> that only counts is a
  \<open>nat\<close> (with the saturating and checked operations written out), and a Rust
  \<open>&str\<close> or \<open>&[u8]\<close> is a \<open>string\<close>: a list of bytes, which is what both are
  in memory (\<open>str\<close> being UTF-8).

  A computation that may panic, or may not return, has an \<open>option\<close> result whose
  \<open>None\<close> stands for exactly that. Theorems then show the result is \<open>Some\<close>.
\<close>

section \<open>Integers\<close>

type_synonym u8 = "8 word"
type_synonym u16 = "16 word"
type_synonym u32 = "32 word"
type_synonym u64 = "64 word"

unbundle bit_operations_syntax

definition USIZE_MAX :: int where
  "USIZE_MAX = 2 ^ 64 - 1"

text \<open>\<open>usize::saturating_mul\<close>, on a 64-bit target.\<close>

definition saturating_mul :: "nat \<Rightarrow> nat \<Rightarrow> nat" where
  "saturating_mul a b = nat (min (int a * int b) USIZE_MAX)"

lemma saturating_mul_exact: "int (a * b) \<le> USIZE_MAX \<Longrightarrow> saturating_mul a b = a * b"
  by (simp add: saturating_mul_def nat_mult_distrib flip: of_nat_mult)

lemma unat_of_nat_small: "n < 2 ^ LENGTH('a) \<Longrightarrow> unat (of_nat n :: 'a::len word) = n"
  by (simp add: unat_of_nat)

section \<open>Indexing and slicing\<close>

text \<open>\<open>xs[i]\<close>: out of range is a panic.\<close>

definition index_at :: "'a list \<Rightarrow> nat \<Rightarrow> 'a option" where
  "index_at xs i = (if i < length xs then Some (xs ! i) else None)"

text \<open>\<open>&xs[a..b]\<close>: a range that leaves the slice is a panic.\<close>

definition slice :: "'a list \<Rightarrow> nat \<Rightarrow> nat \<Rightarrow> 'a list option" where
  "slice xs a b = (if a \<le> b \<and> b \<le> length xs then Some (take (b - a) (drop a xs)) else None)"

text \<open>\<open>iter().position(p)\<close>.\<close>

fun position :: "('a \<Rightarrow> bool) \<Rightarrow> 'a list \<Rightarrow> nat option" where
  "position p [] = None"
| "position p (x # xs) = (if p x then Some 0 else map_option Suc (position p xs))"

named_theorems panic_simps \<open>in-range accesses do not panic\<close>
named_theorems ascii_simps \<open>facts on ASCII case and classes\<close>

lemma index_at_Some [simp, panic_simps]: "i < length xs \<Longrightarrow> index_at xs i = Some (xs ! i)"
  by (simp add: index_at_def)

lemma index_at_eq_Some: "index_at xs i = Some x \<longleftrightarrow> i < length xs \<and> xs ! i = x"
  by (auto simp: index_at_def)

lemma slice_Some [panic_simps]:
  "a \<le> b \<Longrightarrow> b \<le> length xs \<Longrightarrow> slice xs a b = Some (take (b - a) (drop a xs))"
  by (simp add: slice_def)

lemma slice_append:
  "slice (xs @ ys) a b = Some zs" if "slice xs a b = Some zs"
  using that by (auto simp: slice_def split: if_splits)

lemma position_None: "position p xs = None \<longleftrightarrow> (\<forall>x\<in>set xs. \<not> p x)"
  by (induction xs) auto

lemma position_Some:
  "position p xs = Some n \<longleftrightarrow> n < length xs \<and> p (xs ! n) \<and> (\<forall>i<n. \<not> p (xs ! i))"
proof (induction xs arbitrary: n)
  case (Cons x xs)
  show ?case
    by (cases n) (auto simp: Cons.IH All_less_Suc2)
qed simp

lemma position_less [dest]: "position p xs = Some n \<Longrightarrow> n < length xs"
  by (simp add: position_Some)

lemma position_find:
  "find p xs = map_option (\<lambda>i. xs ! i) (position p xs)"
  by (induction xs) (auto simp: option.map_comp o_def)

section \<open>Folding with early exit\<close>

text \<open>A \<open>for\<close> loop whose body may fail: the first \<open>None\<close> ends it.\<close>

fun try_fold :: "('a \<Rightarrow> 's \<Rightarrow> 's option) \<Rightarrow> 'a list \<Rightarrow> 's \<Rightarrow> 's option" where
  "try_fold f [] s = Some s"
| "try_fold f (x # xs) s = (case f x s of None \<Rightarrow> None | Some s' \<Rightarrow> try_fold f xs s')"

lemma try_fold_append:
  "try_fold f (xs @ ys) s = Option.bind (try_fold f xs s) (try_fold f ys)"
  by (induction xs arbitrary: s) (auto split: option.splits)

lemma try_fold_total:
  "(\<And>x s. x \<in> set xs \<Longrightarrow> f x s = Some (g x s)) \<Longrightarrow> try_fold f xs s = Some (fold g xs s)"
  by (induction xs arbitrary: s) auto

lemma try_fold_inv:
  assumes "try_fold f xs s = Some s'" "P s"
    and "\<And>x s s'. x \<in> set xs \<Longrightarrow> P s \<Longrightarrow> f x s = Some s' \<Longrightarrow> P s'"
  shows "P s'"
  using assms
proof (induction xs arbitrary: s)
  case (Cons x xs)
  then show ?case
    by (auto split: option.splits) (metis list.set_intros)
qed simp

section \<open>Fallible code that may also panic\<close>

text \<open>\<open>Result<T, E>\<close> as returned by code with a panicking path of its own.\<close>

datatype ('e, 'a) outcome = Panic | Err 'e | Ok 'a

fun and_then :: "('e, 'a) outcome \<Rightarrow> ('a \<Rightarrow> ('e, 'b) outcome) \<Rightarrow> ('e, 'b) outcome" where
  "and_then Panic f = Panic"
| "and_then (Err e) f = Err e"
| "and_then (Ok a) f = f a"

lemma and_then_Ok: "and_then m f = Ok b \<longleftrightarrow> (\<exists>a. m = Ok a \<and> f a = Ok b)"
  by (cases m) auto

lemma and_then_Panic:
  "and_then m f = Panic \<longleftrightarrow> m = Panic \<or> (\<exists>a. m = Ok a \<and> f a = Panic)"
  by (cases m) auto

lemma and_then_safe:
  "m \<noteq> Panic \<Longrightarrow> (\<And>a. m = Ok a \<Longrightarrow> f a \<noteq> Panic) \<Longrightarrow> and_then m f \<noteq> Panic"
  by (cases m) auto

end
