(* ===== verification/Text.thy ===== *)
theory Text
  imports Prelude
begin

text \<open>
  The parts of Rust's \<open>str\<close> and \<open>u8\<close> API the sources use, on byte lists.

  A \<open>&str\<close> is UTF-8. Operations that look at \<open>char\<close>s and not at bytes (\<open>trim\<close>,
  \<open>split_whitespace\<close>, \<open>contains(char::is_whitespace)\<close>) are written out on the
  UTF-8 encodings of the characters with the Unicode \<open>White_Space\<close> property, so
  they agree with Rust's on every valid string and not only on ASCII text.
\<close>

section \<open>ASCII classes and case\<close>

abbreviation byte :: "char \<Rightarrow> int" where
  "byte \<equiv> of_char"

definition is_ascii_uppercase :: "char \<Rightarrow> bool" where
  "is_ascii_uppercase c \<longleftrightarrow> 65 \<le> byte c \<and> byte c \<le> 90"

definition is_ascii_lowercase :: "char \<Rightarrow> bool" where
  "is_ascii_lowercase c \<longleftrightarrow> 97 \<le> byte c \<and> byte c \<le> 122"

definition is_ascii_digit :: "char \<Rightarrow> bool" where
  "is_ascii_digit c \<longleftrightarrow> 48 \<le> byte c \<and> byte c \<le> 57"

definition is_ascii_alphabetic :: "char \<Rightarrow> bool" where
  "is_ascii_alphabetic c \<longleftrightarrow> is_ascii_uppercase c \<or> is_ascii_lowercase c"

definition is_ascii_alphanumeric :: "char \<Rightarrow> bool" where
  "is_ascii_alphanumeric c \<longleftrightarrow> is_ascii_alphabetic c \<or> is_ascii_digit c"

definition is_ascii_hexdigit :: "char \<Rightarrow> bool" where
  "is_ascii_hexdigit c \<longleftrightarrow>
     is_ascii_digit c \<or> (65 \<le> byte c \<and> byte c \<le> 70) \<or> (97 \<le> byte c \<and> byte c \<le> 102)"

text \<open>\<open>u8::is_ascii_whitespace\<close>: vertical tab (11) is not in it.\<close>

definition is_ascii_whitespace :: "char \<Rightarrow> bool" where
  "is_ascii_whitespace c \<longleftrightarrow> byte c \<in> {9, 10, 12, 13, 32}"

definition to_ascii_lowercase :: "char \<Rightarrow> char" where
  "to_ascii_lowercase c = (if is_ascii_uppercase c then char_of (byte c + 32) else c)"

definition to_ascii_uppercase :: "char \<Rightarrow> char" where
  "to_ascii_uppercase c = (if is_ascii_lowercase c then char_of (byte c - 32) else c)"

abbreviation lower :: "string \<Rightarrow> string" where
  "lower \<equiv> map to_ascii_lowercase"

abbreviation upper :: "string \<Rightarrow> string" where
  "upper \<equiv> map to_ascii_uppercase"

definition eq_ignore_ascii_case :: "string \<Rightarrow> string \<Rightarrow> bool" where
  "eq_ignore_ascii_case s t \<longleftrightarrow> lower s = lower t"

lemma byte_less [simp]: "byte c < 256"
proof -
  have "of_char c mod 256 = (of_char c :: int)" by simp
  then show ?thesis by (metis pos_mod_bound zero_less_numeral)
qed

lemma byte_nonneg [simp]: "0 \<le> byte c"
proof -
  have "of_char c mod 256 = (of_char c :: int)" by simp
  then show ?thesis by (metis pos_mod_sign zero_less_numeral)
qed

lemma byte_lower:
  "byte (to_ascii_lowercase c) = (if is_ascii_uppercase c then byte c + 32 else byte c)"
  by (auto simp: to_ascii_lowercase_def is_ascii_uppercase_def)

lemma byte_upper:
  "byte (to_ascii_uppercase c) = (if is_ascii_lowercase c then byte c - 32 else byte c)"
  by (auto simp: to_ascii_uppercase_def is_ascii_lowercase_def)

lemmas byte_class_defs = is_ascii_uppercase_def is_ascii_lowercase_def is_ascii_digit_def
  is_ascii_alphabetic_def is_ascii_alphanumeric_def is_ascii_whitespace_def is_ascii_hexdigit_def

lemma lower_not_upper [ascii_simps]: "\<not> is_ascii_uppercase (to_ascii_lowercase c)"
  by (auto simp: is_ascii_uppercase_def byte_lower)

lemma lower_id [ascii_simps]: "\<not> is_ascii_uppercase c \<Longrightarrow> to_ascii_lowercase c = c"
  by (simp add: to_ascii_lowercase_def)

lemma upper_not_lower [ascii_simps]: "\<not> is_ascii_lowercase (to_ascii_uppercase c)"
  by (auto simp: is_ascii_lowercase_def byte_upper)

lemma upper_id [ascii_simps]: "\<not> is_ascii_lowercase c \<Longrightarrow> to_ascii_uppercase c = c"
  by (simp add: to_ascii_uppercase_def)

lemma lower_lower [simp, ascii_simps]:
  "to_ascii_lowercase (to_ascii_lowercase c) = to_ascii_lowercase c"
  by (simp add: ascii_simps)

lemma lower_dot [ascii_simps]: "to_ascii_lowercase c = CHR ''.'' \<longleftrightarrow> c = CHR ''.''"
proof -
  have "to_ascii_lowercase c = CHR ''.'' \<longleftrightarrow> byte (to_ascii_lowercase c) = byte (CHR ''.'')"
    by (metis of_char_eq_iff)
  also have "\<dots> \<longleftrightarrow> byte c = byte (CHR ''.'')"
    by (auto simp: byte_lower is_ascii_uppercase_def)
  finally show ?thesis by (metis of_char_eq_iff)
qed

lemma lower_strings_id: "(\<And>c. c \<in> set s \<Longrightarrow> \<not> is_ascii_uppercase c) \<Longrightarrow> lower s = s"
  by (induction s) (auto simp: ascii_simps)

lemma lower_alnum [ascii_simps]:
  "is_ascii_alphanumeric (to_ascii_lowercase c) = is_ascii_alphanumeric c"
proof (cases "is_ascii_uppercase c")
  case True
  then have "is_ascii_lowercase (to_ascii_lowercase c)"
    by (simp add: byte_lower is_ascii_lowercase_def is_ascii_uppercase_def)
  with True show ?thesis by (simp add: is_ascii_alphanumeric_def is_ascii_alphabetic_def)
qed (simp add: ascii_simps)

lemma eq_ignore_ascii_case_refl [simp]: "eq_ignore_ascii_case s s"
  by (simp add: eq_ignore_ascii_case_def)

lemma eq_ignore_ascii_case_sym: "eq_ignore_ascii_case s t = eq_ignore_ascii_case t s"
  by (auto simp: eq_ignore_ascii_case_def)

lemma eq_ignore_ascii_case_length: "eq_ignore_ascii_case s t \<Longrightarrow> length s = length t"
  unfolding eq_ignore_ascii_case_def by (metis length_map)

section \<open>Prefixes, suffixes, searching\<close>

definition strip_prefix :: "string \<Rightarrow> string \<Rightarrow> string option" where
  "strip_prefix p s = (if prefix p s then Some (drop (length p) s) else None)"

definition strip_suffix :: "string \<Rightarrow> string \<Rightarrow> string option" where
  "strip_suffix p s = (if suffix p s then Some (take (length s - length p) s) else None)"

definition trim_end_matches :: "char \<Rightarrow> string \<Rightarrow> string" where
  "trim_end_matches c s = rev (dropWhile (\<lambda>x. x = c) (rev s))"

text \<open>\<open>s.find(needle)\<close>: the byte offset of the first occurrence.\<close>

fun find_str :: "string \<Rightarrow> string \<Rightarrow> nat option" where
  "find_str p [] = (if p = [] then Some 0 else None)"
| "find_str p (c # s) =
     (if prefix p (c # s) then Some 0 else map_option Suc (find_str p s))"

definition contains_str :: "string \<Rightarrow> string \<Rightarrow> bool" where
  "contains_str p s \<longleftrightarrow> find_str p s \<noteq> None"

text \<open>\<open>s.split(p)\<close>: never empty; adjacent separators give empty pieces.\<close>

fun split_on :: "(char \<Rightarrow> bool) \<Rightarrow> string \<Rightarrow> string list" where
  "split_on p [] = [[]]"
| "split_on p (c # s) =
     (if p c then [] # split_on p s
      else case split_on p s of [] \<Rightarrow> [[c]] | w # ws \<Rightarrow> (c # w) # ws)"

definition split_once :: "char \<Rightarrow> string \<Rightarrow> (string \<times> string) option" where
  "split_once c s =
     map_option (\<lambda>i. (take i s, drop (Suc i) s)) (position (\<lambda>x. x = c) s)"

lemma split_on_nonempty [simp]: "split_on p s \<noteq> []"
  by (cases s) (auto split: list.splits)

lemma split_on_no_sep:
  assumes "\<not> p a"
  obtains v vs where "split_on p s = v # vs" "split_on p (a # s) = (a # v) # vs"
  using assms by (cases "split_on p s") auto

lemma split_on_pieces:
  assumes "w \<in> set (split_on p s)"
  shows "set w \<subseteq> {c \<in> set s. \<not> p c} \<and> length w \<le> length s"
  using assms
proof (induction s arbitrary: w)
  case (Cons a s)
  show ?case
  proof (cases "p a")
    case True
    then consider "w = []" | "w \<in> set (split_on p s)" using Cons.prems by auto
    then show ?thesis
    proof cases
      case 2
      from Cons.IH [OF 2] show ?thesis by auto
    qed simp
  next
    case False
    then obtain v vs where v: "split_on p s = v # vs" "split_on p (a # s) = (a # v) # vs"
      by (rule split_on_no_sep)
    then have w: "w = a # v \<or> w \<in> set vs" using Cons.prems by simp
    have "v \<in> set (split_on p s)" using v by simp
    from Cons.IH [OF this] have IH_v: "set v \<subseteq> {c \<in> set s. \<not> p c}" "length v \<le> length s" by auto
    from w show ?thesis
    proof
      assume "w = a # v"
      with IH_v False show ?thesis by auto
    next
      assume "w \<in> set vs"
      with v have "w \<in> set (split_on p s)" by simp
      from Cons.IH [OF this] show ?thesis by auto
    qed
  qed
qed simp

lemma strip_prefix_Some: "strip_prefix p s = Some t \<longleftrightarrow> s = p @ t"
  by (auto simp: strip_prefix_def prefix_def)

lemma strip_suffix_Some: "strip_suffix p s = Some t \<longleftrightarrow> s = t @ p"
  by (auto simp: strip_suffix_def suffix_def)

lemma trim_end_matches_prefix: "prefix (trim_end_matches c s) s"
proof -
  have "suffix (dropWhile (\<lambda>x. x = c) (rev s)) (rev s)" by (rule suffix_dropWhile)
  then show ?thesis by (simp add: trim_end_matches_def suffix_to_prefix)
qed

lemma trim_end_matches_last:
  "trim_end_matches c s \<noteq> [] \<Longrightarrow> last (trim_end_matches c s) \<noteq> c"
proof -
  assume "trim_end_matches c s \<noteq> []"
  then have ne: "dropWhile (\<lambda>x. x = c) (rev s) \<noteq> []"
    unfolding trim_end_matches_def by blast
  show ?thesis
    using hd_dropWhile [OF ne] by (simp add: trim_end_matches_def last_rev)
qed

lemma trim_end_matches_id:
  "s = [] \<or> last s \<noteq> c \<Longrightarrow> trim_end_matches c s = s"
  by (cases s rule: rev_cases) (auto simp: trim_end_matches_def)

section \<open>Character boundaries\<close>

text \<open>Slicing a \<open>str\<close> inside a UTF-8 sequence panics; \<open>None\<close> stands for that.\<close>

definition is_char_boundary :: "string \<Rightarrow> nat \<Rightarrow> bool" where
  "is_char_boundary s i \<longleftrightarrow>
     i = 0 \<or> i = length s \<or> (i < length s \<and> \<not> (0x80 \<le> byte (s ! i) \<and> byte (s ! i) < 0xC0))"

definition str_prefix :: "string \<Rightarrow> nat \<Rightarrow> string option" where
  "str_prefix s i = (if is_char_boundary s i then Some (take i s) else None)"

definition is_ascii :: "char \<Rightarrow> bool" where
  "is_ascii c \<longleftrightarrow> byte c < 128"

lemma str_prefix_ascii [panic_simps]:
  "list_all is_ascii s \<Longrightarrow> i \<le> length s \<Longrightarrow> str_prefix s i = Some (take i s)"
proof -
  assume ascii: "list_all is_ascii s" and i: "i \<le> length s"
  have "byte (s ! i) < 128" if "i < length s"
    using ascii that by (simp add: list_all_length is_ascii_def)
  with i have "is_char_boundary s i"
    unfolding is_char_boundary_def by (cases "i < length s") auto
  then show ?thesis by (simp add: str_prefix_def)
qed

section \<open>Lines\<close>

text \<open>\<open>str::lines\<close>: a line ends at \<open>\n\<close> or \<open>\r\n\<close>; a last line with no newline is
  returned as it is.\<close>

definition strip_cr :: "string \<Rightarrow> string" where
  "strip_cr l = (case strip_suffix [CHR 0x0D] l of Some t \<Rightarrow> t | None \<Rightarrow> l)"

function lines :: "string \<Rightarrow> string list" where
  "lines s = (if s = [] then []
     else case dropWhile (\<lambda>c. c \<noteq> CHR 0x0A) s of
       [] \<Rightarrow> [s]
     | _ # rest \<Rightarrow> strip_cr (takeWhile (\<lambda>c. c \<noteq> CHR 0x0A) s) # lines rest)"
  by pat_completeness auto
termination
proof (relation "measure length")
  fix s x rest
  assume "dropWhile (\<lambda>c. c \<noteq> CHR 0x0A) s = x # rest"
  then have "length (x # rest) \<le> length s" by (metis length_dropWhile_le)
  then show "(rest, s) \<in> measure length" by simp
qed simp

declare lines.simps [simp del]

section \<open>White space\<close>

text \<open>Bytes of the \<open>White_Space\<close> character \<open>s\<close> starts with, 0 when it starts with none.
  The characters are U+0009 to U+000D, U+0020, U+0085, U+00A0, U+1680, U+2000 to U+200A,
  U+2028, U+2029, U+202F, U+205F and U+3000.\<close>

definition ws1 :: "char \<Rightarrow> bool" where
  "ws1 a \<longleftrightarrow> (9 \<le> byte a \<and> byte a \<le> 13) \<or> byte a = 32"

definition ws2 :: "char \<Rightarrow> char \<Rightarrow> bool" where
  "ws2 a b \<longleftrightarrow> byte a = 0xC2 \<and> (byte b = 0x85 \<or> byte b = 0xA0)"

definition ws3 :: "char \<Rightarrow> char \<Rightarrow> char \<Rightarrow> bool" where
  "ws3 a b c \<longleftrightarrow>
     (byte a = 0xE1 \<and> byte b = 0x9A \<and> byte c = 0x80)
   \<or> (byte a = 0xE2 \<and> byte b = 0x80 \<and>
        ((0x80 \<le> byte c \<and> byte c \<le> 0x8A) \<or> byte c = 0xA8 \<or> byte c = 0xA9 \<or> byte c = 0xAF))
   \<or> (byte a = 0xE2 \<and> byte b = 0x81 \<and> byte c = 0x9F)
   \<or> (byte a = 0xE3 \<and> byte b = 0x80 \<and> byte c = 0x80)"

fun ws_len :: "string \<Rightarrow> nat" where
  "ws_len [] = 0"
| "ws_len [a] = (if ws1 a then 1 else 0)"
| "ws_len [a, b] = (if ws1 a then 1 else if ws2 a b then 2 else 0)"
| "ws_len (a # b # c # s) =
     (if ws1 a then 1 else if ws2 a b then 2 else if ws3 a b c then 3 else 0)"

text \<open>The same for the last character, on the reversed string.\<close>

fun ws_len_rev :: "string \<Rightarrow> nat" where
  "ws_len_rev [] = 0"
| "ws_len_rev [a] = (if ws1 a then 1 else 0)"
| "ws_len_rev [b, a] = (if ws1 b then 1 else if ws2 a b then 2 else 0)"
| "ws_len_rev (c # b # a # s) =
     (if ws1 c then 1 else if ws2 b c then 2 else if ws3 a b c then 3 else 0)"

lemma ws_len_le: "ws_len s \<le> length s"
  by (cases s rule: ws_len.cases) auto

lemma ws_len_rev_le: "ws_len_rev s \<le> length s"
  by (cases s rule: ws_len_rev.cases) auto

function trim_start :: "string \<Rightarrow> string" where
  "trim_start s = (if ws_len s = 0 then s else trim_start (drop (ws_len s) s))"
  by pat_completeness auto
termination
proof (relation "measure length")
  fix s :: string
  assume "ws_len s \<noteq> 0"
  with ws_len_le [of s] show "(drop (ws_len s) s, s) \<in> measure length" by simp
qed simp

function trim_start_rev :: "string \<Rightarrow> string" where
  "trim_start_rev s = (if ws_len_rev s = 0 then s else trim_start_rev (drop (ws_len_rev s) s))"
  by pat_completeness auto
termination
proof (relation "measure length")
  fix s :: string
  assume "ws_len_rev s \<noteq> 0"
  with ws_len_rev_le [of s] show "(drop (ws_len_rev s) s, s) \<in> measure length" by simp
qed simp

declare trim_start.simps [simp del] trim_start_rev.simps [simp del]

definition trim_end :: "string \<Rightarrow> string" where
  "trim_end s = rev (trim_start_rev (rev s))"

definition trim :: "string \<Rightarrow> string" where
  "trim s = trim_end (trim_start s)"

function split_ws :: "string \<Rightarrow> string \<Rightarrow> string list" where
  "split_ws acc s =
     (case s of
        [] \<Rightarrow> (if acc = [] then [] else [acc])
      | c # s' \<Rightarrow>
          if ws_len s = 0 then split_ws (acc @ [c]) s'
          else (if acc = [] then [] else [acc]) @ split_ws [] (drop (ws_len s) s))"
  by pat_completeness auto
termination
proof (relation "measure (length \<circ> snd)")
  fix acc s :: string and c s'
  assume "s = c # s'" "ws_len s \<noteq> 0"
  with ws_len_le [of s] show "(([], drop (ws_len s) s), (acc, s)) \<in> measure (length \<circ> snd)"
    by simp
qed auto

declare split_ws.simps [simp del]

definition split_whitespace :: "string \<Rightarrow> string list" where
  "split_whitespace s = split_ws [] s"

text \<open>\<open>s.contains(char::is_whitespace)\<close>.\<close>

fun has_whitespace :: "string \<Rightarrow> bool" where
  "has_whitespace [] = False"
| "has_whitespace (c # s) = (ws_len (c # s) \<noteq> 0 \<or> has_whitespace s)"

lemma trim_start_suffix: "suffix (trim_start s) s"
proof (induction s rule: trim_start.induct)
  case (1 s)
  show ?case
  proof (cases "ws_len s = 0")
    case False
    with 1 have "suffix (trim_start (drop (ws_len s) s)) (drop (ws_len s) s)" by blast
    then have "suffix (trim_start (drop (ws_len s) s)) s"
      using suffix_drop suffix_order.trans by blast
    with False show ?thesis by (simp add: trim_start.simps [of s])
  qed (simp add: trim_start.simps [of s])
qed

lemma trim_start_rev_suffix: "suffix (trim_start_rev s) s"
proof (induction s rule: trim_start_rev.induct)
  case (1 s)
  show ?case
  proof (cases "ws_len_rev s = 0")
    case False
    with 1 have "suffix (trim_start_rev (drop (ws_len_rev s) s)) (drop (ws_len_rev s) s)" by blast
    then have "suffix (trim_start_rev (drop (ws_len_rev s) s)) s"
      using suffix_drop suffix_order.trans by blast
    with False show ?thesis by (simp add: trim_start_rev.simps [of s])
  qed (simp add: trim_start_rev.simps [of s])
qed

lemma trim_end_prefix: "prefix (trim_end s) s"
  using trim_start_rev_suffix [of "rev s"] by (simp add: trim_end_def suffix_to_prefix)

lemma length_trim: "length (trim s) \<le> length s"
  using trim_end_prefix [of "trim_start s"] trim_start_suffix [of s]
  by (metis le_trans prefix_length_le suffix_length_le trim_def)

lemma set_trim: "set (trim s) \<subseteq> set s"
  using trim_end_prefix [of "trim_start s"] trim_start_suffix [of s]
  by (metis (no_types, opaque_lifting) set_mono_prefix set_mono_suffix subset_trans trim_def)

text \<open>Only ASCII text without white space at its ends is left alone; that is the form
  every list entry of interest has.\<close>

lemma ws_len_ascii: "s \<noteq> [] \<Longrightarrow> is_ascii (hd s) \<Longrightarrow> ws_len s = (if ws1 (hd s) then 1 else 0)"
  by (cases s rule: ws_len.cases) (auto simp: is_ascii_def ws2_def ws3_def)

lemma ws_len_rev_ascii:
  "s \<noteq> [] \<Longrightarrow> is_ascii (hd s) \<Longrightarrow> ws_len_rev s = (if ws1 (hd s) then 1 else 0)"
  by (cases s rule: ws_len_rev.cases) (auto simp: is_ascii_def ws2_def ws3_def)

lemma trim_ascii_id:
  assumes "\<forall>c\<in>set s. is_ascii c \<and> \<not> ws1 c"
  shows "trim s = s"
proof (cases "s = []")
  case True
  then show ?thesis
    by (simp add: trim_def trim_end_def trim_start.simps trim_start_rev.simps)
next
  case False
  have "ws_len s = 0"
    using False assms by (simp add: ws_len_ascii)
  moreover have "ws_len_rev (rev s) = 0"
    using False assms by (simp add: ws_len_rev_ascii hd_rev)
  ultimately show ?thesis
    by (simp add: trim_def trim_end_def trim_start.simps [of s] trim_start_rev.simps [of "rev s"])
qed

text \<open>White space at the end of a string does not change its tokens: a white-space character
  starts with an ASCII or a lead byte, so none can straddle the cut.\<close>

definition ws_chunk :: "string \<Rightarrow> bool" where
  "ws_chunk w \<longleftrightarrow> w \<noteq> [] \<and> ws_len w = length w"

lemma ws_chunk_lead: "ws_chunk w \<Longrightarrow> \<not> (0x80 \<le> byte (hd w) \<and> byte (hd w) < 0xC0)"
  by (cases w rule: ws_len.cases)
     (auto simp: ws_chunk_def ws1_def ws2_def ws3_def split: if_splits)

lemma ws_len_append:
  assumes "p \<noteq> []" "ws_chunk w"
  shows "ws_len (p @ w) = ws_len p"
proof -
  obtain x xs where w: "w = x # xs" using assms(2) by (cases w) (auto simp: ws_chunk_def)
  have x: "\<not> (0x80 \<le> byte x \<and> byte x < 0xC0)" using ws_chunk_lead [OF assms(2)] w by simp
  have no: "\<not> ws2 a x" "\<not> ws3 a x c" "\<not> ws3 a b x" for a b c
    using x by (auto simp: ws2_def ws3_def)
  show ?thesis
    using assms(1) w no by (cases p rule: ws_len.cases; cases xs) auto
qed

lemma split_ws_append_chunk:
  assumes "ws_chunk w"
  shows "split_ws acc (p @ w) = split_ws acc p"
proof (induction acc p rule: split_ws.induct)
  case (1 acc p)
  show ?case
  proof (cases p)
    case Nil
    have "ws_len w \<noteq> 0" "drop (ws_len w) w = []" "w \<noteq> []"
      using assms by (auto simp: ws_chunk_def)
    moreover from \<open>w \<noteq> []\<close> obtain x xs where "w = x # xs" by (cases w) auto
    ultimately show ?thesis
      using Nil by (simp add: split_ws.simps [of acc "x # xs"] split_ws.simps [of acc "[]"]
          split_ws.simps [of "[]" "[]"])
  next
    case (Cons c p')
    have e: "ws_len (c # p' @ w) = ws_len (c # p')"
      using ws_len_append [OF _ assms, of "c # p'"] by simp
    show ?thesis
    proof (cases "ws_len (c # p') = 0")
      case True
      with 1(1) [OF Cons] have "split_ws (acc @ [c]) (p' @ w) = split_ws (acc @ [c]) p'"
        using Cons by simp
      with Cons True e show ?thesis
        by (simp add: split_ws.simps [of acc "c # p' @ w"] split_ws.simps [of acc "c # p'"])
    next
      case False
      have d: "drop (ws_len (c # p')) (c # p' @ w) = drop (ws_len (c # p')) (c # p') @ w"
        using ws_len_le [of "c # p'"] drop_append [of "ws_len (c # p')" "c # p'" w] by simp
      from 1(2) [OF Cons] False Cons
      have "split_ws [] (drop (ws_len (c # p')) (c # p') @ w) = split_ws [] (drop (ws_len (c # p')) (c # p'))"
        by simp
      with Cons False e d show ?thesis
        by (simp add: split_ws.simps [of acc "c # p' @ w"] split_ws.simps [of acc "c # p'"])
    qed
  qed
qed

lemma ws_len_rev_chunk:
  assumes "ws_len_rev (rev s) \<noteq> 0"
  shows "\<exists>p w. s = p @ w \<and> ws_chunk w \<and> drop (ws_len_rev (rev s)) (rev s) = rev p"
proof -
  let ?n = "ws_len_rev (rev s)"
  let ?w = "rev (take ?n (rev s))" and ?p = "rev (drop ?n (rev s))"
  have "s = ?p @ ?w" by (metis append_take_drop_id rev_append rev_rev_ident)
  moreover have "ws_chunk ?w"
    using assms
    by (cases "rev s" rule: ws_len_rev.cases)
       (auto simp: ws_chunk_def ws1_def ws2_def ws3_def split: if_splits)
  ultimately show ?thesis by (metis rev_rev_ident)
qed

lemma split_ws_trim_rev: "split_ws acc (rev (trim_start_rev t)) = split_ws acc (rev t)"
proof (induction t rule: trim_start_rev.induct)
  case (1 t)
  show ?case
  proof (cases "ws_len_rev t = 0")
    case False
    then obtain p w where pw: "rev t = p @ w" "ws_chunk w" "drop (ws_len_rev t) t = rev p"
      using ws_len_rev_chunk [of "rev t"] by auto
    have "split_ws acc (rev (trim_start_rev t)) = split_ws acc (rev (drop (ws_len_rev t) t))"
      using 1 [OF False] False by (simp add: trim_start_rev.simps [of t])
    also have "\<dots> = split_ws acc (rev t)"
      using split_ws_append_chunk [OF pw(2)] pw by simp
    finally show ?thesis .
  qed (simp add: trim_start_rev.simps [of t])
qed

lemma split_whitespace_trim_end: "split_whitespace (trim_end s) = split_whitespace s"
  using split_ws_trim_rev [of "[]" "rev s"] by (simp add: split_whitespace_def trim_end_def)

lemma ws_chunk_prefix: "ws_chunk w \<Longrightarrow> ws_len (w @ s) \<noteq> 0"
proof -
  assume w: "ws_chunk w"
  show ?thesis
  proof (cases w rule: ws_len.cases)
    case (2 a)
    with w show ?thesis by (cases s; cases "tl s") (auto simp: ws_chunk_def split: if_splits)
  next
    case (3 a b)
    with w show ?thesis by (cases s) (auto simp: ws_chunk_def split: if_splits)
  qed (use w in \<open>auto simp: ws_chunk_def split: if_splits\<close>)
qed

text \<open>\<open>trim\<close> and \<open>trim_start\<close> leave the same first byte, or nothing both.\<close>

lemma trim_start_ws_len: "ws_len (trim_start s) = 0"
  by (induction s rule: trim_start.induct) (simp add: trim_start.simps)

lemma trim_start_rev_Nil: "trim_start_rev t = [] \<Longrightarrow> t \<noteq> [] \<Longrightarrow> ws_len (rev t) \<noteq> 0"
proof (induction t rule: trim_start_rev.induct)
  case (1 t)
  have nz: "ws_len_rev t \<noteq> 0" using 1(2,3) by (metis trim_start_rev.simps)
  then obtain p w where pw: "rev t = p @ w" "ws_chunk w" "drop (ws_len_rev t) t = rev p"
    using ws_len_rev_chunk [of "rev t"] by auto
  show ?case
  proof (cases "p = []")
    case True
    with pw show ?thesis by (auto simp: ws_chunk_def)
  next
    case False
    then have "ws_len p \<noteq> 0"
      using 1(1) [OF nz] 1(2) nz pw(3) by (simp add: trim_start_rev.simps [of t])
    with False pw ws_len_append show ?thesis by simp
  qed
qed

lemma trim_hd:
  "trim s = [] \<longleftrightarrow> trim_start s = []"
  "trim s \<noteq> [] \<Longrightarrow> hd (trim s) = hd (trim_start s)"
proof -
  show e: "trim s = [] \<longleftrightarrow> trim_start s = []"
    using trim_start_rev_Nil [of "rev (trim_start s)"] trim_start_ws_len [of s]
    by (auto simp: trim_def trim_end_def trim_start_rev.simps [of "[]"])
  assume "trim s \<noteq> []"
  then show "hd (trim s) = hd (trim_start s)"
    using trim_end_prefix [of "trim_start s"] by (metis hd_append2 prefix_def trim_def)
qed

section \<open>Numbers\<close>

definition digit_val :: "char \<Rightarrow> int" where
  "digit_val c = byte c - 48"

definition hex_val :: "char \<Rightarrow> int" where
  "hex_val c =
     (if is_ascii_digit c then byte c - 48
      else if 97 \<le> byte c then byte c - 87 else byte c - 55)"

definition decimal :: "string \<Rightarrow> int" where
  "decimal s = foldl (\<lambda>n c. 10 * n + digit_val c) 0 s"

text \<open>\<open>str::parse\<close> for an unsigned type with largest value \<open>m\<close>: an optional \<open>+\<close>, then
  digits, no overflow.\<close>

definition parse_unsigned :: "int \<Rightarrow> string \<Rightarrow> int option" where
  "parse_unsigned m s =
     (let ds = (case strip_prefix ''+'' s of Some t \<Rightarrow> t | None \<Rightarrow> s)
      in if ds \<noteq> [] \<and> list_all is_ascii_digit ds \<and> decimal ds \<le> m
         then Some (decimal ds) else None)"

lemma digit_val_nonneg: "is_ascii_digit c \<Longrightarrow> 0 \<le> digit_val c"
proof -
  assume "is_ascii_digit c"
  then have le: "48 \<le> byte c" by (simp add: is_ascii_digit_def)
  then show ?thesis unfolding digit_val_def by simp
qed

lemma decimal_nonneg: "list_all is_ascii_digit ds \<Longrightarrow> 0 \<le> decimal ds"
  by (induction ds rule: rev_induct) (auto simp: decimal_def digit_val_nonneg)

lemma parse_unsigned_bound: "parse_unsigned m s = Some n \<Longrightarrow> 0 \<le> n \<and> n \<le> m"
  by (auto simp: parse_unsigned_def Let_def decimal_nonneg split: if_splits)

end
