(* ===== verification/Net.thy ===== *)
theory Net
  imports Text
begin

text \<open>
  \<open>std::net\<close> as the sources use it: addresses as machine words, \<open>str::parse::<IpAddr>\<close>
  written out branch by branch, and the bit masks of CIDR prefixes.
\<close>

type_synonym ipv4 = "32 word"
type_synonym ipv6 = "128 word"

datatype ip_addr = V4 ipv4 | V6 ipv6

section \<open>Parsing\<close>

definition to_digit :: "int \<Rightarrow> char \<Rightarrow> bool" where
  "to_digit radix c = (if radix = 16 then is_ascii_hexdigit c else is_ascii_digit c)"

text \<open>One number: between 1 and \<open>max_digits\<close> digits, no leading zero unless allowed, and a
  value the target type holds. More digits than allowed fail and are not left over.\<close>

definition read_number :: "int \<Rightarrow> nat \<Rightarrow> bool \<Rightarrow> int \<Rightarrow> string \<Rightarrow> (int \<times> string) option" where
  "read_number radix max_digits allow_zero_prefix max_value s =
     (let ds = takeWhile (to_digit radix) s;
          v = foldl (\<lambda>n c. radix * n + hex_val c) 0 ds
      in if ds = [] \<or> max_digits < length ds \<or>
            (\<not> allow_zero_prefix \<and> hd ds = CHR ''0'' \<and> 1 < length ds) \<or> max_value < v
         then None else Some (v, drop (length ds) s))"

definition read_given_char :: "char \<Rightarrow> string \<Rightarrow> string option" where
  "read_given_char c s = strip_prefix [c] s"

definition read_octet :: "string \<Rightarrow> (int \<times> string) option" where
  "read_octet s = read_number 10 3 False 255 s"

definition read_ipv4_addr :: "string \<Rightarrow> (int list \<times> string) option" where
  "read_ipv4_addr s = do {
     (a, s) \<leftarrow> read_octet s;
     s \<leftarrow> read_given_char (CHR ''.'') s;
     (b, s) \<leftarrow> read_octet s;
     s \<leftarrow> read_given_char (CHR ''.'') s;
     (c, s) \<leftarrow> read_octet s;
     s \<leftarrow> read_given_char (CHR ''.'') s;
     (d, s) \<leftarrow> read_octet s;
     Some ([a, b, c, d], s)
   }"

text \<open>\<open>read_separator(':', i, ..)\<close>: every group but the first is preceded by a colon.\<close>

definition skip_colon :: "bool \<Rightarrow> string \<Rightarrow> string option" where
  "skip_colon first s = (if first then Some s else read_given_char (CHR '':'') s)"

text \<open>\<open>read_groups\<close> over a slice of the given length: the groups read, whether they end in
  an embedded IPv4 address, and the rest. An IPv4 address needs two groups to be left.\<close>

fun read_groups :: "nat \<Rightarrow> bool \<Rightarrow> string \<Rightarrow> int list \<times> bool \<times> string" where
  "read_groups 0 first s = ([], False, s)"
| "read_groups (Suc n) first s =
     (case (if 0 < n then skip_colon first s \<bind> read_ipv4_addr else None) of
        Some (os, r) \<Rightarrow>
          ([256 * os ! 0 + os ! 1, 256 * os ! 2 + os ! 3], True, r)
      | None \<Rightarrow>
          (case skip_colon first s \<bind> read_number 16 4 True 65535 of
             None \<Rightarrow> ([], False, s)
           | Some (g, r) \<Rightarrow>
               (let (gs, v4, r') = read_groups n False r in (g # gs, v4, r'))))"

definition read_ipv6_addr :: "string \<Rightarrow> (int list \<times> string) option" where
  "read_ipv6_addr s =
     (let (head, head_ipv4, r) = read_groups 8 True s
      in if length head = 8 then Some (head, r)
         else if head_ipv4 then None
         else do {
           r \<leftarrow> read_given_char (CHR '':'') r;
           r \<leftarrow> read_given_char (CHR '':'') r;
           (let (tail, _, r) = read_groups (8 - (length head + 1)) True r
            in Some (head @ replicate (8 - length head - length tail) 0 @ tail, r))
         })"

definition ipv4_of_octets :: "int list \<Rightarrow> ipv4" where
  "ipv4_of_octets os = of_int (foldl (\<lambda>n b. 256 * n + b) 0 os)"

definition ipv6_of_segments :: "int list \<Rightarrow> ipv6" where
  "ipv6_of_segments gs = of_int (foldl (\<lambda>n g. 65536 * n + g) 0 gs)"

definition parse_ip_addr :: "string \<Rightarrow> ip_addr option" where
  "parse_ip_addr s =
     (case read_ipv4_addr s of
        Some (os, r) \<Rightarrow> if r = [] then Some (V4 (ipv4_of_octets os)) else None
      | None \<Rightarrow>
          (case read_ipv6_addr s of
             Some (gs, r) \<Rightarrow> if r = [] then Some (V6 (ipv6_of_segments gs)) else None
           | None \<Rightarrow> None))"

text \<open>\<open>str::parse::<Ipv4Addr>\<close> refuses anything longer than \<open>255.255.255.255\<close>.\<close>

definition parse_ipv4_addr :: "string \<Rightarrow> ipv4 option" where
  "parse_ipv4_addr s =
     (if 15 < length s then None
      else case read_ipv4_addr s of
        Some (os, r) \<Rightarrow> if r = [] then Some (ipv4_of_octets os) else None
      | None \<Rightarrow> None)"

lemma read_groups_length: "length (fst (read_groups n first s)) \<le> n"
proof (induction n first s rule: read_groups.induct)
  case (2 n first s)
  then show ?case
    by (auto split: option.splits prod.splits if_splits)
qed simp

section \<open>Octets and prefixes\<close>

definition octets4 :: "ipv4 \<Rightarrow> u8 list" where
  "octets4 a = map (\<lambda>i. ucast (drop_bit i a)) [24, 16, 8, 0]"

definition segments6 :: "ipv6 \<Rightarrow> u16 list" where
  "segments6 a = map (\<lambda>i. ucast (drop_bit i a)) [112, 96, 80, 64, 48, 32, 16, 0]"

definition octets6 :: "ipv6 \<Rightarrow> u8 list" where
  "octets6 a = map (\<lambda>i. ucast (drop_bit (8 * (15 - i)) a)) [0..<16]"

definition v4_of_bytes :: "u8 list \<Rightarrow> ipv4" where
  "v4_of_bytes bs = foldl (\<lambda>w b. push_bit 8 w OR ucast b) 0 bs"

lemma length_octets4 [simp]: "length (octets4 a) = 4"
  by (simp add: octets4_def)

lemma length_segments6 [simp]: "length (segments6 a) = 8"
  by (simp add: segments6_def)

lemma length_octets6 [simp]: "length (octets6 a) = 16"
  by (simp add: octets6_def)

lemma v4_of_bytes_octets4 [simp]: "v4_of_bytes (octets4 a) = a"
proof (rule bit_word_eqI)
  fix n assume n: "n < LENGTH(32)"
  then consider "n < 8" | "8 \<le> n" "n < 16" | "16 \<le> n" "n < 24" | "24 \<le> n" "n < 32"
    by fastforce
  then show "bit (v4_of_bytes (octets4 a)) n = bit a n"
    by cases (auto simp: v4_of_bytes_def octets4_def bit_simps)
qed

end
