(* ===== verification/Rule_Types.thy ===== *)
theory Rule_Types
  imports Net
begin

text \<open>
  The vocabulary of the rule engine: request and verdict types of \<open>fah-model\<close>
  (\<open>http.rs\<close>, \<open>verdict.rs\<close>), parsed rules (\<open>fah-rules/src/rule.rs\<close>), resource-type
  masks (\<open>resource.rs\<close>), domain normalisation (\<open>domain.rs\<close>) and the result of parsing
  one list (\<open>rule_list.rs\<close>). An \<open>Arc<str>\<close> is its text; a \<open>Box\<close> is its content.
\<close>

section \<open>Requests and verdicts\<close>

datatype resource_type =
    Document | Subdocument | Script | Stylesheet | Image | Font | Media | XmlHttpRequest
  | WebSocket | Ping | Object | OtherResource | UnknownResource

record http_request =
  req_url :: string
  req_host :: string
  req_method :: string
  req_resource_type :: resource_type
  req_document_host :: "string option"

record decisive_rule =
  dec_list :: string
  dec_rule :: string

datatype verdict = Allow decisive_rule | Block decisive_rule | Pass

section \<open>Parsed rules\<close>

datatype rule_action = BlockRule | AllowRule

record domain_opts =
  do_dns_types :: "string option"
  do_dns_rewrite :: "string option"
  do_client :: "string option"

definition boxed :: "domain_opts \<Rightarrow> domain_opts option" where
  "boxed self =
     (if do_dns_types self = None \<and> do_dns_rewrite self = None \<and> do_client self = None
      then None else Some self)"

record domain_rule =
  dr_domain :: string
  dr_action :: rule_action
  dr_include_subdomains :: bool
  dr_opts :: "domain_opts option"

definition plain_rule :: "string \<Rightarrow> rule_action \<Rightarrow> bool \<Rightarrow> domain_rule" where
  "plain_rule domain action include_subdomains =
     \<lparr> dr_domain = domain, dr_action = action, dr_include_subdomains = include_subdomains,
       dr_opts = None \<rparr>"

definition dr_dns_types :: "domain_rule \<Rightarrow> string option" where
  "dr_dns_types r = dr_opts r \<bind> do_dns_types"

definition dr_dns_rewrite :: "domain_rule \<Rightarrow> string option" where
  "dr_dns_rewrite r = dr_opts r \<bind> do_dns_rewrite"

definition dr_client :: "domain_rule \<Rightarrow> string option" where
  "dr_client r = dr_opts r \<bind> do_client"

datatype url_anchor = AnchorDomain | AnchorStart | AnchorAnywhere

datatype party = PartyAny | PartyThird | PartyFirst

record url_rule =
  ur_pattern :: string
  ur_action :: rule_action
  ur_anchor :: url_anchor
  ur_end_anchored :: bool
  ur_match_case :: bool
  ur_party :: party
  ur_resource_types :: u16
  ur_domains :: "string option"
  ur_methods :: "string option"
  ur_client :: "string option"

datatype inactive_reason = Cosmetic | Unsupported

datatype rule_kind = Active domain_rule | Url url_rule | Inactive inactive_reason

text \<open>\<open>ParsedRule\<close> has the one field \<open>kind\<close>.\<close>

type_synonym parsed_rule = rule_kind

definition is_active :: "parsed_rule \<Rightarrow> bool" where
  "is_active r = (case r of Active _ \<Rightarrow> True | _ \<Rightarrow> False)"

definition is_url :: "parsed_rule \<Rightarrow> bool" where
  "is_url r = (case r of Url _ \<Rightarrow> True | _ \<Rightarrow> False)"

section \<open>Resource types as a bit mask\<close>

definition TYPES :: "(resource_type \<times> string list) list" where
  "TYPES =
     [(Document, [''document'', ''doc'']),
      (Subdocument, [''subdocument'', ''frame'']),
      (Script, [''script'']),
      (Stylesheet, [''stylesheet'', ''css'']),
      (Image, [''image'', ''img'']),
      (Font, [''font'']),
      (Media, [''media'']),
      (XmlHttpRequest, [''xmlhttprequest'', ''xhr'']),
      (WebSocket, [''websocket'']),
      (Ping, [''ping'', ''beacon'']),
      (Object, [''object'']),
      (OtherResource, [''other''])]"

definition ALL_TYPES :: u16 where
  "ALL_TYPES = push_bit 12 1 - 1"

definition bit_for_option :: "string \<Rightarrow> u16 option" where
  "bit_for_option name =
     map_option (\<lambda>i. push_bit i 1)
       (position (\<lambda>(_, names). \<exists>n\<in>set names. eq_ignore_ascii_case name n) TYPES)"

definition bit_for_request :: "resource_type \<Rightarrow> u16" where
  "bit_for_request kind =
     (if kind = UnknownResource then 0
      else case position (\<lambda>(c, _). c = kind) TYPES of None \<Rightarrow> 0 | Some i \<Rightarrow> push_bit i 1)"

text \<open>The two directions agree: an option name selects the bit of exactly the type it is a
  name of, and every type but the unknown one has its own bit inside the mask.\<close>

lemma length_TYPES: "length TYPES = 12"
  by (simp add: TYPES_def)

lemma bit_for_request_table:
  "bit_for_request kind =
     (case kind of Document \<Rightarrow> 1 | Subdocument \<Rightarrow> 2 | Script \<Rightarrow> 4 | Stylesheet \<Rightarrow> 8 | Image \<Rightarrow> 16
      | Font \<Rightarrow> 32 | Media \<Rightarrow> 64 | XmlHttpRequest \<Rightarrow> 128 | WebSocket \<Rightarrow> 256 | Ping \<Rightarrow> 512
      | Object \<Rightarrow> 1024 | OtherResource \<Rightarrow> 2048 | UnknownResource \<Rightarrow> 0)"
  by (cases kind) (simp_all add: bit_for_request_def TYPES_def)

lemma bit_for_request_le: "bit_for_request kind AND ALL_TYPES = bit_for_request kind"
  by (cases kind) (simp_all add: bit_for_request_table ALL_TYPES_def)

section \<open>Domain normalisation\<close>

definition MAX_DOMAIN_LEN :: nat where
  "MAX_DOMAIN_LEN = 253"

definition domain_char :: "char \<Rightarrow> bool" where
  "domain_char c \<longleftrightarrow>
     is_ascii_alphanumeric c \<or> c = CHR ''-'' \<or> c = CHR ''.'' \<or> c = CHR ''_''"

definition normalize_domain :: "string \<Rightarrow> string option" where
  "normalize_domain candidate =
     (let candidate = trim_end_matches (CHR ''.'') (trim candidate)
      in if candidate = [] \<or> MAX_DOMAIN_LEN < length candidate then None
         else if \<not> list_all domain_char candidate then None
         else if hd candidate = CHR ''-'' \<or> hd candidate = CHR ''.'' \<or> last candidate = CHR ''-''
         then None
         else if list_ex is_ascii_uppercase candidate then Some (lower candidate)
         else Some candidate)"

text \<open>What every anchor the parsers produce looks like.\<close>

definition domain_wf :: "string \<Rightarrow> bool" where
  "domain_wf d \<longleftrightarrow>
     d \<noteq> [] \<and> length d \<le> MAX_DOMAIN_LEN \<and> list_all domain_char d \<and>
     \<not> list_ex is_ascii_uppercase d \<and>
     hd d \<noteq> CHR ''-'' \<and> hd d \<noteq> CHR ''.'' \<and> last d \<noteq> CHR ''-'' \<and> last d \<noteq> CHR ''.''"

lemma domain_char_lower: "domain_char c \<Longrightarrow> domain_char (to_ascii_lowercase c)"
  by (auto simp: domain_char_def ascii_simps byte_class_defs to_ascii_lowercase_def)

lemma lower_eq_nonalpha:
  assumes "\<not> is_ascii_alphabetic d"
  shows "to_ascii_lowercase c = d \<longleftrightarrow> c = d"
proof
  assume eq: "to_ascii_lowercase c = d"
  show "c = d"
  proof (cases "is_ascii_uppercase c")
    case True
    then have "is_ascii_lowercase (to_ascii_lowercase c)"
      by (simp add: is_ascii_lowercase_def byte_lower is_ascii_uppercase_def)
    with eq assms show ?thesis by (simp add: is_ascii_alphabetic_def)
  next
    case False
    with eq show ?thesis by (simp add: ascii_simps)
  qed
next
  assume "c = d"
  with assms show "to_ascii_lowercase c = d"
    by (simp add: ascii_simps is_ascii_alphabetic_def)
qed

lemma domain_char_plain: "domain_char c \<Longrightarrow> is_ascii c \<and> \<not> ws1 c"
  by (auto simp: domain_char_def is_ascii_def ws1_def byte_class_defs)

lemma normalize_domain_Some:
  assumes "normalize_domain s = Some d"
  shows "d = lower (trim_end_matches (CHR ''.'') (trim s)) \<and> domain_wf d"
proof -
  let ?c = "trim_end_matches (CHR ''.'') (trim s)"
  have c: "?c \<noteq> []" "length ?c \<le> MAX_DOMAIN_LEN" "list_all domain_char ?c"
    "hd ?c \<noteq> CHR ''-''" "hd ?c \<noteq> CHR ''.''" "last ?c \<noteq> CHR ''-''"
    and d: "d = (if list_ex is_ascii_uppercase ?c then lower ?c else ?c)"
    using assms by (auto simp: normalize_domain_def Let_def split: if_splits)
  have low: "d = lower ?c"
  proof (cases "list_ex is_ascii_uppercase ?c")
    case False
    then have "lower ?c = ?c"
      by (intro lower_strings_id) (auto simp: list_ex_iff)
    with d False show ?thesis by simp
  qed (simp add: d)
  have na: "\<not> is_ascii_alphabetic (CHR ''-'')" "\<not> is_ascii_alphabetic (CHR ''.'')"
    by (simp_all add: byte_class_defs)
  have "hd d \<noteq> CHR ''-''" "hd d \<noteq> CHR ''.''" "last d \<noteq> CHR ''-''" "last d \<noteq> CHR ''.''"
    using c trim_end_matches_last [OF c(1)]
    by (simp_all add: low hd_map last_map lower_eq_nonalpha na)
  moreover have "list_all domain_char d" "\<not> list_ex is_ascii_uppercase d"
    using c(3) by (auto simp: low list_all_iff list_ex_iff domain_char_lower ascii_simps)
  ultimately show ?thesis using c low by (simp add: domain_wf_def)
qed

lemma domain_wf_normalize:
  assumes "domain_wf d"
  shows "normalize_domain d = Some d"
proof -
  have "trim d = d"
    using assms by (intro trim_ascii_id) (auto simp: domain_wf_def list_all_iff domain_char_plain)
  moreover have "trim_end_matches (CHR ''.'') d = d"
    using assms by (intro trim_end_matches_id) (simp add: domain_wf_def)
  ultimately show ?thesis
    using assms by (simp add: normalize_domain_def domain_wf_def not_less)
qed

text \<open>C32: A name \<open>normalize_domain\<close> accepts is a well-formed anchor: non-empty, at most 253
  bytes of lower-case alphanumerics, hyphens, dots and underscores, not starting with a hyphen
  or dot and not ending in one. It is the trimmed candidate lower-cased, and normalising it
  again changes nothing.\<close>

theorem normalize_domain_canonical:
  assumes "normalize_domain s = Some d"
  shows "domain_wf d \<and> d = lower (trim_end_matches (CHR ''.'') (trim s))
    \<and> normalize_domain d = Some d"
  using normalize_domain_Some [OF assms] domain_wf_normalize by blast

theorem normalize_domain_canonical_witness:
  "normalize_domain '' Ads.Example.COM. '' = Some ''ads.example.com''
   \<and> normalize_domain ''ads.example.com'' = Some ''ads.example.com''"
proof -
  have "normalize_domain '' Ads.Example.COM. '' = Some ''ads.example.com''"
    by code_simp
  with normalize_domain_canonical [OF this] show ?thesis by blast
qed

section \<open>The result of parsing a list\<close>

datatype rule_format = Hosts | PlainDomainList | Adblock

record parsed_rule_list =
  prl_format :: rule_format
  prl_rules :: "parsed_rule list"
  prl_parse_errors :: u32
  prl_parse_error_lines :: "u32 list"

definition MAX_REPORTED_ERROR_LINES :: nat where
  "MAX_REPORTED_ERROR_LINES = 100"

record parse_error_log =
  el_count :: u32
  el_lines :: "u32 list"

definition parse_error_log_default :: parse_error_log where
  "parse_error_log_default = \<lparr> el_count = 0, el_lines = [] \<rparr>"

definition error_record :: "parse_error_log \<Rightarrow> nat \<Rightarrow> parse_error_log" where
  "error_record self line_index =
     (let self = self\<lparr> el_count := el_count self + 1 \<rparr>
      in if length (el_lines self) < MAX_REPORTED_ERROR_LINES
         then self\<lparr> el_lines := el_lines self @ [of_nat line_index + 1] \<rparr> else self)"

definition into_parts :: "parse_error_log \<Rightarrow> u32 \<times> u32 list" where
  "into_parts self = (el_count self, el_lines self)"

record rule_counts =
  rc_active :: nat
  rc_url :: nat
  rc_inactive :: nat

definition counts :: "parsed_rule_list \<Rightarrow> rule_counts" where
  "counts self =
     foldl (\<lambda>c r. case r of
         Active _ \<Rightarrow> c\<lparr> rc_active := rc_active c + 1 \<rparr>
       | Url _ \<Rightarrow> c\<lparr> rc_url := rc_url c + 1 \<rparr>
       | Inactive _ \<Rightarrow> c\<lparr> rc_inactive := rc_inactive c + 1 \<rparr>)
     \<lparr> rc_active = 0, rc_url = 0, rc_inactive = 0 \<rparr> (prl_rules self)"

definition active_count :: "parsed_rule_list \<Rightarrow> nat" where
  "active_count self = rc_active (counts self)"

definition url_count :: "parsed_rule_list \<Rightarrow> nat" where
  "url_count self = rc_url (counts self)"

definition inactive_count :: "parsed_rule_list \<Rightarrow> nat" where
  "inactive_count self = rc_inactive (counts self)"

lemma counts_eq:
  "counts self =
     \<lparr> rc_active = length (filter is_active (prl_rules self)),
       rc_url = length (filter is_url (prl_rules self)),
       rc_inactive =
         length (filter (\<lambda>r. \<not> is_active r \<and> \<not> is_url r) (prl_rules self)) \<rparr>"
proof -
  define step where "step = (\<lambda>c r. case r of
         Active _ \<Rightarrow> c\<lparr> rc_active := rc_active c + 1 \<rparr>
       | Url _ \<Rightarrow> c\<lparr> rc_url := rc_url c + 1 \<rparr>
       | Inactive _ \<Rightarrow> c\<lparr> rc_inactive := rc_inactive (c :: rule_counts) + 1 \<rparr>)"
  have "foldl step c rs =
     \<lparr> rc_active = rc_active c + length (filter is_active rs),
       rc_url = rc_url c + length (filter is_url rs),
       rc_inactive = rc_inactive c + length (filter (\<lambda>r. \<not> is_active r \<and> \<not> is_url r) rs) \<rparr>"
    for c :: rule_counts and rs
    by (induction rs arbitrary: c)
       (auto simp: step_def is_active_def is_url_def split: rule_kind.splits)
  then show ?thesis by (simp add: counts_def step_def)
qed

lemma counts_total:
  "active_count self + url_count self + inactive_count self = length (prl_rules self)"
proof -
  have "length (filter is_active rs) + length (filter is_url rs)
      + length (filter (\<lambda>r. \<not> is_active r \<and> \<not> is_url r) rs) = length rs" for rs
    by (induction rs) (auto simp: is_active_def is_url_def split: rule_kind.splits)
  then show ?thesis
    by (simp add: active_count_def url_count_def inactive_count_def counts_eq)
qed

end
