(* ===== verification/Format.thy ===== *)
theory Format
  imports Rule_Types
begin

text \<open>
  \<open>fah-rules/src/format.rs\<close>: which of the three list syntaxes a text is written in.
\<close>

definition SAMPLE_LINES :: nat where
  "SAMPLE_LINES = 200"

definition is_ignorable :: "string \<Rightarrow> bool" where
  "is_ignorable line =
     (case line of [] \<Rightarrow> True | c # _ \<Rightarrow> c = CHR ''#'' \<or> c = CHR ''!'' \<or> c = CHR ''['')"

definition looks_like_ip :: "string \<Rightarrow> bool" where
  "looks_like_ip token =
     (if CHR ''.'' \<in> set token \<and> CHR '':'' \<notin> set token
      then (let parts = split_on (\<lambda>c. c = CHR ''.'') token
            in list_all (\<lambda>part. part \<noteq> [] \<and> list_all is_ascii_digit part) parts \<and> 2 \<le> length parts)
      else if CHR '':'' \<in> set token
      then list_all (\<lambda>b. is_ascii_hexdigit b \<or> b = CHR '':'') token
      else False)"

definition looks_like_bare_domain :: "string \<Rightarrow> bool" where
  "looks_like_bare_domain line \<longleftrightarrow>
     line \<noteq> [] \<and> \<not> has_whitespace line \<and>
     list_all (\<lambda>c. is_ascii_alphanumeric c \<or> c \<in> {CHR ''.'', CHR ''-'', CHR ''_''}) line"

definition option_start :: "string \<Rightarrow> bool" where
  "option_start s = (case s of [] \<Rightarrow> False | c # _ \<Rightarrow> is_ascii_alphabetic c \<or> c = CHR ''~'')"

definition looks_like_adblock :: "string \<Rightarrow> bool" where
  "looks_like_adblock line =
     (if prefix ''||'' line \<or> prefix ''@@'' line \<or> prefix ''|'' line \<or> suffix ''|'' line
        \<or> contains_str ''##'' line \<or> contains_str ''#@#'' line \<or> contains_str ''#?#'' line
        \<or> contains_str ''#$#'' line \<or> CHR ''^'' \<in> set line \<or> CHR ''/'' \<in> set line
      then True
      else list_ex option_start (drop 1 (split_on (\<lambda>c. c = CHR ''$'') line)))"

definition classify_line :: "string \<Rightarrow> rule_format option" where
  "classify_line line =
     (if (case split_whitespace line of first # _ # _ \<Rightarrow> looks_like_ip first | _ \<Rightarrow> False)
      then Some Hosts
      else if looks_like_adblock line then Some Adblock
      else if looks_like_bare_domain line then Some PlainDomainList
      else None)"

text \<open>The sampling loop: counters for the three formats and the number of lines sampled.\<close>

fun detect_loop :: "string list \<Rightarrow> nat \<Rightarrow> nat \<Rightarrow> nat \<Rightarrow> nat \<Rightarrow> nat \<times> nat \<times> nat" where
  "detect_loop [] hosts adblock domains sampled = (hosts, adblock, domains)"
| "detect_loop (line # rest) hosts adblock domains sampled =
     (let line = trim line
      in if is_ignorable line then detect_loop rest hosts adblock domains sampled
         else let format = classify_line line;
                  hosts = (if format = Some Hosts then hosts + 1 else hosts);
                  adblock = (if format = Some Adblock then adblock + 1 else adblock);
                  domains = (if format = Some PlainDomainList then domains + 1 else domains)
           in if SAMPLE_LINES \<le> sampled + 1 then (hosts, adblock, domains)
              else detect_loop rest hosts adblock domains (sampled + 1))"

definition detect_format :: "string \<Rightarrow> rule_format" where
  "detect_format text =
     (let (hosts, adblock, domains) = detect_loop (lines text) 0 0 0 0
      in if adblock < hosts \<and> domains < hosts then Hosts
         else if domains < adblock \<and> hosts < adblock then Adblock
         else PlainDomainList)"

text \<open>The vote is over the first content lines only: what the loop counts is the tally over
  the first \<open>SAMPLE_LINES\<close> lines that are not ignorable.\<close>

definition votes :: "string \<Rightarrow> rule_format option list" where
  "votes text =
     map classify_line (take SAMPLE_LINES (filter (\<lambda>l. \<not> is_ignorable l) (map trim (lines text))))"

lemma detect_loop_votes:
  assumes "sampled < SAMPLE_LINES"
  shows "detect_loop ls h a d sampled =
    (let vs = map classify_line
           (take (SAMPLE_LINES - sampled) (filter (\<lambda>l. \<not> is_ignorable l) (map trim ls)))
     in (h + count_list vs (Some Hosts), a + count_list vs (Some Adblock),
         d + count_list vs (Some PlainDomainList)))"
  using assms
proof (induction ls arbitrary: h a d sampled)
  case (Cons l ls)
  show ?case
  proof (cases "SAMPLE_LINES \<le> sampled + 1")
    case True
    then have "SAMPLE_LINES - sampled = Suc 0" using Cons.prems by simp
    with True Cons show ?thesis by (auto simp: Let_def)
  next
    case False
    then have "SAMPLE_LINES - sampled = Suc (SAMPLE_LINES - (sampled + 1))" by simp
    with False Cons show ?thesis by (auto simp: Let_def)
  qed
qed (simp add: Let_def)

text \<open>C33: Format detection is a plurality vote of the first 200 content lines: hosts or adblock
  syntax is chosen only when strictly more of them look like it than like either other format,
  and everything else, ties and empty texts included, is a plain domain list. (The description of
  the module speaks of the first non-comment line alone; one line does not decide.)\<close>

theorem detect_format_plurality:
  "detect_format text =
     (let n = (\<lambda>f. count_list (votes text) (Some f))
      in if n Adblock < n Hosts \<and> n PlainDomainList < n Hosts then Hosts
         else if n PlainDomainList < n Adblock \<and> n Hosts < n Adblock then Adblock
         else PlainDomainList)"
  by (simp add: detect_format_def detect_loop_votes SAMPLE_LINES_def votes_def Let_def)

end
