(* ===== verification/Policy_Model.thy ===== *)
theory Policy_Model
  imports Rule_Types
begin

text \<open>
  \<open>fah-model/src/policy.rs\<close>: policy identifiers, weekly schedules, client selectors and
  assignments. Small unsigned integers are words of their width; a shift by a policy index is
  taken modulo the width, as the release profile compiles it.
\<close>

section \<open>Policies\<close>

datatype policy_id = PolicyId u8

definition DEFAULT_POLICY :: policy_id where
  "DEFAULT_POLICY = PolicyId 0"

definition POLICY_MAX :: nat where
  "POLICY_MAX = 16"

fun policy_bit :: "policy_id \<Rightarrow> u16" where
  "policy_bit (PolicyId n) = push_bit (unat n mod 16) 1"

fun policy_index :: "policy_id \<Rightarrow> nat" where
  "policy_index (PolicyId n) = unat n"

record policy =
  pol_id :: string
  pol_name :: string
  pol_lists :: "string list"
  pol_blocking_mode :: "string option"

lemma bit_policy_bit:
  assumes "unat n < 16"
  shows "bit (policy_bit (PolicyId n)) k \<longleftrightarrow> k = unat n"
  using assms by (auto simp: bit_simps)

declare policy_bit.simps [simp del]

section \<open>Schedules\<close>

record schedule =
  sch_days :: u8
  sch_start :: u16
  sch_end :: u16

definition ALL_DAYS :: u8 where
  "ALL_DAYS = 0b01111111"

definition day_on :: "u8 \<Rightarrow> u8 \<Rightarrow> bool" where
  "day_on days day \<longleftrightarrow> days AND push_bit (unat (day mod 7)) 1 \<noteq> 0"

definition schedule_contains :: "schedule \<Rightarrow> u8 \<Rightarrow> u16 \<Rightarrow> bool" where
  "schedule_contains self weekday minute_of_day =
     (if sch_start self < sch_end self
      then day_on (sch_days self) weekday
           \<and> sch_start self \<le> minute_of_day \<and> minute_of_day < sch_end self
      else (day_on (sch_days self) weekday \<and> sch_start self \<le> minute_of_day)
         \<or> (day_on (sch_days self) ((weekday + 6) mod 7) \<and> minute_of_day < sch_end self))"

text \<open>
  The contract of a window: it opens on day \<open>d\<close> at \<open>start\<close> and stays open for its length,
  counted in minutes of the week, whether or not it crosses midnight.
\<close>

definition window_minutes :: "schedule \<Rightarrow> nat" where
  "window_minutes s =
     (if sch_start s < sch_end s then unat (sch_end s) - unat (sch_start s)
      else 1440 - unat (sch_start s) + unat (sch_end s))"

definition window_open :: "schedule \<Rightarrow> nat \<Rightarrow> bool" where
  "window_open s t \<longleftrightarrow>
     (\<exists>d\<in>{0..<7}. bit (sch_days s) d \<and>
        (t + 7 * 1440 - (1440 * d + unat (sch_start s))) mod (7 * 1440) < window_minutes s)"

lemma day_on_bit: "unat day < 7 \<Longrightarrow> day_on days day \<longleftrightarrow> bit days (unat day)"
proof -
  assume d: "unat day < 7"
  have m: "unat (day mod 7) = unat day"
    using d by (simp add: unat_mod)
  have "days AND push_bit k 1 \<noteq> 0 \<longleftrightarrow> bit days k" if "k < 7" for k
  proof
    assume "bit days k"
    then have "bit (days AND push_bit k 1) k" using that by (simp add: bit_simps)
    then show "days AND push_bit k 1 \<noteq> 0" by auto
  next
    assume "days AND push_bit k 1 \<noteq> 0"
    then obtain i where "bit (days AND push_bit k 1) i"
      by (auto simp: bit_eq_iff)
    then show "bit days k" by (auto simp: bit_simps)
  qed
  from this [OF d] show ?thesis by (simp add: day_on_def m)
qed

lemma previous_day:
  assumes "unat (w :: u8) < 7"
  shows "unat ((w + 6) mod 7) = (unat w + 6) mod 7"
proof -
  have "unat (w + 6) = unat w + 6"
    using assms by (subst unat_add_lem [THEN iffD1]) auto
  then show ?thesis by (simp add: unat_mod)
qed

text \<open>One day's window, on the week's clock: only the day it opens on and the next one can
  see it.\<close>

lemma window_mod_same:
  fixes w d m st :: nat
  assumes "w < 7" "d < 7" "m < 1440" "st < 1440" "len \<le> 1440"
  shows "(1440 * w + m + 10080 - (1440 * d + st)) mod 10080 < len \<longleftrightarrow>
     (d = w \<and> st \<le> m \<and> m < st + len) \<or> (d = (w + 6) mod 7 \<and> m + 1440 < st + len)"
proof -
  have prev: "d = (w + 6) mod 7 \<longleftrightarrow> (w = 0 \<and> d = 6) \<or> w = d + 1"
  proof (cases w)
    case (Suc k)
    then have "(w + 6) mod 7 = k"
      using assms(1) by simp
    with Suc show ?thesis by auto
  qed simp
  show ?thesis
  proof (cases "1440 * d + st \<le> 1440 * w + m")
    case True
    define x where "x = 1440 * w + m - (1440 * d + st)"
    have x: "1440 * w + m = x + (1440 * d + st)" using True by (simp add: x_def)
    have "x < 10080" using assms x by linarith
    then have "(1440 * w + m + 10080 - (1440 * d + st)) mod 10080 = x" using x by simp
    moreover have "x < len \<longleftrightarrow> (d = w \<and> st \<le> m \<and> m < st + len) \<or> (w = d + 1 \<and> m + 1440 < st + len)"
    proof -
      consider "w = d" | "w = d + 1" | "d + 2 \<le> w" | "w < d" by linarith
      then show ?thesis
      proof cases
        case 3
        then have "1440 * d + 2880 \<le> 1440 * w" by linarith
        with x assms have "\<not> x < len" by linarith
        with 3 show ?thesis by linarith
      next
        case 4
        then have "1440 * w + 1440 \<le> 1440 * d" by linarith
        with x assms show ?thesis by linarith
      qed (use x assms in linarith)+
    qed
    moreover have "\<not> (w = 0 \<and> d = 6)" using True assms by auto
    ultimately show ?thesis using prev by auto
  next
    case False
    define x where "x = 1440 * w + m + 10080 - (1440 * d + st)"
    have x: "x + (1440 * d + st) = 1440 * w + m + 10080" "x < 10080"
      using assms False by (auto simp: x_def)
    then have "x mod 10080 < len \<longleftrightarrow> w = 0 \<and> d = 6 \<and> m + 1440 < st + len"
    proof -
      consider "d \<le> w + 5" | "w = 0" "d = 6" using assms by linarith
      then show ?thesis
      proof cases
        case 1
        then have "1440 * d \<le> 1440 * w + 7200" by linarith
        with x assms have "\<not> x < len" by linarith
        with 1 x show ?thesis by auto
      qed (use x assms in auto)
    qed
    moreover have "\<not> (d = w \<and> st \<le> m)" "w \<noteq> d + 1" using False assms by auto
    ultimately show ?thesis using prev by (auto simp: x_def)
  qed
qed

lemma window_open_iff:
  assumes "w < 7" "m < 1440" "unat (sch_start s) < 1440" "window_minutes s \<le> 1440"
  shows "window_open s (1440 * w + m) \<longleftrightarrow>
     (bit (sch_days s) w \<and> unat (sch_start s) \<le> m \<and> m < unat (sch_start s) + window_minutes s)
   \<or> (bit (sch_days s) ((w + 6) mod 7) \<and> m + 1440 < unat (sch_start s) + window_minutes s)"
proof -
  have "(1440 * w + m + 7 * 1440 - (1440 * d + unat (sch_start s))) mod (7 * 1440)
          < window_minutes s \<longleftrightarrow>
      (d = w \<and> unat (sch_start s) \<le> m \<and> m < unat (sch_start s) + window_minutes s) \<or>
      (d = (w + 6) mod 7 \<and> m + 1440 < unat (sch_start s) + window_minutes s)" if "d < 7" for d
    using window_mod_same [OF assms(1) that assms(2,3,4)] by simp
  then show ?thesis
    unfolding window_open_def using assms(1) by (auto intro: bexI [of _ w])
qed

text \<open>C28: \<open>Schedule::contains\<close> implements the recurring weekly window: a moment is inside it
  exactly when some enabled day's window, opened at \<open>start\<close> and open for its length, covers that
  minute of the week. A window that ends at or before its start runs into the next day, and one
  with equal ends is a full day.\<close>

theorem schedule_contains_window:
  assumes "unat weekday < 7" "unat minute_of_day < 1440"
    "unat (sch_start s) < 1440" "unat (sch_end s) \<le> 1440"
  shows "schedule_contains s weekday minute_of_day
     \<longleftrightarrow> window_open s (1440 * unat weekday + unat minute_of_day)"
proof -
  have len: "window_minutes s \<le> 1440"
    using assms(4) by (auto simp: window_minutes_def word_less_nat_alt)
  have prev: "day_on (sch_days s) ((weekday + 6) mod 7)
      \<longleftrightarrow> bit (sch_days s) ((unat weekday + 6) mod 7)"
    using day_on_bit [of "(weekday + 6) mod 7"] previous_day [OF assms(1)] by simp
  show ?thesis
    unfolding window_open_iff [OF assms(1-3) len] schedule_contains_def prev
      day_on_bit [OF assms(1)]
    using assms(2-4)
    by (auto simp: window_minutes_def word_less_nat_alt word_le_nat_alt)
qed

theorem schedule_contains_window_witness:
  "schedule_contains \<lparr> sch_days = 0b0111110, sch_start = 1260, sch_end = 420 \<rparr> 6 100
   \<and> window_open \<lparr> sch_days = 0b0111110, sch_start = 1260, sch_end = 420 \<rparr> (1440 * 6 + 100)"
  using schedule_contains_window
    [of 6 100 "\<lparr> sch_days = 0b0111110, sch_start = 1260, sch_end = 420 \<rparr>"]
  by (simp add: schedule_contains_def day_on_def)

section \<open>Client selectors\<close>

datatype client_selector =
    SelIp ip_addr
  | SelNetwork ip_addr u8
  | SelName string

definition covered :: "u8 list \<Rightarrow> u8 list \<Rightarrow> u8 \<Rightarrow> bool" where
  "covered network candidate prefix_len =
     (if length network * 8 < unat prefix_len then False
      else let whole = unat (prefix_len div 8)
        in if take whole network \<noteq> take whole candidate then False
           else let bits = prefix_len mod 8
             in if bits = 0 then True
                else let mask = push_bit (unat (8 - bits)) 0xff
                  in network ! whole AND mask = candidate ! whole AND mask)"

definition network_contains :: "ip_addr \<Rightarrow> u8 \<Rightarrow> ip_addr \<Rightarrow> bool" where
  "network_contains address prefix_len ip =
     (case (address, ip) of
        (V4 network, V4 candidate) \<Rightarrow> covered (octets4 network) (octets4 candidate) prefix_len
      | (V6 network, V6 candidate) \<Rightarrow> covered (octets6 network) (octets6 candidate) prefix_len
      | _ \<Rightarrow> False)"

fun selector_matches :: "client_selector \<Rightarrow> ip_addr \<Rightarrow> string option \<Rightarrow> bool" where
  "selector_matches (SelIp wanted) ip name = (wanted = ip)"
| "selector_matches (SelNetwork address prefix_len) ip name =
     network_contains address prefix_len ip"
| "selector_matches (SelName wanted) ip name =
     (case name of None \<Rightarrow> False | Some name \<Rightarrow> eq_ignore_ascii_case name wanted)"

fun specificity :: "client_selector \<Rightarrow> nat" where
  "specificity (SelName _) = 1000"
| "specificity (SelIp _) = 900"
| "specificity (SelNetwork _ prefix_len) = unat prefix_len"

record assignment =
  asg_client :: client_selector
  asg_policy :: string
  asg_schedule :: "schedule option"

text \<open>The reference: the first \<open>n\<close> bits of a byte string, most significant first.\<close>

definition byte_bit :: "u8 list \<Rightarrow> nat \<Rightarrow> bool" where
  "byte_bit bs k = bit (bs ! (k div 8)) (7 - k mod 8)"

lemma byte_eq_bits:
  fixes a b :: u8
  assumes "k \<le> 8"
  shows "a AND push_bit (8 - k) 0xff = b AND push_bit (8 - k) 0xff \<longleftrightarrow>
     (\<forall>j<k. bit a (7 - j) = bit b (7 - j))"
proof -
  have mask: "bit (push_bit (8 - k) (0xff :: u8)) i \<longleftrightarrow> 8 - k \<le> i \<and> i < 8" for i
  proof -
    have ones: "(0xff :: u8) = - 1" by simp
    show ?thesis unfolding ones by (auto simp: bit_simps)
  qed
  have "a AND push_bit (8 - k) 0xff = b AND push_bit (8 - k) 0xff \<longleftrightarrow>
     (\<forall>i. 8 - k \<le> i \<and> i < 8 \<longrightarrow> bit a i = bit b i)"
    unfolding bit_eq_iff [of "a AND _"] by (auto simp: bit_and_iff mask)
  also have "\<dots> \<longleftrightarrow> (\<forall>j<k. bit a (7 - j) = bit b (7 - j))"
  proof (rule iffI; intro allI impI)
    fix j assume "\<forall>i. 8 - k \<le> i \<and> i < 8 \<longrightarrow> bit a i = bit b i" "j < k"
    moreover from this assms have "8 - k \<le> 7 - j" "7 - j < 8" by auto
    ultimately show "bit a (7 - j) = bit b (7 - j)" by blast
  next
    fix i assume *: "\<forall>j<k. bit a (7 - j) = bit b (7 - j)" and i: "8 - k \<le> i \<and> i < 8"
    then have "7 - i < k" "7 - (7 - i) = i" using assms by auto
    with * show "bit a i = bit b i" by metis
  qed
  finally show ?thesis .
qed

lemma byte_eq_all: "(a :: u8) = b \<longleftrightarrow> (\<forall>j<8. bit a (7 - j) = bit b (7 - j))"
proof
  assume *: "\<forall>j<8. bit a (7 - j) = bit b (7 - j)"
  show "a = b"
  proof (rule bit_word_eqI)
    fix n assume "n < LENGTH(8)"
    then have "7 - n < 8" "7 - (7 - n) = n" by auto
    with * show "bit a n = bit b n" by metis
  qed
qed simp

lemma covered_bits:
  assumes "length candidate = length network" "unat p \<le> 8 * length network"
  shows "covered network candidate p \<longleftrightarrow>
     (\<forall>k<unat p. byte_bit network k = byte_bit candidate k)"
proof -
  define q r where "q = unat p div 8" and "r = unat p mod 8"
  have p: "unat p = 8 * q + r" "r < 8" by (simp_all add: q_def r_def)
  have q: "q \<le> length network" "0 < r \<Longrightarrow> q < length network" using assms(2) p by auto
  have whole: "take q network = take q candidate \<longleftrightarrow>
      (\<forall>k<8 * q. byte_bit network k = byte_bit candidate k)"
  proof -
    have "take q network = take q candidate \<longleftrightarrow> (\<forall>i<q. network ! i = candidate ! i)"
      using q(1) assms(1) by (auto simp: list_eq_iff_nth_eq)
    also have "\<dots> \<longleftrightarrow> (\<forall>i<q. \<forall>j<8. byte_bit network (8 * i + j) = byte_bit candidate (8 * i + j))"
      unfolding byte_bit_def by (simp add: byte_eq_all)
    also have "\<dots> \<longleftrightarrow> (\<forall>k<8 * q. byte_bit network k = byte_bit candidate k)"
    proof (rule iffI; intro allI impI)
      fix k assume *: "\<forall>i<q. \<forall>j<8. byte_bit network (8 * i + j) = byte_bit candidate (8 * i + j)"
        and "k < 8 * q"
      then have "k div 8 < q" "k mod 8 < 8" by auto
      with * have "byte_bit network (8 * (k div 8) + k mod 8)
          = byte_bit candidate (8 * (k div 8) + k mod 8)" by blast
      then show "byte_bit network k = byte_bit candidate k" by simp
    qed auto
    finally show ?thesis .
  qed
  have part: "network ! q AND push_bit (8 - r) 0xff = candidate ! q AND push_bit (8 - r) 0xff \<longleftrightarrow>
      (\<forall>j<r. byte_bit network (8 * q + j) = byte_bit candidate (8 * q + j))"
    using p(2) by (simp add: byte_eq_bits byte_bit_def)
  have split: "(\<forall>k<8 * q + r. P k) \<longleftrightarrow> (\<forall>k<8 * q. P k) \<and> (\<forall>j<r. P (8 * q + j))" for P
  proof (rule iffI; (intro allI impI)?)
    assume "\<forall>k<8 * q + r. P k"
    then show "(\<forall>k<8 * q. P k) \<and> (\<forall>j<r. P (8 * q + j))" by simp
  next
    fix k assume *: "(\<forall>k<8 * q. P k) \<and> (\<forall>j<r. P (8 * q + j))" and k: "k < 8 * q + r"
    show "P k"
    proof (cases "k < 8 * q")
      case False
      then have "k - 8 * q < r" "k = 8 * q + (k - 8 * q)" using k by auto
      with * show ?thesis by metis
    qed (use * in blast)
  qed
  have bits: "unat (p div 8) = q" "p mod 8 = 0 \<longleftrightarrow> r = 0" "unat (8 - p mod 8) = 8 - r"
  proof -
    show "unat (p div 8) = q" by (simp add: q_def unat_div)
    have r: "unat (p mod 8) = r" by (simp add: r_def unat_mod)
    then show "p mod 8 = 0 \<longleftrightarrow> r = 0" by (metis unat_0 word_unat_eq_iff)
    show "unat (8 - p mod 8) = 8 - r"
      using r p(2) by (subst unat_sub) (auto simp: word_le_nat_alt)
  qed
  show ?thesis
    using assms(2) unfolding covered_def Let_def bits p(1) split whole [symmetric]
    using part by (auto simp: p(1) [symmetric] not_less mult.commute)
qed

lemma octets4_nth: "i < 4 \<Longrightarrow> octets4 a ! i = ucast (drop_bit (8 * (3 - i)) a)"
proof -
  assume "i < 4"
  then consider "i = 0" | "i = 1" | "i = 2" | "i = 3" by linarith
  then show ?thesis by cases (simp_all add: octets4_def)
qed

lemma octets6_nth: "i < 16 \<Longrightarrow> octets6 a ! i = ucast (drop_bit (8 * (15 - i)) a)"
  by (simp add: octets6_def)

lemma byte_bit_octets4: "k < 32 \<Longrightarrow> byte_bit (octets4 a) k = bit a (31 - k)"
proof -
  assume k: "k < 32"
  have "k = 8 * (k div 8) + k mod 8" "k mod 8 < 8" by simp_all
  moreover from this k have d: "k div 8 < 4" by linarith
  ultimately have e: "8 * (3 - k div 8) + (7 - k mod 8) = 31 - k" by linarith
  have lt: "7 - k mod 8 < (8 :: nat)" by linarith
  have "byte_bit (octets4 a) k = bit a (8 * (3 - k div 8) + (7 - k mod 8))"
    using lt by (simp add: byte_bit_def octets4_nth [OF d] bit_ucast_iff bit_drop_bit_eq)
  then show ?thesis unfolding e .
qed

lemma byte_bit_octets6: "k < 128 \<Longrightarrow> byte_bit (octets6 a) k = bit a (127 - k)"
proof -
  assume k: "k < 128"
  have "k = 8 * (k div 8) + k mod 8" "k mod 8 < 8" by simp_all
  moreover from this k have d: "k div 8 < 16" by linarith
  ultimately have e: "8 * (15 - k div 8) + (7 - k mod 8) = 127 - k" by linarith
  have lt: "7 - k mod 8 < (8 :: nat)" by linarith
  have "byte_bit (octets6 a) k = bit a (8 * (15 - k div 8) + (7 - k mod 8))"
    using lt by (simp add: byte_bit_def octets6_nth [OF d] bit_ucast_iff bit_drop_bit_eq)
  then show ?thesis unfolding e .
qed

lemma drop_bit_eq_iff:
  fixes a b :: "'a::len word"
  assumes "n \<le> LENGTH('a)"
  shows "drop_bit (LENGTH('a) - n) a = drop_bit (LENGTH('a) - n) b \<longleftrightarrow>
    (\<forall>k<n. bit a (LENGTH('a) - 1 - k) = bit b (LENGTH('a) - 1 - k))"
proof (rule iffI; (intro allI impI)?)
  fix k assume eq: "drop_bit (LENGTH('a) - n) a = drop_bit (LENGTH('a) - n) b" and k: "k < n"
  then have "bit (drop_bit (LENGTH('a) - n) a) (n - 1 - k) = bit (drop_bit (LENGTH('a) - n) b) (n - 1 - k)"
    by simp
  moreover have "LENGTH('a) - n + (n - 1 - k) = LENGTH('a) - 1 - k" using k assms by simp
  ultimately show "bit a (LENGTH('a) - 1 - k) = bit b (LENGTH('a) - 1 - k)"
    by (simp add: bit_drop_bit_eq)
next
  assume *: "\<forall>k<n. bit a (LENGTH('a) - 1 - k) = bit b (LENGTH('a) - 1 - k)"
  show "drop_bit (LENGTH('a) - n) a = drop_bit (LENGTH('a) - n) b"
  proof (rule bit_word_eqI)
    fix i
    show "bit (drop_bit (LENGTH('a) - n) a) i = bit (drop_bit (LENGTH('a) - n) b) i"
    proof (cases "LENGTH('a) - n + i < LENGTH('a)")
      case True
      then have "i < n" using assms by simp
      then have "n - 1 - i < n" "LENGTH('a) - 1 - (n - 1 - i) = LENGTH('a) - n + i"
        using assms by auto
      with * show ?thesis by (metis bit_drop_bit_eq comp_apply)
    next
      case False
      then show ?thesis by (metis bit_drop_bit_eq bit_imp_le_length comp_apply)
    qed
  qed
qed

text \<open>C29: \<open>network_contains\<close> decides CIDR membership: an address is in \<open>address/prefix_len\<close>
  exactly when both have the same family, the prefix is no longer than the address, and the
  leading \<open>prefix_len\<close> bits agree.\<close>

theorem network_contains_cidr:
  "network_contains address p ip =
     (case (address, ip) of
        (V4 a, V4 b) \<Rightarrow> unat p \<le> 32 \<and> drop_bit (32 - unat p) a = drop_bit (32 - unat p) b
      | (V6 a, V6 b) \<Rightarrow> unat p \<le> 128 \<and> drop_bit (128 - unat p) a = drop_bit (128 - unat p) b
      | _ \<Rightarrow> False)"
proof -
  have v4: "covered (octets4 a) (octets4 b) p \<longleftrightarrow>
      unat p \<le> 32 \<and> drop_bit (32 - unat p) a = drop_bit (32 - unat p) b" for a b
  proof (cases "unat p \<le> 32")
    case True
    have "covered (octets4 a) (octets4 b) p \<longleftrightarrow> (\<forall>k<unat p. bit a (31 - k) = bit b (31 - k))"
      using covered_bits [of "octets4 b" "octets4 a" p] True by (simp add: byte_bit_octets4)
    with True show ?thesis using drop_bit_eq_iff [of "unat p" a b] by simp
  qed (simp add: covered_def)
  have v6: "covered (octets6 a) (octets6 b) p \<longleftrightarrow>
      unat p \<le> 128 \<and> drop_bit (128 - unat p) a = drop_bit (128 - unat p) b" for a b
  proof (cases "unat p \<le> 128")
    case True
    have "covered (octets6 a) (octets6 b) p \<longleftrightarrow> (\<forall>k<unat p. bit a (127 - k) = bit b (127 - k))"
      using covered_bits [of "octets6 b" "octets6 a" p] True by (simp add: byte_bit_octets6)
    with True show ?thesis using drop_bit_eq_iff [of "unat p" a b] by simp
  qed (simp add: covered_def)
  show ?thesis
    by (simp add: network_contains_def v4 v6 split: ip_addr.splits)
qed

end
