(* ===== verification/Tz.thy ===== *)
theory Tz
  imports Policy_Model "HOL-Library.Signed_Division"
begin

text \<open>
  \<open>fah-config/src/tz.rs\<close>: POSIX TZ strings, the civil calendar and local time.

  Integers are mathematical; the casts \<open>as i32\<close> and \<open>as u8\<close> are written out, and \<open>/\<close> and
  \<open>%\<close> are the truncating \<open>sdiv\<close> and \<open>smod\<close>. The parser has two places that slice a
  string at a fixed byte offset to quote it in an error message; a slice inside a character
  panics, so parsing returns an \<open>outcome\<close>.
\<close>

section \<open>Data\<close>

record transition =
  tr_month :: int
  tr_week :: int
  tr_weekday :: int
  tr_seconds :: int

record dst =
  dst_offset :: int
  dst_start :: transition
  dst_end :: transition

record posix_tz =
  tz_std_offset :: int
  tz_dst :: "dst option"

record local_time =
  lt_weekday :: int
  lt_minute_of_day :: int

datatype tz_error =
    EmptyTimezone | UnterminatedName | EmptyName | ShortName string | NoOffset string
  | OffsetField string | OffsetRange | MissingRules string | MissingSecondRule
  | TransitionForm string | TransitionField string | TransitionTrailing string
  | TransitionRange string | TransitionTimeTrailing string | TransitionTimeDay string

definition UTC :: posix_tz where
  "UTC = \<lparr> tz_std_offset = 0, tz_dst = None \<rparr>"

definition as_i32 :: "int \<Rightarrow> int" where
  "as_i32 n = signed_take_bit 31 n"

definition as_i64 :: "int \<Rightarrow> int" where
  "as_i64 n = signed_take_bit 63 n"

definition as_u8 :: "int \<Rightarrow> int" where
  "as_u8 n = take_bit 8 n"

section \<open>Parsing\<close>

definition read_name :: "string \<Rightarrow> (tz_error, string) outcome" where
  "read_name spec =
     (case strip_prefix ''<'' spec of
        Some rest \<Rightarrow>
          (case position (\<lambda>c. c = CHR ''>'') rest of
             None \<Rightarrow> Err UnterminatedName
           | Some close \<Rightarrow> if close = 0 then Err EmptyName else Ok (drop (close + 1) rest))
      | None \<Rightarrow>
          (let len = length (takeWhile is_ascii_alphabetic spec)
           in if len < 3
              then (case str_prefix spec (min (length spec) 8) of
                      None \<Rightarrow> Panic | Some found \<Rightarrow> Err (ShortName found))
              else Ok (drop len spec)))"

text \<open>The loop of \<open>read_offset\<close>, with the number of fields left; the array starts as zeros.\<close>

fun read_parts :: "nat \<Rightarrow> string \<Rightarrow> (tz_error, int list \<times> string) outcome" where
  "read_parts 0 rest = Ok ([], rest)"
| "read_parts (Suc n) rest =
     (let digits = length (takeWhile is_ascii_digit rest)
      in if digits = 0
         then (if n = 2
               then (case str_prefix rest (min (length rest) 8) of
                       None \<Rightarrow> Panic | Some found \<Rightarrow> Err (NoOffset found))
               else Ok (replicate (Suc n) 0, rest))
         else (case parse_unsigned (2 ^ 31 - 1) (take digits rest) of
                 None \<Rightarrow> Err (OffsetField (take digits rest))
               | Some part \<Rightarrow>
                   (let rest = drop digits rest
                    in case strip_prefix '':'' rest of
                         Some after \<Rightarrow>
                           if 0 < n
                           then and_then (read_parts n after) (\<lambda>(parts, rest). Ok (part # parts, rest))
                           else Ok (part # replicate n 0, rest)
                       | None \<Rightarrow> Ok (part # replicate n 0, rest))))"

definition read_sign :: "string \<Rightarrow> bool \<times> string" where
  "read_sign spec =
     (case spec of
        c # cs \<Rightarrow> if c = CHR ''-'' then (True, cs) else if c = CHR ''+'' then (False, cs)
                  else (False, spec)
      | [] \<Rightarrow> (False, spec))"

definition read_offset :: "string \<Rightarrow> (tz_error, int \<times> string) outcome" where
  "read_offset spec =
     (let (negated, rest) = read_sign spec
      in and_then (read_parts 3 rest) (\<lambda>(parts, rest).
           let hours = parts ! 0; minutes = parts ! 1; seconds = parts ! 2
           in if 24 < hours \<or> 59 < minutes \<or> 59 < seconds then Err OffsetRange
              else let magnitude = hours * 3600 + minutes * 60 + seconds
                in Ok (if negated then magnitude else - magnitude, rest)))"

text \<open>\<open>next(what)\<close>: the field at a position, as a \<open>u8\<close>.\<close>

definition transition_field :: "string \<Rightarrow> string list \<Rightarrow> nat \<Rightarrow> (tz_error, int) outcome" where
  "transition_field date parts i =
     (case index_at parts i \<bind> parse_unsigned 255 of
        None \<Rightarrow> Err (TransitionField date) | Some v \<Rightarrow> Ok v)"

definition parse_transition :: "string \<Rightarrow> (tz_error, transition) outcome" where
  "parse_transition spec =
     (let (date, time) =
        (case split_once (CHR ''/'') spec of
           Some (date, time) \<Rightarrow> (date, Some time) | None \<Rightarrow> (spec, None))
      in case strip_prefix ''M'' date of
        None \<Rightarrow> Err (TransitionForm date)
      | Some fs \<Rightarrow>
          (let parts = split_on (\<lambda>c. c = CHR ''.'') fs
           in and_then (transition_field date parts 0) (\<lambda>month.
              and_then (transition_field date parts 1) (\<lambda>week.
              and_then (transition_field date parts 2) (\<lambda>weekday.
                if 3 < length parts then Err (TransitionTrailing date)
                else if \<not> (1 \<le> month \<and> month \<le> 12) \<or> \<not> (1 \<le> week \<and> week \<le> 5) \<or> 6 < weekday
                then Err (TransitionRange date)
                else and_then
                  (case time of
                     None \<Rightarrow> Ok (2 * 3600)
                   | Some time \<Rightarrow>
                       and_then (read_offset time) (\<lambda>(offset, rest).
                         if rest \<noteq> [] then Err (TransitionTimeTrailing rest) else Ok (- offset)))
                  (\<lambda>seconds.
                     if \<not> (0 \<le> seconds \<and> seconds < 86400) then Err (TransitionTimeDay spec)
                     else Ok \<lparr> tr_month = month, tr_week = week, tr_weekday = weekday,
                                tr_seconds = seconds \<rparr>))))))"

text \<open>The second half of \<open>PosixTz::parse\<close>: the DST name, its offset and the two rules.\<close>

definition tz_parse_dst :: "int \<Rightarrow> string \<Rightarrow> (tz_error, posix_tz) outcome" where
  "tz_parse_dst std_offset rest =
     and_then (read_name rest) (\<lambda>rest.
     and_then (if prefix '','' rest then Ok (std_offset + 3600, rest)
               else read_offset rest) (\<lambda>(dst_off, rest).
       case strip_prefix '','' rest of
         None \<Rightarrow> Err (MissingRules rest)
       | Some rules \<Rightarrow>
           (case split_once (CHR '','') rules of
              None \<Rightarrow> Err MissingSecondRule
            | Some (start, end) \<Rightarrow>
                and_then (parse_transition start) (\<lambda>start.
                and_then (parse_transition end) (\<lambda>end.
                  Ok \<lparr> tz_std_offset = std_offset,
                       tz_dst = Some \<lparr> dst_offset = dst_off, dst_start = start,
                                       dst_end = end \<rparr> \<rparr>)))))"

definition tz_parse :: "string \<Rightarrow> (tz_error, posix_tz) outcome" where
  "tz_parse spec =
     (let spec = trim spec
      in if spec = [] then Err EmptyTimezone
         else and_then (read_name spec) (\<lambda>rest.
              and_then (if rest = [] then Ok (0, rest) else read_offset rest) (\<lambda>(std_offset, rest).
                if rest = [] then Ok \<lparr> tz_std_offset = std_offset, tz_dst = None \<rparr>
                else tz_parse_dst std_offset rest)))"

section \<open>The civil calendar\<close>

definition div_floor :: "int \<Rightarrow> int \<Rightarrow> int" where
  "div_floor value divisor =
     (let quotient = value sdiv divisor
      in if value smod divisor \<noteq> 0 \<and> (value < 0) \<noteq> (divisor < 0) then quotient - 1 else quotient)"

definition is_leap :: "int \<Rightarrow> bool" where
  "is_leap year \<longleftrightarrow> (year smod 4 = 0 \<and> year smod 100 \<noteq> 0) \<or> year smod 400 = 0"

definition days_in_month :: "int \<Rightarrow> int \<Rightarrow> int" where
  "days_in_month year month =
     (if month = 2 \<and> is_leap year then 29
      else [31, 28, 31, 30, 31, 30, 31, 31, 30, 31, 30, 31] ! nat (month - 1))"

text \<open>\<open>year - 1\<close> is an \<open>i32\<close> subtraction and wraps at the least year; the widening comes after
  it, and with an \<open>i32\<close> year nothing that follows leaves the range of an \<open>i64\<close>.\<close>

definition days_from_civil :: "int \<Rightarrow> int \<Rightarrow> int \<Rightarrow> int" where
  "days_from_civil year month day =
     (let year = (if month \<le> 2 then as_i32 (year - 1) else year);
          era = (if 0 \<le> year then year else year - 399) sdiv 400;
          year_of_era = year - era * 400;
          day_of_year =
            (153 * (if 2 < month then month - 3 else month + 9) + 2) sdiv 5 + day - 1;
          day_of_era =
            year_of_era * 365 + year_of_era sdiv 4 - year_of_era sdiv 100 + day_of_year
      in era * 146097 + day_of_era - 719468)"

definition civil_from_days :: "int \<Rightarrow> int \<times> int \<times> int" where
  "civil_from_days days =
     (let days = days + 719468;
          era = (if 0 \<le> days then days else days - 146096) sdiv 146097;
          day_of_era = days - era * 146097;
          year_of_era =
            (day_of_era - day_of_era sdiv 1460 + day_of_era sdiv 36524
               - day_of_era sdiv 146096) sdiv 365;
          year = year_of_era + era * 400;
          day_of_year =
            day_of_era - (365 * year_of_era + year_of_era sdiv 4 - year_of_era sdiv 100);
          m = (5 * day_of_year + 2) sdiv 153;
          day = as_u8 (day_of_year - (153 * m + 2) sdiv 5 + 1);
          month = as_u8 (if m < 10 then m + 3 else m - 9)
      in (as_i32 (if month \<le> 2 then year + 1 else year), month, day))"

section \<open>Transitions and local time\<close>

text \<open>\<open>while day >= month_len { day -= 7; }\<close>\<close>

function last_in_month :: "int \<Rightarrow> int \<Rightarrow> int" where
  "last_in_month day month_len =
     (if month_len \<le> day then last_in_month (day - 7) month_len else day)"
  by pat_completeness auto
termination
  by (relation "measure (\<lambda>(day, month_len). nat (day - month_len + 1))") auto

declare last_in_month.simps [simp del]

definition transition_instant :: "transition \<Rightarrow> int \<Rightarrow> int \<Rightarrow> int" where
  "transition_instant rule year offset_before =
     (let first = days_from_civil year (tr_month rule) 1;
          first_weekday = as_u8 ((first + 4) mod 7);
          to_first_match = (tr_weekday rule + 7 - first_weekday) smod 7;
          day = last_in_month (to_first_match + (tr_week rule - 1) * 7)
                  (days_in_month year (tr_month rule))
      in (first + day) * 86400 + tr_seconds rule - offset_before)"

text \<open>The instant is an \<open>i64\<close>: the additions and the multiplication of \<open>offset_at\<close> and \<open>local\<close>
  wrap, as they do in the release build. \<open>days * 86_400\<close> can leave the range too, on the first
  day an \<open>i64\<close> reaches, and the subtraction then wraps back.\<close>

definition offset_at :: "posix_tz \<Rightarrow> int \<Rightarrow> int" where
  "offset_at self unix_seconds =
     (case tz_dst self of
        None \<Rightarrow> tz_std_offset self
      | Some dst \<Rightarrow>
          (let year = fst (civil_from_days
                 (div_floor (as_i64 (unix_seconds + tz_std_offset self)) 86400));
               start = transition_instant (dst_start dst) year (tz_std_offset self);
               end = transition_instant (dst_end dst) year (dst_offset dst);
               in_dst = (if start \<le> end then start \<le> unix_seconds \<and> unix_seconds < end
                         else start \<le> unix_seconds \<or> unix_seconds < end)
           in if in_dst then dst_offset dst else tz_std_offset self))"

definition tz_local :: "posix_tz \<Rightarrow> int \<Rightarrow> local_time" where
  "tz_local self unix_seconds =
     (let local = as_i64 (unix_seconds + offset_at self unix_seconds);
          days = div_floor local 86400;
          seconds_of_day = as_i64 (local - as_i64 (days * 86400))
      in \<lparr> lt_weekday = as_u8 ((days + 4) mod 7), lt_minute_of_day = take_bit 16 (seconds_of_day sdiv 60) \<rparr>)"

section \<open>Arithmetic\<close>

lemma sdiv_nonneg [simp]: "0 \<le> a \<Longrightarrow> 0 < b \<Longrightarrow> a sdiv b = a div (b :: int)"
  by (cases "a = 0") (auto simp: signed_divide_int_def)

lemma smod_nonneg [simp]: "0 \<le> a \<Longrightarrow> 0 < b \<Longrightarrow> a smod b = a mod (b :: int)"
  by (cases "a = 0") (auto simp: signed_modulo_int_def)

lemma sdiv_neg: "a < 0 \<Longrightarrow> 0 < b \<Longrightarrow> a sdiv b = - ((- a) div (b :: int))"
  by (simp add: signed_divide_int_def)

lemma neg_div_ceil: "0 < b \<Longrightarrow> - ((- a) div b) = (a + b - 1) div (b :: int)"
proof -
  assume b: "0 < b"
  define q r where "q = (- a) div b" and "r = (- a) mod b"
  have "- a = b * q + r" "0 \<le> r" "r < b"
    using b by (simp_all add: q_def r_def)
  then have "a + b - 1 = b * (- q) + (b - 1 - r)" "0 \<le> b - 1 - r" "b - 1 - r < b"
    by auto
  then have "(a + b - 1) div b = - q"
    by (rule int_div_pos_eq)
  then show ?thesis by (simp add: q_def)
qed

lemma era_floor:
  "0 < b \<Longrightarrow> c = b - 1 \<Longrightarrow> (if 0 \<le> a then a else a - c) sdiv b = a div (b :: int)"
  using neg_div_ceil [of b "a - (b - 1)"] by (auto simp: sdiv_neg)

lemma div_floor_div: "0 < b \<Longrightarrow> div_floor a b = a div b"
proof (cases "0 \<le> a")
  case False
  assume b: "0 < b"
  define q r where "q = (- a) div b" and "r = (- a) mod b"
  have qr: "- a = b * q + r" "0 \<le> r" "r < b"
    using b by (simp_all add: q_def r_def)
  have sd: "a sdiv b = - q" using False b by (simp add: sdiv_neg q_def)
  have sm: "a smod b = - r"
    using False b by (simp add: signed_modulo_int_def r_def)
  show ?thesis
  proof (cases "r = 0")
    case True
    then have "a = b * (- q)" using qr by simp
    then have "a div b = - q" using b by (metis nonzero_mult_div_cancel_left less_irrefl)
    with True sd sm show ?thesis by (simp add: div_floor_def)
  next
    case nz: False
    then have "a = b * (- q - 1) + (b - r)" "0 \<le> b - r" "b - r < b"
      using qr by (auto simp: algebra_simps)
    then have "a div b = - q - 1"
      by (rule int_div_pos_eq)
    with nz False b sd sm show ?thesis by (simp add: div_floor_def)
  qed
qed (simp add: div_floor_def)

lemma as_u8_small [simp]: "0 \<le> n \<Longrightarrow> n < 256 \<Longrightarrow> as_u8 n = n"
  by (simp add: as_u8_def take_bit_int_eq_self)

lemma as_i64_small [simp]: "- (2 ^ 63) \<le> n \<Longrightarrow> n < 2 ^ 63 \<Longrightarrow> as_i64 n = n"
  by (simp add: as_i64_def signed_take_bit_int_eq_self)

lemma as_i32_small [simp]: "- (2 ^ 31) \<le> n \<Longrightarrow> n < 2 ^ 31 \<Longrightarrow> as_i32 n = n"
  by (simp add: as_i32_def signed_take_bit_int_eq_self)

section \<open>The calendar is a bijection\<close>

text \<open>Years start in March. \<open>year_start\<close> is the day of the era a year of the era starts on,
  \<open>year_of\<close> the year of the era of a day, both with flooring division.\<close>

definition year_start :: "int \<Rightarrow> int" where
  "year_start y = 365 * y + y div 4 - y div 100"

definition year_of :: "int \<Rightarrow> int" where
  "year_of doe = (doe - doe div 1460 + doe div 36524 - doe div 146096) div 365"

lemma year_of_endpoints:
  "\<forall>y\<in>set [0..399]. year_of (year_start y) = y \<and>
     (if y < 399 then year_of (year_start (y + 1) - 1) = y else year_of 146096 = y)"
  by code_simp

lemma sub_div_mono: "0 < k \<Longrightarrow> a \<le> b \<Longrightarrow> a - a div k \<le> b - b div (k :: int)"
proof -
  assume "0 < k" "a \<le> b"
  then have "(b - a + a) div k \<le> (b - a) + a div k"
  proof -
    have "(b - a) * 1 \<le> (b - a) * k"
      using \<open>0 < k\<close> \<open>a \<le> b\<close> by (intro mult_left_mono) auto
    then have "b div k \<le> ((b - a) * k + a) div k"
      using \<open>0 < k\<close> by (intro zdiv_mono1) auto
    also have "\<dots> = (b - a) + a div k" using \<open>0 < k\<close> by simp
    finally show ?thesis by simp
  qed
  then show ?thesis by simp
qed

lemma year_of_mono:
  assumes "0 \<le> a" "a \<le> b" "b < 146096"
  shows "year_of a \<le> year_of b"
proof -
  have "a div 146096 = 0" "b div 146096 = 0" using assms by simp_all
  moreover have "a - a div 1460 \<le> b - b div 1460" using assms by (intro sub_div_mono) auto
  moreover have "a div 36524 \<le> b div 36524" using assms by (intro zdiv_mono1) auto
  ultimately have "a - a div 1460 + a div 36524 - a div 146096
      \<le> b - b div 1460 + b div 36524 - b div 146096" by linarith
  then show ?thesis unfolding year_of_def by (rule zdiv_mono1) simp
qed

lemma year_start_mono: "y \<le> z \<Longrightarrow> year_start y \<le> year_start z"
proof -
  assume yz: "y \<le> z"
  have "y - y div 100 \<le> z - z div 100" "y div 4 \<le> z div 4"
    using yz by (auto intro: sub_div_mono zdiv_mono1)
  with yz show ?thesis unfolding year_start_def by linarith
qed

lemma year_of_unique:
  assumes "0 \<le> y" "y \<le> 399" "year_start y \<le> doe"
    "if y < 399 then doe < year_start (y + 1) else doe \<le> 146096"
  shows "year_of doe = y"
proof -
  have y: "y \<in> set [0..399]" using assms by simp
  have ends: "year_of (year_start y) = y"
    "if y < 399 then year_of (year_start (y + 1) - 1) = y else year_of 146096 = y"
    using year_of_endpoints y by blast+
  have "0 \<le> year_start y" using year_start_mono [of 0 y] assms by (simp add: year_start_def)
  then have nn: "0 \<le> doe" using assms(3) by simp
  show ?thesis
  proof (cases "y < 399")
    case True
    have "year_start (y + 1) \<le> year_start 399" using True by (intro year_start_mono) simp
    also have "\<dots> = 145731" by (simp add: year_start_def)
    finally have b: "year_start (y + 1) \<le> 145731" .
    have "year_of (year_start y) \<le> year_of doe"
      using assms True b \<open>0 \<le> year_start y\<close> by (intro year_of_mono) auto
    moreover have "year_of doe \<le> year_of (year_start (y + 1) - 1)"
      using assms True b nn by (intro year_of_mono) auto
    ultimately show ?thesis using ends True by simp
  next
    case False
    then have y: "y = 399" using assms by simp
    show ?thesis
    proof (cases "doe = 146096")
      case F: False
      then have lt: "doe < 146096" using assms y by simp
      have "year_of (year_start y) \<le> year_of doe"
        using assms lt \<open>0 \<le> year_start y\<close> by (intro year_of_mono) auto
      moreover have "year_of doe \<le> year_of 146095"
        using lt nn by (intro year_of_mono) auto
      moreover have "year_of 146095 = 399" by (simp add: year_of_def)
      ultimately show ?thesis using ends y by simp
    qed (use ends y in simp)
  qed
qed

text \<open>Months of a March-based year, exhaustively: 0 is March, 11 is February.\<close>

definition month_len :: "int \<Rightarrow> int" where
  "month_len mp = [31, 30, 31, 30, 31, 31, 30, 31, 30, 31, 31, 29] ! nat mp"

lemma month_of_day:
  "\<forall>mp\<in>set [0..11]. \<forall>d\<in>set [1..month_len mp].
     (5 * ((153 * mp + 2) div 5 + d - 1) + 2) div 153 = mp"
  by code_simp

lemma month_bounds:
  "\<forall>doy\<in>set [0..365]. (let m = (5 * doy + 2) div 153; d = doy - (153 * m + 2) div 5 + 1
     in 0 \<le> m \<and> m \<le> 11 \<and> 1 \<le> d \<and> d \<le> month_len m)"
  by code_simp

lemma year_lengths:
  "\<forall>y\<in>set [0..398]. year_start (y + 1) = year_start y + 365
     + (if (y + 1) mod 4 = 0 \<and> (y + 1) mod 100 \<noteq> 0 then 1 else 0)"
  by code_simp

lemma smod_eq_0: "0 < b \<Longrightarrow> a smod b = 0 \<longleftrightarrow> a mod b = (0 :: int)"
proof -
  assume "0 < b"
  then have "a smod b = 0 \<longleftrightarrow> b dvd \<bar>a\<bar>"
    by (auto simp: signed_modulo_int_def sgn_if dvd_eq_mod_eq_0)
  also have "\<dots> \<longleftrightarrow> b dvd a" by (rule dvd_abs_iff)
  finally show ?thesis by (simp add: dvd_eq_mod_eq_0)
qed

lemma mod_plus_cancel: "k dvd n \<Longrightarrow> (a mod n + b) mod k = (a + b) mod (k :: int)"
  by (metis mod_add_left_eq mod_mod_cancel)

lemma is_leap_mod:
  "is_leap year \<longleftrightarrow> (year mod 4 = 0 \<and> year mod 100 \<noteq> 0) \<or> year mod 400 = 0"
  by (simp add: is_leap_def smod_eq_0)

definition valid_date :: "int \<Rightarrow> int \<Rightarrow> int \<Rightarrow> bool" where
  "valid_date year month day \<longleftrightarrow>
     1 \<le> month \<and> month \<le> 12 \<and> 1 \<le> day \<and> day \<le> days_in_month year month"

text \<open>The March-based month of a calendar month, and the year it belongs to.\<close>

definition mp_of :: "int \<Rightarrow> int" where
  "mp_of month = (if 2 < month then month - 3 else month + 9)"

definition march_year :: "int \<Rightarrow> int \<Rightarrow> int" where
  "march_year year month = (if month \<le> 2 then as_i32 (year - 1) else year)"

lemma days_from_civil_eq:
  assumes "1 \<le> month" "month \<le> 12"
  shows "days_from_civil year month day =
    march_year year month div 400 * 146097 + year_start (march_year year month mod 400)
      + (153 * mp_of month + 2) div 5 + day - 1 - 719468"
proof -
  let ?y = "march_year year month"
  have era: "(if 0 \<le> ?y then ?y else ?y - 399) sdiv 400 = ?y div 400"
    by (rule era_floor) simp_all
  have yoe: "?y - ?y div 400 * 400 = ?y mod 400" by (simp add: minus_div_mult_eq_mod)
  have mp: "0 \<le> 153 * mp_of month + 2" using assms by (simp add: mp_of_def)
  show ?thesis
    unfolding days_from_civil_def Let_def march_year_def [symmetric] mp_of_def [symmetric] era yoe
    using mp by (simp add: year_start_def algebra_simps)
qed

lemma month_cases:
  assumes "1 \<le> month" "month \<le> (12 :: int)"
  shows "month \<in> {1, 2, 3, 4, 5, 6, 7, 8, 9, 10, 11, 12}"
proof -
  have "month \<in> set [1..12]" using assms by simp
  also have "set [1..12] = {1, 2, 3, 4, 5, 6, 7, 8, 9, 10, 11, 12 :: int}"
    by (simp add: upto.simps)
  finally show ?thesis .
qed

lemma mp_cases:
  assumes "0 \<le> mp" "mp \<le> (11 :: int)"
  shows "mp \<in> {0, 1, 2, 3, 4, 5, 6, 7, 8, 9, 10, 11}"
  using month_cases [of "mp + 1"] assms by auto

lemma month_len_days:
  assumes "1 \<le> month" "month \<le> 12"
  shows "days_in_month year month =
     (if month = 2 \<and> \<not> is_leap year then 28 else month_len (mp_of month))"
proof -
  from month_cases [OF assms] show ?thesis by (auto simp: days_in_month_def month_len_def mp_of_def)
qed

lemma days_in_month_ge: "1 \<le> month \<Longrightarrow> month \<le> 12 \<Longrightarrow> 28 \<le> days_in_month year month"
proof -
  assume "1 \<le> month" "month \<le> 12"
  from month_cases [OF this] show ?thesis by (auto simp: days_in_month_def)
qed

lemma doy_bound:
  "\<forall>mp\<in>set [0..11]. \<forall>d\<in>set [1..month_len mp].
     (153 * mp + 2) div 5 + d - 1 \<le> 365 \<and>
     (365 \<le> (153 * mp + 2) div 5 + d - 1 \<longrightarrow> mp = 11 \<and> d = 29)"
  by code_simp

lemma civil_from_days_split:
  assumes "0 \<le> yoe" "yoe \<le> 399" "0 \<le> mp" "mp \<le> 11" "1 \<le> d" "d \<le> month_len mp"
    and doy: "doy = (153 * mp + 2) div 5 + d - 1"
    and len: "doy = 365 \<longrightarrow> (yoe + 1) mod 4 = 0 \<and> (yoe + 1) mod 100 \<noteq> 0 \<or> yoe = 399"
  shows "civil_from_days (era * 146097 + year_start yoe + doy - 719468) =
    (let month = (if mp < 10 then mp + 3 else mp - 9); year = yoe + era * 400
     in (as_i32 (if month \<le> 2 then year + 1 else year), month, d))"
proof -
  let ?n = "era * 146097 + year_start yoe + doy"
  have mem: "mp \<in> set [0..11]" "d \<in> set [1..month_len mp]" using assms by auto
  have db: "0 \<le> doy" "doy \<le> 365" using doy_bound mem assms by auto
  have y0: "0 \<le> year_start yoe" using year_start_mono [of 0 yoe] assms(1) by (simp add: year_start_def)
  have inyear: "if yoe < 399 then year_start yoe + doy < year_start (yoe + 1)
      else year_start yoe + doy \<le> 146096"
  proof (cases "yoe < 399")
    case True
    then have "yoe \<in> set [0..398]" using assms by simp
    then have "year_start (yoe + 1) = year_start yoe + 365
       + (if (yoe + 1) mod 4 = 0 \<and> (yoe + 1) mod 100 \<noteq> 0 then 1 else 0)"
      using year_lengths by blast
    with True db len show ?thesis by auto
  next
    case False
    then have "yoe = 399" using assms by simp
    then show ?thesis using db by (simp add: year_start_def)
  qed
  have year: "year_of (year_start yoe + doy) = yoe"
    using assms db inyear by (intro year_of_unique) auto
  have small: "year_start yoe + doy < 146097"
  proof (cases "yoe < 399")
    case True
    have "year_start (yoe + 1) \<le> year_start 399" using True by (intro year_start_mono) simp
    with True inyear show ?thesis by (simp add: year_start_def [of 399])
  qed (use inyear in auto)
  have era: "?n div 146097 = era"
    using small y0 db by (intro int_div_pos_eq [of _ 146097 era "year_start yoe + doy"]) auto
  have eraS: "(if 0 \<le> ?n then ?n else ?n - 146096) sdiv 146097 = era"
    by (rule trans [OF era_floor era]) simp_all
  have doe: "?n - era * 146097 = year_start yoe + doy" by simp
  have yo: "(year_start yoe + doy - (year_start yoe + doy) sdiv 1460 + (year_start yoe + doy) sdiv 36524
       - (year_start yoe + doy) sdiv 146096) sdiv 365 = yoe"
  proof -
    have nn: "0 \<le> year_start yoe + doy" using y0 db by simp
    have "0 \<le> year_start yoe + doy - (year_start yoe + doy) div 1460
        + (year_start yoe + doy) div 36524 - (year_start yoe + doy) div 146096"
    proof -
      have "(year_start yoe + doy) div 1460 \<le> (year_start yoe + doy) div 1" using nn by (intro zdiv_mono2) auto
      moreover have "(year_start yoe + doy) div 146096 \<le> (year_start yoe + doy) div 36524"
        using nn by (intro zdiv_mono2) auto
      ultimately show ?thesis by simp
    qed
    with nn year show ?thesis by (simp add: year_of_def)
  qed
  have ys: "365 * yoe + yoe sdiv 4 - yoe sdiv 100 = year_start yoe"
    using assms(1) by (simp add: year_start_def)
  have dd: "year_start yoe + doy - year_start yoe = doy" by simp
  have m: "(5 * doy + 2) sdiv 153 = mp"
    using month_of_day mem db by (simp add: doy)
  have d': "doy - (153 * mp + 2) sdiv 5 + 1 = d" using assms(3) by (simp add: doy)
  have d8: "as_u8 d = d"
  proof -
    from mp_cases [OF assms(3,4)] have "month_len mp \<le> 31" by (auto simp: month_len_def)
    with assms show ?thesis by simp
  qed
  have m8: "as_u8 (if mp < 10 then mp + 3 else mp - 9) = (if mp < 10 then mp + 3 else mp - 9)"
    using assms by simp
  have undo: "?n - 719468 + 719468 = ?n" by simp
  show ?thesis
    unfolding civil_from_days_def Let_def undo eraS doe yo ys dd m d' d8 m8 ..
qed

lemma civil_inverse:
  assumes "valid_date year month day" "- (2 ^ 31) < year" "year < 2 ^ 31"
  shows "civil_from_days (days_from_civil year month day) = (year, month, day)"
proof -
  let ?y = "march_year year month"
  have my: "?y = (if month \<le> 2 then year - 1 else year)"
    using assms(2,3) by (simp add: march_year_def)
  have v: "1 \<le> month" "month \<le> 12" "1 \<le> day" "day \<le> days_in_month year month"
    using assms(1) by (auto simp: valid_date_def)
  have mp: "0 \<le> mp_of month" "mp_of month \<le> 11" using v by (auto simp: mp_of_def)
  have len: "day \<le> month_len (mp_of month)"
    using v(4) by (auto simp: month_len_days [OF v(1,2)] mp_of_def month_len_def split: if_splits)
  have leap: "(?y mod 400 + 1) mod 4 = 0 \<and> (?y mod 400 + 1) mod 100 \<noteq> 0 \<or> ?y mod 400 = 399"
    if "(153 * mp_of month + 2) div 5 + day - 1 = 365"
  proof -
    have "mp_of month \<in> set [0..11]" "day \<in> set [1..month_len (mp_of month)]"
      using mp v len by auto
    then have "mp_of month = 11" "day = 29" using doy_bound that by auto
    then have "month = 2" "is_leap year"
      using v by (auto simp: mp_of_def month_len_days [OF v(1,2)] split: if_splits)
    then have "?y + 1 = year" using my by simp
    then have "(?y mod 400 + 1) mod 4 = year mod 4" "(?y mod 400 + 1) mod 100 = year mod 100"
      "(?y mod 400 + 1) mod 400 = year mod 400"
      by (simp_all add: mod_plus_cancel)
    moreover have "?y mod 400 = 399" if "(?y mod 400 + 1) mod 400 = 0"
    proof (rule ccontr)
      assume "?y mod 400 \<noteq> 399"
      then have "0 \<le> ?y mod 400" "?y mod 400 + 1 < 400"
        using pos_mod_bound [of 400 ?y] by auto
      with that show False by simp
    qed
    ultimately show ?thesis using \<open>is_leap year\<close> unfolding is_leap_mod by metis
  qed
  have yb: "0 \<le> ?y mod 400" "?y mod 400 \<le> 399"
    using pos_mod_bound [of 400 ?y] by simp_all
  have leap': "(153 * mp_of month + 2) div 5 + day - 1 = 365 \<longrightarrow>
      (?y mod 400 + 1) mod 4 = 0 \<and> (?y mod 400 + 1) mod 100 \<noteq> 0 \<or> ?y mod 400 = 399"
    using leap by blast
  have yy: "?y mod 400 + ?y div 400 * 400 = ?y" by simp
  have mm: "(if mp_of month < 10 then mp_of month + 3 else mp_of month - 9) = month"
    using v by (auto simp: mp_of_def)
  have yr: "(if month \<le> 2 then ?y + 1 else ?y) = year" by (simp add: my)
  have dn: "days_from_civil year month day = ?y div 400 * 146097 + year_start (?y mod 400)
      + ((153 * mp_of month + 2) div 5 + day - 1) - 719468"
    by (simp add: days_from_civil_eq [OF v(1,2)])
  show ?thesis
    unfolding dn civil_from_days_split [OF yb mp v(3) len refl leap'] Let_def yy mm yr
    using assms(2,3) by simp
qed

lemma days_from_civil_add:
  "1 \<le> month \<Longrightarrow> month \<le> 12 \<Longrightarrow>
     days_from_civil year month (1 + k) = days_from_civil year month 1 + k"
  by (simp add: days_from_civil_eq)

text \<open>In the least year the wrap shows: its first of January comes out after its first of March.\<close>

lemma least_year_wraps: "days_from_civil (- 2147483648) 3 1 < days_from_civil (- 2147483648) 1 1"
  by code_simp

text \<open>C35: \<open>civil_from_days\<close> is the inverse of \<open>days_from_civil\<close> on every valid date of the
  proleptic Gregorian calendar whose year fits an \<open>i32\<close>.\<close>

theorem civil_roundtrip:
  assumes "valid_date year month day" "- (2 ^ 31) < year" "year < 2 ^ 31"
  shows "civil_from_days (days_from_civil year month day) = (year, month, day)"
  using assms by (rule civil_inverse)

theorem civil_roundtrip_witness:
  "days_from_civil 2024 2 29 = 19782 \<and> civil_from_days 19782 = (2024, 2, 29)"
proof -
  have "days_from_civil 2024 2 29 = 19782" "valid_date 2024 2 29" by code_simp+
  with civil_roundtrip [of 2024 2 29] show ?thesis by simp
qed

section \<open>Transitions\<close>

lemma last_in_month_spec:
  assumes "7 \<le> len" "0 \<le> day"
  shows "last_in_month day len mod 7 = day mod 7
    \<and> 0 \<le> last_in_month day len \<and> last_in_month day len < len
    \<and> (day < len \<longrightarrow> last_in_month day len = day)
    \<and> (len \<le> day \<longrightarrow> len \<le> last_in_month day len + 7)"
  using assms
proof (induction day len rule: last_in_month.induct)
  case (1 day len)
  show ?case
  proof (cases "len \<le> day")
    case True
    then have IH: "last_in_month (day - 7) len mod 7 = (day - 7) mod 7"
      "0 \<le> last_in_month (day - 7) len" "last_in_month (day - 7) len < len"
      "day - 7 < len \<longrightarrow> last_in_month (day - 7) len = day - 7"
      "len \<le> day - 7 \<longrightarrow> len \<le> last_in_month (day - 7) len + 7"
      using 1 by auto
    have "(day - 7) mod 7 = day mod 7" by simp
    with IH True show ?thesis by (auto simp: last_in_month.simps [of day])
  qed (use 1 in \<open>simp add: last_in_month.simps [of day]\<close>)
qed

definition transition_wf :: "transition \<Rightarrow> bool" where
  "transition_wf t \<longleftrightarrow>
     1 \<le> tr_month t \<and> tr_month t \<le> 12 \<and> 1 \<le> tr_week t \<and> tr_week t \<le> 5 \<and>
     0 \<le> tr_weekday t \<and> tr_weekday t \<le> 6 \<and> 0 \<le> tr_seconds t \<and> tr_seconds t < 86400"

lemma to_first_match:
  fixes w first :: int
  assumes "0 \<le> w" "w \<le> 6"
  shows "(w + 7 - as_u8 ((first + 4) mod 7)) smod 7 = (w - first - 4) mod 7"
proof -
  have b: "0 \<le> (first + 4) mod 7" "(first + 4) mod 7 < 7" by simp_all
  then have "as_u8 ((first + 4) mod 7) = (first + 4) mod 7" by simp
  moreover have "(w + 7 - (first + 4) mod 7) mod 7 = (w - first - 4) mod 7"
    by (metis (no_types, opaque_lifting) add.commute diff_add_eq_diff_diff_swap mod_add_self2 mod_diff_left_eq mod_diff_right_eq diff_diff_eq add_diff_eq)
  ultimately show ?thesis using b assms by simp
qed

lemma transition_day:
  assumes "transition_wf rule"
  shows "\<exists>day. valid_date year (tr_month rule) day
    \<and> transition_instant rule year offset_before
        = days_from_civil year (tr_month rule) day * 86400 + tr_seconds rule - offset_before
    \<and> (days_from_civil year (tr_month rule) day + 4) mod 7 = tr_weekday rule
    \<and> (if tr_week rule < 5 then (day - 1) div 7 = tr_week rule - 1
       else days_in_month year (tr_month rule) < day + 7)"
proof -
  let ?first = "days_from_civil year (tr_month rule) 1"
  let ?len = "days_in_month year (tr_month rule)"
  define k where "k = (tr_weekday rule - ?first - 4) mod 7"
  define d where "d = last_in_month (k + (tr_week rule - 1) * 7) ?len"
  have wf: "1 \<le> tr_month rule" "tr_month rule \<le> 12" "1 \<le> tr_week rule" "tr_week rule \<le> 5"
    "0 \<le> tr_weekday rule" "tr_weekday rule \<le> 6"
    using assms by (auto simp: transition_wf_def)
  have k: "0 \<le> k" "k < 7" by (simp_all add: k_def)
  have len: "28 \<le> ?len" using wf by (simp add: days_in_month_ge)
  have spec: "d mod 7 = (k + (tr_week rule - 1) * 7) mod 7" "0 \<le> d" "d < ?len"
    "k + (tr_week rule - 1) * 7 < ?len \<Longrightarrow> d = k + (tr_week rule - 1) * 7"
    "?len \<le> k + (tr_week rule - 1) * 7 \<Longrightarrow> ?len \<le> d + 7"
    using last_in_month_spec [of ?len "k + (tr_week rule - 1) * 7"] len k wf
    by (auto simp: d_def)
  have "transition_instant rule year offset_before
      = (?first + d) * 86400 + tr_seconds rule - offset_before"
    unfolding transition_instant_def Let_def to_first_match [OF wf(5,6)] k_def [symmetric]
      d_def [symmetric] ..
  moreover have "days_from_civil year (tr_month rule) (1 + d) = ?first + d"
    using wf(1,2) by (rule days_from_civil_add)
  moreover have "(?first + d + 4) mod 7 = tr_weekday rule"
  proof -
    have "d mod 7 = k mod 7" unfolding spec(1) by (rule mod_mult_self1)
    then have "d mod 7 = k" using k by simp
    then have "(?first + d + 4) mod 7 = (?first + 4 + k) mod 7"
      by (metis add.assoc add.commute mod_add_right_eq)
    also have "\<dots> = (?first + 4 + (tr_weekday rule - ?first - 4)) mod 7"
      unfolding k_def by (rule mod_add_right_eq)
    also have "\<dots> = tr_weekday rule" using wf by simp
    finally show ?thesis .
  qed
  moreover have "if tr_week rule < 5 then d div 7 = tr_week rule - 1 else ?len < 1 + d + 7"
  proof (cases "tr_week rule < 5")
    case True
    then have "d = k + (tr_week rule - 1) * 7" using spec(4) k len by simp
    with True k show ?thesis by simp
  next
    case False
    show ?thesis
    proof (cases "?len \<le> k + (tr_week rule - 1) * 7")
      case True
      with False spec show ?thesis by simp
    next
      case fits: False
      have "?len \<le> 31" using month_cases [OF wf(1,2)] by (auto simp: days_in_month_def)
      with False fits spec(4) k wf show ?thesis by auto
    qed
  qed
  moreover have "valid_date year (tr_month rule) (1 + d)"
    using spec wf by (simp add: valid_date_def)
  ultimately show ?thesis by (intro exI [of _ "1 + d"]) (auto simp: add.assoc)
qed

text \<open>C34: A DST rule \<open>Mm.w.d/time\<close> is placed on the right day, in every year an \<open>i32\<close> holds but
  the least: on the clock of the offset in force before it, its instant is \<open>time\<close> past
  midnight of a date which the civil calendar puts in that year and month \<open>m\<close>, which falls on
  weekday \<open>d\<close>, and which is the \<open>w\<close>-th such day of the month, the last one when \<open>w\<close> is 5. In
  the least year the subtraction of \<open>days_from_civil\<close> wraps for January and February.\<close>

theorem transition_instant_nth_weekday:
  assumes "transition_wf rule" "- (2 ^ 31) < year" "year < 2 ^ 31"
  shows "\<exists>day. let clock = transition_instant rule year offset_before + offset_before
     in civil_from_days (clock div 86400) = (year, tr_month rule, day)
      \<and> clock mod 86400 = tr_seconds rule
      \<and> valid_date year (tr_month rule) day
      \<and> clock div 86400 = days_from_civil year (tr_month rule) day
      \<and> (clock div 86400 + 4) mod 7 = tr_weekday rule
      \<and> (if tr_week rule < 5 then (day - 1) div 7 = tr_week rule - 1
         else days_in_month year (tr_month rule) < day + 7)"
proof -
  obtain day where day: "valid_date year (tr_month rule) day"
    "transition_instant rule year offset_before
       = days_from_civil year (tr_month rule) day * 86400 + tr_seconds rule - offset_before"
    "(days_from_civil year (tr_month rule) day + 4) mod 7 = tr_weekday rule"
    "if tr_week rule < 5 then (day - 1) div 7 = tr_week rule - 1
     else days_in_month year (tr_month rule) < day + 7"
    using transition_day [OF assms(1)] by blast
  let ?n = "days_from_civil year (tr_month rule) day"
  have s: "0 \<le> tr_seconds rule" "tr_seconds rule < 86400"
    using assms(1) by (auto simp: transition_wf_def)
  have "transition_instant rule year offset_before + offset_before
      = ?n * 86400 + tr_seconds rule" using day(2) by simp
  moreover have "(?n * 86400 + tr_seconds rule) div 86400 = ?n"
    "(?n * 86400 + tr_seconds rule) mod 86400 = tr_seconds rule" using s by simp_all
  moreover have "civil_from_days ?n = (year, tr_month rule, day)"
    using day(1) assms(2,3) by (rule civil_inverse)
  ultimately show ?thesis unfolding Let_def using day(1,3,4) by (intro exI [of _ day]) simp
qed

theorem transition_instant_nth_weekday_witness:
  "\<exists>day. let clock = transition_instant
       \<lparr> tr_month = 3, tr_week = 5, tr_weekday = 0, tr_seconds = 10800 \<rparr> 2024 7200 + 7200
     in civil_from_days (clock div 86400) = (2024, 3, day) \<and> clock mod 86400 = 10800
      \<and> (clock div 86400 + 4) mod 7 = 0 \<and> days_in_month 2024 3 < day + 7"
proof -
  have "transition_wf \<lparr> tr_month = 3, tr_week = 5, tr_weekday = 0, tr_seconds = 10800 \<rparr>"
    by code_simp
  from transition_instant_nth_weekday [OF this, of 2024 7200] show ?thesis
    by (auto simp: Let_def)
qed

section \<open>What parsing guarantees\<close>

definition posix_tz_wf :: "posix_tz \<Rightarrow> bool" where
  "posix_tz_wf tz \<longleftrightarrow>
     \<bar>tz_std_offset tz\<bar> \<le> 89999 \<and>
     (case tz_dst tz of None \<Rightarrow> True
      | Some d \<Rightarrow> \<bar>dst_offset d\<bar> \<le> 93599 \<and> transition_wf (dst_start d) \<and> transition_wf (dst_end d))"

lemma read_parts_length:
  "read_parts n rest = Ok (ps, r) \<Longrightarrow> length ps = n \<and> list_all (\<lambda>p. 0 \<le> p) ps"
proof (induction n rest arbitrary: ps r rule: read_parts.induct)
  case (2 n rest)
  then show ?case
    by (fastforce simp: Let_def and_then_Ok list_all_iff split: if_splits option.splits
        dest: parse_unsigned_bound)
qed simp

lemma read_offset_bound:
  assumes "read_offset spec = Ok (off, r)"
  shows "\<bar>off\<bar> \<le> 89999"
proof -
  obtain b rest where "read_sign spec = (b, rest)" by (cases "read_sign spec") auto
  with assms obtain ps where ps: "read_parts 3 rest = Ok (ps, r)"
    "ps ! 0 \<le> 24" "ps ! 1 \<le> 59" "ps ! 2 \<le> 59"
    "off = (if b then ps ! 0 * 3600 + ps ! 1 * 60 + ps ! 2
            else - (ps ! 0 * 3600 + ps ! 1 * 60 + ps ! 2))"
    unfolding read_offset_def by (cases "read_parts 3 rest") (auto simp: Let_def split: if_splits)
  then have "0 \<le> ps ! 0" "0 \<le> ps ! 1" "0 \<le> ps ! 2"
    using read_parts_length [OF ps(1)] by (auto simp: list_all_length)
  with ps show ?thesis by auto
qed

lemma parse_transition_wf:
  assumes "parse_transition spec = Ok t"
  shows "transition_wf t"
  using assms
  by (auto simp: parse_transition_def and_then_Ok Let_def transition_wf_def transition_field_def
      bind_eq_Some_conv split: if_splits option.splits prod.splits dest: parse_unsigned_bound)

lemma tz_parse_dst_wf:
  assumes "tz_parse_dst std rest = Ok tz" "\<bar>std\<bar> \<le> 89999"
  shows "posix_tz_wf tz"
proof -
  have dst: "\<bar>off\<bar> \<le> 93599"
    if "(if prefix '','' rest then Ok (std + 3600, rest) else read_offset rest) = Ok (off, r)"
    for rest off r
    using that assms(2) read_offset_bound [of rest off r] by (auto split: if_splits)
  obtain rest1 off rest2 where
    off: "(if prefix '','' rest1 then Ok (std + 3600, rest1) else read_offset rest1) = Ok (off, rest2)"
    and tail: "(case strip_prefix '','' rest2 of
         None \<Rightarrow> Err (MissingRules rest2)
       | Some rules \<Rightarrow>
           (case split_once (CHR '','') rules of
              None \<Rightarrow> Err MissingSecondRule
            | Some (start, end) \<Rightarrow>
                and_then (parse_transition start) (\<lambda>start.
                and_then (parse_transition end) (\<lambda>end.
                  Ok \<lparr> tz_std_offset = std,
                       tz_dst = Some \<lparr> dst_offset = off, dst_start = start,
                                       dst_end = end \<rparr> \<rparr>)))) = Ok tz"
    using assms(1) unfolding tz_parse_dst_def and_then_Ok by auto
  obtain rules where "strip_prefix '','' rest2 = Some rules"
    using tail by (cases "strip_prefix '','' rest2") auto
  moreover obtain s1 s2 where "split_once (CHR '','') rules = Some (s1, s2)"
    using tail calculation by (cases "split_once (CHR '','') rules") auto
  ultimately obtain t1 t2 where "parse_transition s1 = Ok t1" "parse_transition s2 = Ok t2"
    "tz = \<lparr> tz_std_offset = std,
            tz_dst = Some \<lparr> dst_offset = off, dst_start = t1, dst_end = t2 \<rparr> \<rparr>"
    using tail by (auto simp: and_then_Ok)
  moreover have "\<bar>off\<bar> \<le> 93599" using dst [OF off] .
  ultimately show ?thesis
    using assms(2) by (simp add: posix_tz_wf_def parse_transition_wf)
qed

text \<open>C37: A timezone that parses is in range: offsets of at most a day and an hour, and DST
  rules naming a real month, week, weekday and time of day. These are the ranges the transition
  arithmetic and its table lookups need.\<close>

theorem tz_parse_in_range:
  assumes "tz_parse spec = Ok tz"
  shows "posix_tz_wf tz"
proof -
  let ?tail = "\<lambda>(off, rest2). if rest2 = [] then Ok \<lparr> tz_std_offset = off, tz_dst = None \<rparr>
       else tz_parse_dst off rest2"
  have "and_then (read_name (trim spec)) (\<lambda>rest.
      and_then (if rest = [] then Ok (0, rest) else read_offset rest) ?tail) = Ok tz"
    using assms by (cases "trim spec = []") (auto simp: tz_parse_def Let_def)
  from and_then_Ok [THEN iffD1, OF this] obtain rest where
    "and_then (if rest = [] then Ok (0, rest) else read_offset rest) ?tail = Ok tz" by blast
  from and_then_Ok [THEN iffD1, OF this] obtain off rest2 where
    off: "(if rest = [] then Ok (0, rest) else read_offset rest) = Ok (off, rest2)"
    and tz: "?tail (off, rest2) = Ok tz" by auto
  from off have "\<bar>off\<bar> \<le> 89999" by (auto split: if_splits dest: read_offset_bound)
  with tz tz_parse_dst_wf [of off rest2 tz] show ?thesis
    by (cases "rest2 = []") (auto simp: posix_tz_wf_def)
qed

theorem tz_parse_in_range_witness:
  "\<exists>tz. tz_parse ''EET-2EEST,M3.5.0/3,M10.5.0/4'' = Ok tz \<and> posix_tz_wf tz \<and> tz_std_offset tz = 7200"
proof -
  have "tz_parse ''EET-2EEST,M3.5.0/3,M10.5.0/4'' = Ok \<lparr> tz_std_offset = 7200,
     tz_dst = Some \<lparr> dst_offset = 10800,
       dst_start = \<lparr> tr_month = 3, tr_week = 5, tr_weekday = 0, tr_seconds = 10800 \<rparr>,
       dst_end = \<lparr> tr_month = 10, tr_week = 5, tr_weekday = 0, tr_seconds = 14400 \<rparr> \<rparr> \<rparr>"
    by code_simp
  with tz_parse_in_range [OF this] show ?thesis by simp
qed

lemma as_i64_cancel: "as_i64 (a - as_i64 b) = as_i64 (a - b)"
proof -
  have "take_bit (Suc 63) (as_i64 b) = take_bit (Suc 63) b"
    unfolding as_i64_def by (rule take_bit_signed_take_bit) simp
  then have "take_bit (Suc 63) (a - as_i64 b) = take_bit (Suc 63) (a - b)"
    by (metis take_bit_diff)
  then show ?thesis unfolding as_i64_def by (simp only: signed_take_bit_eq_iff_take_bit_eq)
qed

text \<open>C36: Local time is well-formed in every zone and at every instant, those whose sum with the
  offset wraps an \<open>i64\<close> included: the weekday is 0 to 6, the minute of the day 0 to 1439, and
  together they are the minute of the week, counted from Sunday, of the wrapped sum. At every
  instant where the sum fits an \<open>i64\<close> that is the local clock itself.\<close>

theorem tz_local_bounds:
  "let l = tz_local tz t; clock = as_i64 (t + offset_at tz t)
   in 0 \<le> lt_weekday l \<and> lt_weekday l < 7 \<and> 0 \<le> lt_minute_of_day l \<and> lt_minute_of_day l < 1440
     \<and> (clock div 60 + 4 * 1440) mod (7 * 1440) = 1440 * lt_weekday l + lt_minute_of_day l
     \<and> (- (2 ^ 63) \<le> t + offset_at tz t \<and> t + offset_at tz t < 2 ^ 63 \<longrightarrow> clock = t + offset_at tz t)"
proof -
  define local where "local = as_i64 (t + offset_at tz t)"
  define d s where "d = local div 86400" and "s = local mod 86400"
  have split: "local = 86400 * d + s" "0 \<le> s" "s < 86400" by (simp_all add: d_def s_def)
  have m: "0 \<le> s div 60" "s div 60 < 1440" using split by auto
  have l: "tz_local tz t = \<lparr> lt_weekday = (d + 4) mod 7, lt_minute_of_day = s div 60 \<rparr>"
  proof -
    have "as_i64 (local - as_i64 (d * 86400)) = s" using split by (simp add: as_i64_cancel)
    moreover have "take_bit 16 (s div 60) = s div 60" using m by (simp add: take_bit_int_eq_self)
    ultimately show ?thesis
      using split unfolding tz_local_def Let_def local_def [symmetric]
      by (simp add: div_floor_div d_def [symmetric])
  qed
  have "local div 60 = 1440 * d + s div 60" using split(1) by simp
  then have e: "local div 60 + 4 * 1440 = 1440 * (d + 4) + s div 60" by simp
  define q r where "q = (d + 4) div 7" and "r = (d + 4) mod 7"
  have "d + 4 = 7 * q + r" "0 \<le> r" "r < 7" by (simp_all add: q_def r_def)
  then have "1440 * (d + 4) + s div 60 = 10080 * q + (1440 * r + s div 60)"
    "0 \<le> 1440 * r + s div 60" "1440 * r + s div 60 < 10080" using m by auto
  then have "(1440 * (d + 4) + s div 60) mod 10080 = 1440 * r + s div 60"
    by (intro int_mod_pos_eq [of _ 10080 q]) auto
  then show ?thesis
    unfolding Let_def local_def [symmetric] l e using m by (simp add: r_def local_def)
qed

theorem tz_local_bounds_witness:
  "tz_local \<lparr> tz_std_offset = 7200, tz_dst = None \<rparr> 79200 = \<lparr> lt_weekday = 5, lt_minute_of_day = 0 \<rparr>
   \<and> as_i64 (79200 + offset_at \<lparr> tz_std_offset = 7200, tz_dst = None \<rparr> 79200) = 86400"
proof
  have o: "offset_at \<lparr> tz_std_offset = 7200, tz_dst = None \<rparr> 79200 = 7200" by code_simp
  show "tz_local \<lparr> tz_std_offset = 7200, tz_dst = None \<rparr> 79200
      = \<lparr> lt_weekday = 5, lt_minute_of_day = 0 \<rparr>" by code_simp
  from tz_local_bounds [of "\<lparr> tz_std_offset = 7200, tz_dst = None \<rparr>" 79200]
  show "as_i64 (79200 + offset_at \<lparr> tz_std_offset = 7200, tz_dst = None \<rparr> 79200) = 86400"
    unfolding Let_def o by simp
qed

section \<open>Panics\<close>

abbreviation ascii :: "string \<Rightarrow> bool" where
  "ascii \<equiv> list_all is_ascii"

lemma ascii_drop [panic_simps]: "ascii s \<Longrightarrow> ascii (drop n s)"
  by (auto simp: list_all_iff dest: in_set_dropD)

lemma ascii_strip [panic_simps]: "strip_prefix p s = Some t \<Longrightarrow> ascii s \<Longrightarrow> ascii t"
  by (auto simp: strip_prefix_Some)

lemma ascii_split_once [panic_simps]:
  "split_once c s = Some (a, b) \<Longrightarrow> ascii s \<Longrightarrow> ascii a \<and> ascii b"
  by (auto simp: split_once_def list_all_iff dest: in_set_takeD in_set_dropD)

lemma read_name_ascii:
  assumes "ascii s"
  shows "read_name s \<noteq> Panic \<and> (\<forall>r. read_name s = Ok r \<longrightarrow> ascii r)"
  using assms
  by (auto simp: read_name_def Let_def str_prefix_ascii ascii_drop split: option.splits
      dest!: ascii_strip)

lemma read_parts_ascii:
  assumes "ascii s"
  shows "read_parts n s \<noteq> Panic \<and> (\<forall>ps r. read_parts n s = Ok (ps, r) \<longrightarrow> ascii r)"
  using assms
proof (induction n s rule: read_parts.induct)
  case (2 n rest)
  let ?k = "length (takeWhile is_ascii_digit rest)"
  have after: "ascii after" if "strip_prefix '':'' (drop ?k rest) = Some after" for after
    using that 2(2) by (metis ascii_drop ascii_strip)
  have IH: "read_parts n after \<noteq> Panic \<and> (\<forall>ps r. read_parts n after = Ok (ps, r) \<longrightarrow> ascii r)"
    if "?k \<noteq> 0" "parse_unsigned (2 ^ 31 - 1) (take ?k rest) = Some part"
      "strip_prefix '':'' (drop ?k rest) = Some after" "0 < n" for part after
    using 2(1) [OF refl that(1,2) refl that(3,4)] after that by blast
  show ?case
    using 2(2) IH
    by (auto simp: Let_def str_prefix_ascii ascii_drop and_then_Ok and_then_Panic
        split: option.splits if_splits)
qed simp

lemma read_sign_ascii: "read_sign s = (b, r) \<Longrightarrow> ascii s \<Longrightarrow> ascii r"
  by (auto simp: read_sign_def split: list.splits if_splits)

lemma read_offset_ascii:
  assumes "ascii s"
  shows "read_offset s \<noteq> Panic \<and> (\<forall>v r. read_offset s = Ok (v, r) \<longrightarrow> ascii r)"
proof -
  obtain b rest where sg: "read_sign s = (b, rest)" by (cases "read_sign s") auto
  then have "ascii rest" using assms by (rule read_sign_ascii)
  from read_parts_ascii [OF this, of 3] show ?thesis
    unfolding read_offset_def sg
    by (cases "read_parts 3 rest") (auto simp: Let_def split: if_splits)
qed

lemma parse_transition_ascii: "ascii s \<Longrightarrow> parse_transition s \<noteq> Panic"
  using read_offset_ascii
  by (auto simp: parse_transition_def Let_def and_then_Panic transition_field_def
      split: option.splits if_splits prod.splits dest: ascii_split_once)

lemma tz_parse_dst_ascii: "ascii rest \<Longrightarrow> tz_parse_dst std rest \<noteq> Panic"
proof -
  assume rest: "ascii rest"
  have off: "(if prefix '','' r then Ok (std + 3600, r) else read_offset r) \<noteq> Panic"
    "(if prefix '','' r then Ok (std + 3600, r) else read_offset r) = Ok (v, r') \<Longrightarrow> ascii r'"
    if "ascii r" for r v r'
    using read_offset_ascii [OF that] that by (auto split: if_splits)
  show ?thesis
    unfolding tz_parse_dst_def
  proof (intro and_then_safe, goal_cases)
    case 1
    from read_name_ascii [OF rest] show ?case by simp
  next
    case (2 r)
    with read_name_ascii [OF rest] show ?case using off(1) by blast
  next
    case (3 r vr)
    with read_name_ascii [OF rest] have "ascii r" by blast
    obtain v r' where vr: "vr = (v, r')" by (cases vr)
    from off(2) [OF \<open>ascii r\<close> 3(2) [unfolded vr]] have r': "ascii r'" .
    show ?case
    proof (cases "strip_prefix '','' r'")
      case (Some rules)
      then have rules: "ascii rules" using r' by (rule ascii_strip)
      have "and_then (parse_transition s1) (\<lambda>t1. and_then (parse_transition s2) (\<lambda>t2. Ok (f t1 t2)))
          \<noteq> Panic" if "split_once (CHR '','') rules = Some (s1, s2)" for s1 s2
        and f :: "transition \<Rightarrow> transition \<Rightarrow> posix_tz"
        using ascii_split_once [OF that rules]
        by (intro and_then_safe parse_transition_ascii) auto
      with Some show ?thesis by (simp add: vr split: option.splits prod.splits)
    qed (simp add: vr)
  qed
qed

text \<open>C38: \<open>PosixTz::parse\<close> returns a zone or an error, and does not panic, on every ASCII
  string.\<close>

theorem tz_parse_ascii_total:
  assumes "list_all is_ascii spec"
  shows "tz_parse spec \<noteq> Panic"
proof -
  have a: "ascii (trim spec)"
    using assms set_trim [of spec] by (auto simp: list_all_iff)
  have "and_then (read_name (trim spec)) (\<lambda>rest.
      and_then (if rest = [] then Ok (0, rest) else read_offset rest) (\<lambda>(std_offset, rest).
        if rest = [] then Ok \<lparr> tz_std_offset = std_offset, tz_dst = None \<rparr>
        else tz_parse_dst std_offset rest)) \<noteq> Panic"
  proof (intro and_then_safe, goal_cases)
    case 1
    from read_name_ascii [OF a] show ?case by simp
  next
    case (2 r)
    with read_name_ascii [OF a] read_offset_ascii [of r] show ?case by auto
  next
    case (3 r vr)
    with read_name_ascii [OF a] have "ascii r" by blast
    obtain v r' where vr: "vr = (v, r')" by (cases vr)
    have "ascii r'"
      using read_offset_ascii [OF \<open>ascii r\<close>] \<open>ascii r\<close> 3(2) [unfolded vr]
      by (cases "r = []") auto
    then show ?case using tz_parse_dst_ascii by (simp add: vr)
  qed
  then show ?thesis by (simp add: tz_parse_def Let_def)
qed

theorem tz_parse_ascii_total_witness:
  "tz_parse ''+05:30'' \<noteq> Panic \<and> tz_parse ''+05:30'' = Err (ShortName ''+05:30'')"
proof
  have "list_all is_ascii ''+05:30''" by code_simp
  from tz_parse_ascii_total [OF this] show "tz_parse ''+05:30'' \<noteq> Panic" .
  show "tz_parse ''+05:30'' = Err (ShortName ''+05:30'')" by code_simp
qed

definition cut_inside :: "string \<Rightarrow> bool" where
  "cut_inside s \<longleftrightarrow> 8 < length s \<and> \<not> is_char_boundary s 8"

lemma quote_cut:
  "str_prefix s (min (length s) 8) = (if cut_inside s then None else Some (take 8 s))"
  by (auto simp: cut_inside_def str_prefix_def is_char_boundary_def min_def)

lemma read_name_short:
  assumes "\<not> prefix ''<'' s" "length (takeWhile is_ascii_alphabetic s) < 3"
  shows "read_name s = (if cut_inside s then Panic else Err (ShortName (take 8 s)))"
  using assms by (simp add: read_name_def strip_prefix_def quote_cut)

lemma read_offset_missing:
  assumes "read_sign s = (negated, digits)" "takeWhile is_ascii_digit digits = []"
  shows "read_offset s = (if cut_inside digits then Panic else Err (NoOffset (take 8 digits)))"
  using assms by (simp add: read_offset_def numeral_3_eq_3 quote_cut)



end
