(* ===== verification/Policy.thy ===== *)
theory Policy
  imports Tz
begin

text \<open>
  Policies: the configuration strings of \<open>fah-config/src/schema/policy.rs\<close> and the compiled
  policy set of \<open>fah-rules/src/policy.rs\<close> (who is judged under which policy, which rules a
  policy sees, and the \<open>$client\<close> scopes of single rules).
\<close>

section \<open>Configuration strings\<close>

datatype policy_error =
    BadTimezone tz_error | TooManyPolicies nat
  | BadClient | BadDays | BadTime | HalfSchedule

definition DAY_NAMES :: "string list" where
  "DAY_NAMES = [''sun'', ''mon'', ''tue'', ''wed'', ''thu'', ''fri'', ''sat'']"

definition parse_day :: "string \<Rightarrow> u8 option" where
  "parse_day name =
     (let name = lower (trim name)
      in map_option of_nat (position (\<lambda>short. prefix short name \<and> length name \<le> 9) DAY_NAMES))"

definition day_range :: "u8 \<Rightarrow> u8 \<Rightarrow> u8" where
  "day_range from to =
     (let span = (to + 7 - from) mod 7
      in foldl (\<lambda>mask step. mask OR push_bit (unat ((from + of_nat step) mod 7)) 1) 0
           [0..<unat span + 1])"

text \<open>\<open>None\<close> is \<open>Err\<close>.\<close>

fun parse_day_parts :: "u8 \<Rightarrow> string list \<Rightarrow> u8 option" where
  "parse_day_parts acc [] = Some acc"
| "parse_day_parts acc (part # parts) =
     (let part = trim part
      in if part = [] then None
         else case split_once (CHR ''-'') part of
           Some (from, to) \<Rightarrow> do {
             from \<leftarrow> parse_day from;
             to \<leftarrow> parse_day to;
             parse_day_parts (acc OR day_range from to) parts
           }
         | None \<Rightarrow> do {
             d \<leftarrow> parse_day part;
             parse_day_parts (acc OR push_bit (unat d) 1) parts
           })"

definition parse_days :: "string \<Rightarrow> u8 option" where
  "parse_days spec =
     (let spec = trim spec
      in if eq_ignore_ascii_case spec ''daily'' \<or> eq_ignore_ascii_case spec ''all''
         then Some ALL_DAYS
         else parse_day_parts 0 (split_on (\<lambda>c. c = CHR '','') spec))"

definition parse_time_of_day :: "string \<Rightarrow> u16 option" where
  "parse_time_of_day spec =
     (case split_once (CHR '':'') (trim spec) of
        None \<Rightarrow> None
      | Some (hours, minutes) \<Rightarrow> do {
          hours \<leftarrow> parse_unsigned 65535 (trim hours);
          minutes \<leftarrow> parse_unsigned 65535 (trim minutes);
          if 59 < minutes \<or> 24 < hours \<or> (hours = 24 \<and> 0 < minutes) then None
          else Some (of_int ((hours * 60 + minutes) mod 1440))
        })"

section \<open>Selectors and client scopes\<close>

definition parse_selector :: "string \<Rightarrow> client_selector option" where
  "parse_selector spec =
     (let spec = trim spec
      in if spec = [] then None
         else case split_once (CHR ''/'') spec of
           Some (address, pre) \<Rightarrow> do {
             address \<leftarrow> parse_ip_addr address;
             prefix_len \<leftarrow> parse_unsigned 255 pre;
             (let max = (case address of V4 _ \<Rightarrow> 32 | V6 _ \<Rightarrow> 128)
              in if max < prefix_len then None
                 else Some (SelNetwork address (of_int prefix_len)))
           }
         | None \<Rightarrow>
             (case parse_ip_addr spec of
                Some address \<Rightarrow> Some (SelIp address) | None \<Rightarrow> Some (SelName spec)))"

record scope_term =
  st_negated :: bool
  st_selector :: client_selector

record client_scope =
  cs_raw :: string
  cs_terms :: "scope_term list"
  cs_has_positive :: bool

text \<open>The loop of \<open>ClientScope::parse\<close>: \<open>None\<close> as soon as a selector does not parse.\<close>

fun scope_terms :: "string list \<Rightarrow> (scope_term list) option" where
  "scope_terms [] = Some []"
| "scope_terms (t # ts) =
     (let t = trim t
      in if t = [] then scope_terms ts
         else let (negated, spec) =
                (case strip_prefix ''~'' t of Some rest \<Rightarrow> (True, rest) | None \<Rightarrow> (False, t))
           in do {
             selector \<leftarrow> parse_selector spec;
             rest \<leftarrow> scope_terms ts;
             Some (\<lparr> st_negated = negated, st_selector = selector \<rparr> # rest)
           })"

definition client_scope_parse :: "string \<Rightarrow> client_scope option" where
  "client_scope_parse raw = do {
     terms \<leftarrow> scope_terms (split_on (\<lambda>c. c = CHR ''|'') raw);
     if terms = [] then None
     else Some \<lparr> cs_raw = raw, cs_terms = terms,
                 cs_has_positive = list_ex (\<lambda>t. \<not> st_negated t) terms \<rparr>
   }"

definition is_name :: "client_selector \<Rightarrow> bool" where
  "is_name s = (case s of SelName _ \<Rightarrow> True | _ \<Rightarrow> False)"

definition names_a_client :: "client_scope \<Rightarrow> bool" where
  "names_a_client self = list_ex (\<lambda>t. is_name (st_selector t)) (cs_terms self)"

definition UNSPECIFIED :: ip_addr where
  "UNSPECIFIED = V4 0"

definition scope_matches :: "ip_addr option \<Rightarrow> string option \<Rightarrow> scope_term \<Rightarrow> bool" where
  "scope_matches ip name t \<longleftrightarrow>
     (case ip of Some ip \<Rightarrow> selector_matches (st_selector t) ip name | None \<Rightarrow> False)
   \<or> (ip = None \<and> is_name (st_selector t) \<and> selector_matches (st_selector t) UNSPECIFIED name)"

definition admits :: "client_scope \<Rightarrow> ip_addr option \<Rightarrow> string option \<Rightarrow> bool" where
  "admits self ip name =
     (if list_ex (\<lambda>t. st_negated t \<and> scope_matches ip name t) (cs_terms self) then False
      else if \<not> cs_has_positive self then True
      else list_ex (\<lambda>t. \<not> st_negated t \<and> scope_matches ip name t) (cs_terms self))"

section \<open>Compiled policies\<close>

definition ALL_POLICIES :: u16 where
  "ALL_POLICIES = 0xffff"

record assignment_config =
  ac_client :: string
  ac_days :: "string option"
  ac_start :: "string option"
  ac_end :: "string option"

record policy_config =
  pc_id :: string
  pc_name :: "string option"
  pc_lists :: "string list option"
  pc_blocking_mode :: "string option"
  pc_assignments :: "assignment_config list"

record compiled_policy =
  cp_policy :: policy
  cp_lists :: "string list option"

record compiled_assignment =
  ca_assignment :: assignment
  ca_policy :: policy_id

record policy_set =
  ps_timezone :: posix_tz
  ps_policies :: "compiled_policy list"
  ps_assignments :: "compiled_assignment list"

definition single_default :: policy_set where
  "single_default =
     \<lparr> ps_timezone = UTC,
       ps_policies =
         [\<lparr> cp_policy = \<lparr> pol_id = ''default'', pol_name = ''Default'', pol_lists = [],
                          pol_blocking_mode = None \<rparr>,
            cp_lists = None \<rparr>],
       ps_assignments = [] \<rparr>"

definition ok_or :: "'e \<Rightarrow> 'a option \<Rightarrow> ('e, 'a) outcome" where
  "ok_or e x = (case x of None \<Rightarrow> Err e | Some a \<Rightarrow> Ok a)"

definition compile_schedule :: "assignment_config \<Rightarrow> (policy_error, schedule option) outcome" where
  "compile_schedule config =
     (case (ac_start config, ac_end config) of
        (Some start, Some end) \<Rightarrow>
          and_then (case ac_days config of
                      Some days \<Rightarrow> ok_or BadDays (parse_days days) | None \<Rightarrow> Ok ALL_DAYS) (\<lambda>days.
          and_then (ok_or BadTime (parse_time_of_day start)) (\<lambda>start.
          and_then (ok_or BadTime (parse_time_of_day end)) (\<lambda>end.
            Ok (Some \<lparr> sch_days = days, sch_start = start, sch_end = end \<rparr>))))
      | (None, None) \<Rightarrow>
          (case ac_days config of
             Some days \<Rightarrow>
               and_then (ok_or BadDays (parse_days days)) (\<lambda>days.
                 Ok (Some \<lparr> sch_days = days, sch_start = 0, sch_end = 1440 \<rparr>))
           | None \<Rightarrow> Ok None)
      | _ \<Rightarrow> Err HalfSchedule)"

definition compile_assignment ::
  "string \<Rightarrow> assignment_config \<Rightarrow> (policy_error, assignment) outcome" where
  "compile_assignment pol config =
     and_then (ok_or BadClient (parse_selector (ac_client config))) (\<lambda>client.
     and_then (compile_schedule config) (\<lambda>schedule.
       Ok \<lparr> asg_client = client, asg_policy = pol, asg_schedule = schedule \<rparr>))"

fun compile_assignments ::
  "string \<Rightarrow> policy_id \<Rightarrow> assignment_config list \<Rightarrow> (policy_error, compiled_assignment list) outcome"
where
  "compile_assignments pol pid [] = Ok []"
| "compile_assignments pol pid (a # as) =
     and_then (compile_assignment pol a) (\<lambda>a.
     and_then (compile_assignments pol pid as) (\<lambda>as.
       Ok (\<lparr> ca_assignment = a, ca_policy = pid \<rparr> # as)))"

definition compile_policy :: "policy_config \<Rightarrow> compiled_policy" where
  "compile_policy config =
     \<lparr> cp_policy = \<lparr> pol_id = pc_id config,
          pol_name = (case pc_name config of Some n \<Rightarrow> n | None \<Rightarrow> pc_id config),
          pol_lists = (case pc_lists config of Some l \<Rightarrow> l | None \<Rightarrow> []),
          pol_blocking_mode = pc_blocking_mode config \<rparr>,
       cp_lists = pc_lists config \<rparr>"

text \<open>The loop over the configured policies, at index \<open>i\<close>; policy 0 is the default one.\<close>

fun compile_policies ::
  "nat \<Rightarrow> policy_config list
   \<Rightarrow> (policy_error, compiled_policy list \<times> compiled_assignment list) outcome"
where
  "compile_policies i [] = Ok ([], [])"
| "compile_policies i (config # configs) =
     and_then (compile_assignments (pc_id config) (PolicyId (of_nat (i + 1))) (pc_assignments config))
       (\<lambda>as.
     and_then (compile_policies (i + 1) configs) (\<lambda>(ps, rest).
       Ok (compile_policy config # ps, as @ rest)))"

text \<open>\<open>sort_by\<close> is stable, as \<^const>\<open>sort_key\<close> is.\<close>

definition from_config :: "string \<Rightarrow> policy_config list \<Rightarrow> (policy_error, policy_set) outcome" where
  "from_config timezone policies =
     (case tz_parse timezone of
        Panic \<Rightarrow> Panic
      | Err e \<Rightarrow> Err (BadTimezone e)
      | Ok timezone \<Rightarrow>
          if POLICY_MAX < length policies + 1 then Err (TooManyPolicies (length policies + 1))
          else and_then (compile_policies 0 policies) (\<lambda>(ps, as).
            Ok \<lparr> ps_timezone = timezone,
                 ps_policies = ps_policies single_default @ ps,
                 ps_assignments =
                   sort_key (\<lambda>a. - int (specificity (asg_client (ca_assignment a)))) as \<rparr>))"

definition is_default_only :: "policy_set \<Rightarrow> bool" where
  "is_default_only self \<longleftrightarrow> length (ps_policies self) \<le> 1"

definition id_of :: "policy_set \<Rightarrow> string \<Rightarrow> policy_id option" where
  "id_of self pid =
     map_option (\<lambda>i. PolicyId (of_nat i))
       (position (\<lambda>c. pol_id (cp_policy c) = pid) (ps_policies self))"

definition get_policy :: "policy_set \<Rightarrow> policy_id \<Rightarrow> policy option" where
  "get_policy self pid = map_option cp_policy (index_at (ps_policies self) (policy_index pid))"

definition universe :: "policy_set \<Rightarrow> u16" where
  "universe self =
     (if is_default_only self then ALL_POLICIES
      else foldl (\<lambda>acc i. acc OR policy_bit (PolicyId (of_nat i))) 0 [0..<length (ps_policies self)])"

definition policy_sees :: "compiled_policy \<Rightarrow> string \<Rightarrow> bool" where
  "policy_sees compiled list =
     (case cp_lists compiled of None \<Rightarrow> True | Some names \<Rightarrow> list_ex (\<lambda>name. name = list) names)"

definition mask_for_list :: "policy_set \<Rightarrow> string \<Rightarrow> u16" where
  "mask_for_list self list =
     (if is_default_only self then ALL_POLICIES
      else foldl (\<lambda>mask (i, compiled).
                if policy_sees compiled list then mask OR policy_bit (PolicyId (of_nat i)) else mask)
             (policy_bit DEFAULT_POLICY) (drop 1 (enumerate 0 (ps_policies self))))"

definition schedule_active :: "policy_set \<Rightarrow> int \<Rightarrow> compiled_assignment \<Rightarrow> bool" where
  "schedule_active self now a =
     (case asg_schedule (ca_assignment a) of
        None \<Rightarrow> True
      | Some schedule \<Rightarrow>
          (let local = tz_local (ps_timezone self) now
           in schedule_contains schedule (of_int (lt_weekday local)) (of_int (lt_minute_of_day local))))"

fun resolve_in ::
  "policy_set \<Rightarrow> ip_addr \<Rightarrow> string option \<Rightarrow> int \<Rightarrow> compiled_assignment list \<Rightarrow> policy_id"
where
  "resolve_in self ip name now [] = DEFAULT_POLICY"
| "resolve_in self ip name now (compiled # rest) =
     (if \<not> selector_matches (asg_client (ca_assignment compiled)) ip name
      then resolve_in self ip name now rest
      else if schedule_active self now compiled then ca_policy compiled
      else resolve_in self ip name now rest)"

definition resolve :: "policy_set \<Rightarrow> ip_addr \<Rightarrow> string option \<Rightarrow> int \<Rightarrow> policy_id" where
  "resolve self ip name now = resolve_in self ip name now (ps_assignments self)"

section \<open>The published snapshot\<close>

record active_assignment =
  aa_selector :: client_selector
  aa_policy :: policy_id

record active_policies =
  ap_assignments :: "active_assignment list"
  ap_ids :: "string option list"
  ap_names :: "ip_addr \<Rightarrow> string option"

definition expand_assignment ::
  "(ip_addr \<times> string) list \<Rightarrow> compiled_assignment \<Rightarrow> active_assignment list" where
  "expand_assignment named compiled =
     (case asg_client (ca_assignment compiled) of
        SelName wanted \<Rightarrow>
          map (\<lambda>(ip, _). \<lparr> aa_selector = SelIp ip, aa_policy = ca_policy compiled \<rparr>)
            (filter (\<lambda>(_, name). eq_ignore_ascii_case name wanted) named)
      | selector \<Rightarrow> [\<lparr> aa_selector = selector, aa_policy = ca_policy compiled \<rparr>])"

text \<open>\<open>named.iter().cloned().collect()\<close> into a \<open>HashMap\<close>: a later entry replaces an earlier
  one with the same address.\<close>

definition active_at :: "policy_set \<Rightarrow> int \<Rightarrow> (ip_addr \<times> string) list \<Rightarrow> active_policies" where
  "active_at self now named =
     \<lparr> ap_assignments =
         concat (map (expand_assignment named) (filter (schedule_active self now) (ps_assignments self))),
       ap_ids =
         map (\<lambda>(i, c). if 0 < i then Some (pol_id (cp_policy c)) else None)
           (enumerate 0 (ps_policies self)),
       ap_names = map_of (rev named) \<rparr>"

fun policy_for_in :: "active_assignment list \<Rightarrow> ip_addr \<Rightarrow> policy_id" where
  "policy_for_in [] ip = DEFAULT_POLICY"
| "policy_for_in (active # rest) ip =
     (if selector_matches (aa_selector active) ip None then aa_policy active
      else policy_for_in rest ip)"

definition policy_for :: "active_policies \<Rightarrow> ip_addr \<Rightarrow> policy_id" where
  "policy_for self ip = policy_for_in (ap_assignments self) ip"

definition name_of :: "active_policies \<Rightarrow> ip_addr \<Rightarrow> string option" where
  "name_of self ip = ap_names self ip"

definition active_id_of :: "active_policies \<Rightarrow> policy_id \<Rightarrow> string option" where
  "active_id_of self p = index_at (ap_ids self) (policy_index p) \<bind> id"

text \<open>\<open>PolicyState::publish\<close> on the published value: whether it was replaced, and the value
  after.\<close>

definition publish :: "active_policies \<Rightarrow> active_policies \<Rightarrow> bool \<times> active_policies" where
  "publish current_active next_active =
     (if current_active = next_active then (False, current_active) else (True, next_active))"

definition refresh ::
  "active_policies \<Rightarrow> int \<Rightarrow> policy_set \<Rightarrow> (ip_addr \<times> string) list \<Rightarrow> bool \<times> active_policies" where
  "refresh current_active now policies named = publish current_active (active_at policies now named)"

section \<open>Configuration strings: properties\<close>

lemma parse_time_of_day_bound:
  assumes "parse_time_of_day s = Some t"
  shows "unat t < 1440"
proof -
  obtain h m where "t = of_int ((h * 60 + m) mod 1440)"
    using assms
    by (auto simp: parse_time_of_day_def bind_eq_Some_conv split: option.splits if_splits)
  moreover have "0 \<le> (h * 60 + m) mod 1440" "(h * 60 + m) mod 1440 < 1440" by simp_all
  ultimately have "uint t = (h * 60 + m) mod 1440"
    by (simp add: uint_word_of_int_eq take_bit_int_eq_self)
  then have "uint t < 1440" by simp
  then show ?thesis unfolding unat_eq_nat_uint by linarith
qed

section \<open>Which rules a policy sees\<close>

lemma policy_bit_of_nat: "i < 16 \<Longrightarrow> bit (policy_bit (PolicyId (of_nat i))) k \<longleftrightarrow> k = i"
  by (subst bit_policy_bit) (auto simp: unat_of_nat policy_bit.simps)

lemma mask_fold_bit:
  assumes "\<And>i c. (i, c) \<in> set xs \<Longrightarrow> i < 16"
  shows "bit (foldl (\<lambda>mask (i, compiled).
      if policy_sees compiled list then mask OR policy_bit (PolicyId (of_nat i)) else mask) m xs) k
    \<longleftrightarrow> bit m k \<or> (\<exists>c. (k, c) \<in> set xs \<and> policy_sees c list)"
  using assms
proof (induction xs arbitrary: m)
  case (Cons x xs)
  obtain i c where x: "x = (i, c)" by (cases x)
  then have i: "i < 16" using Cons.prems by auto
  have "\<And>i c. (i, c) \<in> set xs \<Longrightarrow> i < 16" using Cons.prems by auto
  from Cons.IH [OF this] show ?case
    by (auto simp: x policy_bit_of_nat [OF i] bit_or_iff)
qed simp

lemma set_drop1_enumerate:
  "(i, c) \<in> set (drop (Suc 0) (enumerate 0 xs)) \<longleftrightarrow> 0 < i \<and> i < length xs \<and> c = xs ! i"
proof (cases xs)
  case (Cons y ys)
  then have "drop (Suc 0) (enumerate 0 xs) = enumerate 1 ys" by (simp add: enumerate_simps)
  then show ?thesis
    using Cons by (auto simp: in_set_enumerate_eq nth_Cons split: nat.splits)
qed simp

lemma mask_for_list_bit:
  assumes "\<not> is_default_only ps" "length (ps_policies ps) \<le> 16"
  shows "bit (mask_for_list ps list) k \<longleftrightarrow>
     k = 0 \<or> (k < length (ps_policies ps) \<and> policy_sees (ps_policies ps ! k) list)"
proof -
  have b: "i < 16" if "(i, c) \<in> set (drop (Suc 0) (enumerate 0 (ps_policies ps)))" for i c
    using that assms(2) unfolding set_drop1_enumerate by simp
  have d: "bit (policy_bit DEFAULT_POLICY) k \<longleftrightarrow> k = 0"
    unfolding DEFAULT_POLICY_def by (subst bit_policy_bit) auto
  show ?thesis
    using assms(1) mask_fold_bit [of "drop (Suc 0) (enumerate 0 (ps_policies ps))" list
        "policy_bit DEFAULT_POLICY" k, OF b]
    by (auto simp: mask_for_list_def d set_drop1_enumerate)
qed

lemma universe_bit:
  assumes "\<not> is_default_only ps" "length (ps_policies ps) \<le> 16"
  shows "bit (universe ps) k \<longleftrightarrow> k < length (ps_policies ps)"
proof -
  have "bit (foldl (\<lambda>acc i. acc OR policy_bit (PolicyId (of_nat i))) m [0..<n]) k
      \<longleftrightarrow> bit m k \<or> k < n" if "n \<le> 16" for n m
    using that by (induction n) (auto simp: bit_or_iff policy_bit_of_nat)
  with assms show ?thesis by (simp add: universe_def)
qed

text \<open>C22: The mask stamped on a list's rules says exactly who sees them: within the policies
  that exist, the default one always does, and another does when it names the list or names no
  list at all. No bit lies outside the policy universe, so a mask never admits an undefined
  policy.\<close>

theorem mask_for_list_exact:
  assumes "0 < length (ps_policies ps)" "length (ps_policies ps) \<le> POLICY_MAX"
  shows "(\<forall>i < length (ps_policies ps). bit (mask_for_list ps list) i \<longleftrightarrow>
            i = 0 \<or> policy_sees (ps_policies ps ! i) list)
    \<and> mask_for_list ps list AND universe ps = mask_for_list ps list"
proof (cases "is_default_only ps")
  case True
  then have one: "length (ps_policies ps) = 1"
    using assms(1) unfolding is_default_only_def by linarith
  have "mask_for_list ps list = ALL_POLICIES" "universe ps = ALL_POLICIES"
    using True by (simp_all add: mask_for_list_def universe_def)
  moreover have "bit ALL_POLICIES 0" by (simp add: ALL_POLICIES_def)
  ultimately show ?thesis using one by simp
next
  case False
  have len: "length (ps_policies ps) \<le> 16" using assms(2) by (simp add: POLICY_MAX_def)
  have "mask_for_list ps list AND universe ps = mask_for_list ps list"
    by (rule bit_word_eqI)
       (use False assms len in \<open>auto simp: bit_and_iff mask_for_list_bit universe_bit\<close>)
  with False len show ?thesis by (simp add: mask_for_list_bit)
qed

section \<open>Which policy judges a client\<close>

definition applies :: "policy_set \<Rightarrow> ip_addr \<Rightarrow> string option \<Rightarrow> int \<Rightarrow> compiled_assignment \<Rightarrow> bool" where
  "applies ps ip name now a \<longleftrightarrow>
     selector_matches (asg_client (ca_assignment a)) ip name \<and> schedule_active ps now a"

lemma resolve_in_find:
  "resolve_in ps ip name now as =
     (case find (applies ps ip name now) as of None \<Rightarrow> DEFAULT_POLICY | Some a \<Rightarrow> ca_policy a)"
  by (induction as) (auto simp: applies_def)

lemma from_config_sorted:
  assumes "from_config timezone policies = Ok ps"
  shows "sorted (map (\<lambda>a. - int (specificity (asg_client (ca_assignment a)))) (ps_assignments ps))"
    and "0 < length (ps_policies ps)" and "length (ps_policies ps) \<le> POLICY_MAX"
proof -
  have len: "length qs = length pcs" if "compile_policies i pcs = Ok (qs, as)" for i pcs qs as
    using that
    by (induction i pcs arbitrary: qs as rule: compile_policies.induct) (auto simp: and_then_Ok)
  obtain tz qs as where ps: "length policies + 1 \<le> POLICY_MAX" "compile_policies 0 policies = Ok (qs, as)"
    "ps = \<lparr> ps_timezone = tz, ps_policies = ps_policies single_default @ qs,
       ps_assignments = sort_key (\<lambda>a. - int (specificity (asg_client (ca_assignment a)))) as \<rparr>"
    using assms unfolding from_config_def
    by (auto simp: and_then_Ok split: outcome.splits if_splits)
  then show "sorted (map (\<lambda>a. - int (specificity (asg_client (ca_assignment a)))) (ps_assignments ps))"
    by simp
  show "0 < length (ps_policies ps)" "length (ps_policies ps) \<le> POLICY_MAX"
    using ps len by (auto simp: single_default_def)
qed

lemma find_sorted_first:
  assumes "sorted (map k xs)" "find P xs = Some a"
  shows "a \<in> set xs \<and> P a \<and> (\<forall>b\<in>set xs. P b \<longrightarrow> k a \<le> k b)"
  using assms by (induction xs) (auto split: if_splits)

text \<open>C21: A client is judged under a most specific applicable assignment of the compiled
  configuration: one whose selector names it and whose schedule is in force, with no applicable
  assignment more specific. When none applies it gets the default policy.\<close>

theorem resolve_most_specific:
  assumes "from_config timezone policies = Ok ps"
  shows "(\<exists>a\<in>set (ps_assignments ps). applies ps ip name now a
           \<and> resolve ps ip name now = ca_policy a
           \<and> (\<forall>b\<in>set (ps_assignments ps). applies ps ip name now b \<longrightarrow>
                specificity (asg_client (ca_assignment b)) \<le> specificity (asg_client (ca_assignment a))))
       \<or> (resolve ps ip name now = DEFAULT_POLICY
           \<and> (\<forall>b\<in>set (ps_assignments ps). \<not> applies ps ip name now b))"
proof (cases "find (applies ps ip name now) (ps_assignments ps)")
  case None
  then have "resolve ps ip name now = DEFAULT_POLICY"
    by (simp add: resolve_def resolve_in_find)
  with None show ?thesis by (simp add: find_None_iff)
next
  case (Some a)
  from find_sorted_first [OF from_config_sorted(1) [OF assms] this] Some show ?thesis
    by (auto simp: resolve_def resolve_in_find)
qed

lemma map_of_rev_distinct:
  assumes "distinct (map fst xs)"
  shows "map_of (rev xs) = map_of xs"
proof -
  have "distinct (map fst (rev xs))" using assms by (simp add: rev_map [symmetric])
  then show ?thesis using assms by (intro map_of_inject_set [THEN iffD2]) auto
qed

lemma expand_policy_for:
  assumes "distinct (map fst named)"
  shows "policy_for_in (expand_assignment named c @ rest) ip =
     (if selector_matches (asg_client (ca_assignment c)) ip (map_of named ip) then ca_policy c
      else policy_for_in rest ip)"
proof (cases "asg_client (ca_assignment c)")
  case (SelName wanted)
  have loop: "policy_for_in
      (map (\<lambda>(ip, _). \<lparr> aa_selector = SelIp ip, aa_policy = ca_policy c \<rparr>)
         (filter (\<lambda>(_, name). eq_ignore_ascii_case name wanted) ns) @ rest) ip =
      (if \<exists>n. (ip, n) \<in> set ns \<and> eq_ignore_ascii_case n wanted then ca_policy c
       else policy_for_in rest ip)" for ns :: "(ip_addr \<times> string) list"
    by (induction ns) auto
  have "(\<exists>n. (ip, n) \<in> set named \<and> eq_ignore_ascii_case n wanted) \<longleftrightarrow>
      (case map_of named ip of None \<Rightarrow> False | Some n \<Rightarrow> eq_ignore_ascii_case n wanted)"
  proof (cases "map_of named ip")
    case None
    then have "(ip, n) \<notin> set named" for n by (force simp: map_of_eq_None_iff)
    with None show ?thesis by simp
  next
    case (Some m)
    then have "(ip, n) \<in> set named \<longleftrightarrow> n = m" for n
      using map_of_eq_Some_iff [OF assms, of ip n] by auto
    with Some show ?thesis by simp
  qed
  then show ?thesis using SelName by (simp add: expand_assignment_def loop)
qed (simp_all add: expand_assignment_def)

text \<open>C20: The snapshot both pipelines read answers like the full computation: with client names
  that are functional in the address, looking a client up in \<open>active_at(now)\<close> gives the policy
  \<open>resolve\<close> gives at that instant, and the name the registry has.\<close>

theorem snapshot_agrees_with_resolve:
  assumes "distinct (map fst named)"
  shows "policy_for (active_at ps now named) ip = resolve ps ip (map_of named ip) now
    \<and> name_of (active_at ps now named) ip = map_of named ip"
proof -
  have "policy_for_in (concat (map (expand_assignment named) (filter (schedule_active ps now) as))) ip
      = resolve_in ps ip (map_of named ip) now as" for as
    by (induction as) (auto simp: expand_policy_for [OF assms])
  then show ?thesis
    using map_of_rev_distinct [OF assms]
    by (simp add: policy_for_def active_at_def resolve_def name_of_def)
qed

theorem snapshot_agrees_with_resolve_witness:
  "policy_for (active_at (single_default\<lparr> ps_assignments := [\<lparr> ca_assignment =
        \<lparr> asg_client = SelName ''Laptop'', asg_policy = ''kids'', asg_schedule = None \<rparr>,
      ca_policy = PolicyId 1 \<rparr>] \<rparr>) 0 [(V4 7, ''laptop'')]) (V4 7) = PolicyId 1"
proof -
  have e: "eq_ignore_ascii_case ''laptop'' ''Laptop''" by code_simp
  show ?thesis
    by (subst snapshot_agrees_with_resolve [THEN conjunct1])
       (simp_all add: resolve_def schedule_active_def e)
qed

theorem mask_for_list_exact_witness:
  "bit (mask_for_list (single_default\<lparr> ps_policies := ps_policies single_default @
      [\<lparr> cp_policy = \<lparr> pol_id = ''kids'', pol_name = ''Kids'', pol_lists = [''ads''],
           pol_blocking_mode = None \<rparr>, cp_lists = Some [''ads''] \<rparr>] \<rparr>) ''ads'') 1"
proof -
  let ?ps = "single_default\<lparr> ps_policies := ps_policies single_default @
      [\<lparr> cp_policy = \<lparr> pol_id = ''kids'', pol_name = ''Kids'', pol_lists = [''ads''],
           pol_blocking_mode = None \<rparr>, cp_lists = Some [''ads''] \<rparr>] \<rparr>"
  have len: "length (ps_policies ?ps) = 2" by (simp add: single_default_def)
  then have "0 < length (ps_policies ?ps)" "length (ps_policies ?ps) \<le> POLICY_MAX"
    by (simp_all add: POLICY_MAX_def)
  from mask_for_list_exact [OF this, of "''ads''"] len
  have "bit (mask_for_list ?ps ''ads'') 1 \<longleftrightarrow> 1 = (0 :: nat) \<or> policy_sees (ps_policies ?ps ! 1) ''ads''"
    by simp
  then show ?thesis by (simp add: single_default_def policy_sees_def)
qed

theorem resolve_most_specific_witness:
  "\<exists>ps. from_config ''UTC'' [\<lparr> pc_id = ''kids'', pc_name = None, pc_lists = None,
        pc_blocking_mode = None, pc_assignments =
          [\<lparr> ac_client = ''10.0.0.0/8'', ac_days = None, ac_start = None, ac_end = None \<rparr>] \<rparr>] = Ok ps
    \<and> resolve ps (V4 0x0A000001) None 0 = PolicyId 1"
proof -
  let ?c = "[\<lparr> pc_id = ''kids'', pc_name = None, pc_lists = None,
        pc_blocking_mode = None, pc_assignments =
          [\<lparr> ac_client = ''10.0.0.0/8'', ac_days = None, ac_start = None, ac_end = None \<rparr>] \<rparr>]"
  let ?a = "\<lparr> ca_assignment = \<lparr> asg_client = SelNetwork (V4 0x0A000000) 8, asg_policy = ''kids'',
      asg_schedule = None \<rparr>, ca_policy = PolicyId 1 \<rparr>"
  have "tz_parse ''UTC'' = Ok UTC" by code_simp
  moreover have "parse_selector ''10.0.0.0/8'' = Some (SelNetwork (V4 0x0A000000) 8)" by code_simp
  ultimately obtain ps where ps: "from_config ''UTC'' ?c = Ok ps" "ps_assignments ps = [?a]"
    by (simp add: from_config_def POLICY_MAX_def compile_assignment_def compile_schedule_def ok_or_def)
  have "applies ps (V4 0x0A000001) None 0 ?a"
    by (simp add: applies_def schedule_active_def network_contains_def covered_def octets4_def)
  with resolve_most_specific [OF ps(1), of "V4 0x0A000001" None 0] ps show ?thesis by auto
qed

end
