(* ===== verification/Parsers.thy ===== *)
theory Parsers
  imports Format Policy
begin

text \<open>
  The list parsers of \<open>fah-rules/src/parser/\<close>: hosts files, plain domain lists and the adblock
  syntax family, the dispatch between them and the rule ceiling computed ahead of parsing.

  Each parser is its line step folded over the enumerated lines, the accumulator being the rules
  so far and the error log. What the three have in common is the locale \<open>line_parser\<close>.
\<close>

section \<open>Definitions\<close>

type_synonym parse_state = "parsed_rule list \<times> parse_error_log"

definition parse_lines ::
  "(nat \<Rightarrow> string \<Rightarrow> parse_state \<Rightarrow> parse_state) \<Rightarrow> string \<Rightarrow> parse_state" where
  "parse_lines step text =
     foldl (\<lambda>st (index, line). step index line st) ([], parse_error_log_default)
       (enumerate 0 (lines text))"

definition finish :: "rule_format \<Rightarrow> parse_state \<Rightarrow> parsed_rule_list" where
  "finish format st =
     (let (parse_errors, parse_error_lines) = into_parts (snd st)
      in \<lparr> prl_format = format, prl_rules = fst st, prl_parse_errors = parse_errors,
           prl_parse_error_lines = parse_error_lines \<rparr>)"

subsection \<open>Hosts files\<close>

definition LOOPBACK_ALIASES :: "string list" where
  "LOOPBACK_ALIASES =
     [''localhost'', ''localhost.localdomain'', ''local'', ''broadcasthost'', ''ip6-localhost'',
      ''ip6-loopback'', ''ip6-localnet'', ''ip6-mcastprefix'', ''ip6-allnodes'',
      ''ip6-allrouters'', ''ip6-allhosts'']"

definition is_loopback_alias :: "string \<Rightarrow> bool" where
  "is_loopback_alias host = list_ex (\<lambda>alias. eq_ignore_ascii_case host alias) LOOPBACK_ALIASES"

text \<open>One host token: the rules so far and whether the line was understood.\<close>

definition hosts_token :: "parsed_rule list \<times> bool \<Rightarrow> string \<Rightarrow> parsed_rule list \<times> bool" where
  "hosts_token st host =
     (let (rules, handled) = st
      in if is_loopback_alias host then (rules, True)
         else case normalize_domain host of
           None \<Rightarrow> (rules, handled)
         | Some domain \<Rightarrow> (rules @ [Active (plain_rule domain BlockRule True)], True))"

definition hosts_line :: "nat \<Rightarrow> string \<Rightarrow> parse_state \<Rightarrow> parse_state" where
  "hosts_line index line st =
     (let line = trim line; (rules, errors) = st
      in if is_ignorable line then st
         else case split_whitespace line of
           [] \<Rightarrow> (rules, error_record errors index)
         | ip # tokens \<Rightarrow>
             if \<not> looks_like_ip ip then (rules, error_record errors index)
             else let (rules, handled) =
                    foldl hosts_token (rules, False) (takeWhile (\<lambda>t. \<not> prefix ''#'' t) tokens)
               in if handled then (rules, errors) else (rules, error_record errors index))"

definition hosts_parse :: "string \<Rightarrow> parsed_rule_list" where
  "hosts_parse text = finish Hosts (parse_lines hosts_line text)"

subsection \<open>Plain domain lists\<close>

definition domain_list_line :: "nat \<Rightarrow> string \<Rightarrow> parse_state \<Rightarrow> parse_state" where
  "domain_list_line index line st =
     (let line = trim line; (rules, errors) = st
      in if is_ignorable line then st
         else case normalize_domain line of
           Some domain \<Rightarrow> (rules @ [Active (plain_rule domain BlockRule True)], errors)
         | None \<Rightarrow> (rules, error_record errors index))"

definition domain_list_parse :: "string \<Rightarrow> parsed_rule_list" where
  "domain_list_parse text = finish PlainDomainList (parse_lines domain_list_line text)"

subsection \<open>Adblock options\<close>

datatype ascii_case = LowerCase | UpperCase

definition folded :: "string \<Rightarrow> ascii_case \<Rightarrow> string" where
  "folded text fold_case =
     (let folds = (case fold_case of
                     LowerCase \<Rightarrow> list_ex is_ascii_uppercase text
                   | UpperCase \<Rightarrow> list_ex is_ascii_lowercase text)
      in if \<not> folds then text
         else case fold_case of LowerCase \<Rightarrow> lower text | UpperCase \<Rightarrow> upper text)"

record options =
  op_dns_types :: "string option"
  op_dns_rewrite :: "string option"
  op_client :: "string option"
  op_party :: party
  op_resource_types :: u16
  op_domains :: "string option"
  op_methods :: "string option"
  op_match_case :: bool
  op_http_scoped :: bool
  op_unsupported :: bool

definition no_options :: options where
  "no_options =
     \<lparr> op_dns_types = None, op_dns_rewrite = None, op_client = None, op_party = PartyAny,
       op_resource_types = 0, op_domains = None, op_methods = None, op_match_case = False,
       op_http_scoped = False, op_unsupported = False \<rparr>"

text \<open>The loop's locals beside the options themselves.\<close>

record options_acc =
  oa_options :: options
  oa_positive :: u16
  oa_negated :: u16
  oa_saw_type :: bool

text \<open>The \<open>match name\<close> of the loop body, for a name that is not a resource type.\<close>

definition named_option :: "string \<Rightarrow> bool \<Rightarrow> string option \<Rightarrow> options \<Rightarrow> options" where
  "named_option name negated value opts =
     (if name = ''dnstype'' then opts\<lparr> op_dns_types := value \<rparr>
      else if name = ''dnsrewrite'' then opts\<lparr> op_dns_rewrite := value \<rparr>
      else if name = ''client'' then
        (case value of
           Some v \<Rightarrow> if client_scope_parse v \<noteq> None then opts\<lparr> op_client := Some v \<rparr>
                     else opts\<lparr> op_unsupported := True \<rparr>
         | None \<Rightarrow> opts\<lparr> op_unsupported := True \<rparr>)
      else if name = ''third-party'' \<or> name = ''3p'' then
        opts\<lparr> op_http_scoped := True, op_party := (if negated then PartyFirst else PartyThird) \<rparr>
      else if name = ''first-party'' \<or> name = ''1p'' then
        opts\<lparr> op_http_scoped := True, op_party := (if negated then PartyThird else PartyFirst) \<rparr>
      else if name = ''domain'' \<or> name = ''from'' then
        (let opts = opts\<lparr> op_http_scoped := True \<rparr>
         in case value of
              Some v \<Rightarrow> if v \<noteq> [] then opts\<lparr> op_domains := Some (folded v LowerCase) \<rparr>
                        else opts\<lparr> op_unsupported := True \<rparr>
            | None \<Rightarrow> opts\<lparr> op_unsupported := True \<rparr>)
      else if name = ''method'' then
        (let opts = opts\<lparr> op_http_scoped := True \<rparr>
         in case value of
              Some v \<Rightarrow> if v \<noteq> [] then opts\<lparr> op_methods := Some (folded v UpperCase) \<rparr>
                        else opts\<lparr> op_unsupported := True \<rparr>
            | None \<Rightarrow> opts\<lparr> op_unsupported := True \<rparr>)
      else if name = ''match-case'' then
        opts\<lparr> op_http_scoped := True, op_match_case := \<not> negated \<rparr>
      else opts\<lparr> op_http_scoped := True, op_unsupported := True \<rparr>)"

definition option_token :: "string \<Rightarrow> options_acc \<Rightarrow> options_acc option" where
  "option_token token acc =
     (let token = trim token
      in if token = [] then None
         else let (name, value) =
                (case split_once (CHR ''='') token of
                   Some (name, value) \<Rightarrow> (name, Some value) | None \<Rightarrow> (token, None));
                (name, negated) =
                (case strip_prefix ''~'' name of Some rest \<Rightarrow> (rest, True) | None \<Rightarrow> (name, False))
           in case bit_for_option name of
                Some b \<Rightarrow>
                  (let acc = acc\<lparr> oa_saw_type := True,
                                  oa_options := (oa_options acc)\<lparr> op_http_scoped := True \<rparr> \<rparr>
                   in Some (if negated then acc\<lparr> oa_negated := oa_negated acc OR b \<rparr>
                            else acc\<lparr> oa_positive := oa_positive acc OR b \<rparr>))
              | None \<Rightarrow>
                  Some (acc\<lparr> oa_options := named_option name negated value (oa_options acc) \<rparr>))"

definition parse_options :: "string \<Rightarrow> options option" where
  "parse_options raw =
     (if raw = [] then Some no_options
      else do {
        acc \<leftarrow> try_fold option_token (split_on (\<lambda>c. c = CHR '','') raw)
          \<lparr> oa_options = no_options, oa_positive = 0, oa_negated = 0, oa_saw_type = False \<rparr>;
        let opts = oa_options acc;
        if oa_saw_type acc
        then (let types = (if oa_positive acc = 0 then ALL_TYPES AND NOT (oa_negated acc)
                           else oa_positive acc AND NOT (oa_negated acc));
                  opts = opts\<lparr> op_resource_types := types \<rparr>
              in Some (if types = 0 then opts\<lparr> op_unsupported := True \<rparr> else opts))
        else Some opts
      })"

subsection \<open>Adblock lines\<close>

definition COSMETIC_MARKERS :: "string list" where
  "COSMETIC_MARKERS = [''##'', ''#@#'', ''#?#'', ''#$#'']"

text \<open>The last \<open>$\<close> not preceded by a backslash.\<close>

definition split_options :: "string \<Rightarrow> string \<times> string" where
  "split_options body =
     (case foldl (\<lambda>at i. if body ! i = CHR ''$'' \<and> (i = 0 \<or> body ! (i - 1) \<noteq> CHR 0x5C)
                         then Some i else at) None [0..<length body] of
        Some i \<Rightarrow> (take i body, drop (i + 1) body)
      | None \<Rightarrow> (body, []))"

datatype domain_verdict = DomainRule domain_rule | Malformed | NotADomainRule

definition action :: "bool \<Rightarrow> rule_action" where
  "action exception = (if exception then AllowRule else BlockRule)"

definition domain_rule :: "string \<Rightarrow> bool \<Rightarrow> options \<Rightarrow> domain_verdict" where
  "domain_rule pattern exception opts =
     (case strip_prefix ''||'' pattern of
        None \<Rightarrow> NotADomainRule
      | Some after_anchor \<Rightarrow>
          (let end = (case position (\<lambda>c. c = CHR ''^'' \<or> c = CHR ''/'') after_anchor of
                        Some i \<Rightarrow> i | None \<Rightarrow> length after_anchor);
               domain_part = take end after_anchor
           in if domain_part = [] then Malformed
              else case normalize_domain domain_part of
                None \<Rightarrow> NotADomainRule
              | Some domain \<Rightarrow>
                  (let tail = drop end after_anchor
                   in if tail \<noteq> '''' \<and> tail \<noteq> ''^'' \<and> tail \<noteq> ''^|'' then NotADomainRule
                      else if op_http_scoped opts then NotADomainRule
                      else DomainRule
                        \<lparr> dr_domain = domain, dr_action = action exception,
                          dr_include_subdomains = (tail \<noteq> ''^|''),
                          dr_opts = boxed \<lparr> do_dns_types = op_dns_types opts,
                                            do_dns_rewrite = op_dns_rewrite opts,
                                            do_client = op_client opts \<rparr> \<rparr>)))"

definition split_start_anchor :: "string \<Rightarrow> url_anchor \<times> string" where
  "split_start_anchor pattern =
     (case strip_prefix ''||'' pattern of
        Some rest \<Rightarrow> (AnchorDomain, rest)
      | None \<Rightarrow>
          (case strip_prefix ''|'' pattern of
             Some rest \<Rightarrow> (AnchorStart, rest) | None \<Rightarrow> (AnchorAnywhere, pattern)))"

definition split_end_anchor :: "string \<Rightarrow> string \<times> bool" where
  "split_end_anchor body =
     (case strip_suffix ''|'' body of Some h \<Rightarrow> (h, True) | None \<Rightarrow> (body, False))"

definition url_rule :: "string \<Rightarrow> bool \<Rightarrow> options \<Rightarrow> parsed_rule" where
  "url_rule pattern exception opts =
     (if 2 < length pattern \<and> prefix ''/'' pattern \<and> suffix ''/'' pattern
      then Inactive Unsupported
      else let (anchor, body) = split_start_anchor pattern;
               (body, end_anchored) = split_end_anchor body
        in if body = [] then Inactive Unsupported
           else if 65535 < length body
             \<or> (case op_domains opts of None \<Rightarrow> False | Some d \<Rightarrow> 65535 < length d)
           then Inactive Unsupported
           else Url \<lparr> ur_pattern = (if op_match_case opts then body else folded body LowerCase),
                      ur_action = action exception, ur_anchor = anchor,
                      ur_end_anchored = end_anchored, ur_match_case = op_match_case opts,
                      ur_party = op_party opts, ur_resource_types = op_resource_types opts,
                      ur_domains = op_domains opts, ur_methods = op_methods opts,
                      ur_client = op_client opts \<rparr>)"

text \<open>What one line does: nothing, push a rule, or record an error.\<close>

datatype line_result = Skip | Emit parsed_rule | Fail

definition adblock_rule_line :: "string \<Rightarrow> line_result" where
  "adblock_rule_line line =
     (let exception = prefix ''@@'' line;
          body = (if exception then drop 2 line else line);
          (pattern, options_str) = split_options body
      in case parse_options options_str of
           None \<Rightarrow> Fail
         | Some opts \<Rightarrow>
             if op_unsupported opts then Emit (Inactive Unsupported)
             else case domain_rule pattern exception opts of
               DomainRule rule \<Rightarrow> Emit (Active rule)
             | Malformed \<Rightarrow> Fail
             | NotADomainRule \<Rightarrow>
                 if list_ex is_ascii_whitespace pattern then Fail
                 else Emit (url_rule pattern exception opts))"

definition adblock_line_result :: "string \<Rightarrow> line_result" where
  "adblock_line_result line =
     (case line of
        [] \<Rightarrow> Skip
      | first # _ \<Rightarrow>
          if first = CHR ''!'' \<or> first = CHR ''['' then Skip
          else let ats = List.map_filter (\<lambda>m. find_str m line) COSMETIC_MARKERS
            in if ats \<noteq> [] then
                 (if list_ex is_ascii_whitespace (take (min_list ats) line) then Fail
                  else Emit (Inactive Cosmetic))
               else if first = CHR ''#'' then Skip
               else adblock_rule_line line)"

definition adblock_line :: "nat \<Rightarrow> string \<Rightarrow> parse_state \<Rightarrow> parse_state" where
  "adblock_line index line st =
     (let (rules, errors) = st
      in case adblock_line_result (trim line) of
           Skip \<Rightarrow> st
         | Emit rule \<Rightarrow> (rules @ [rule], errors)
         | Fail \<Rightarrow> (rules, error_record errors index))"

definition adblock_parse :: "string \<Rightarrow> parsed_rule_list" where
  "adblock_parse text = finish Adblock (parse_lines adblock_line text)"

subsection \<open>Dispatch and ceiling\<close>

definition parse :: "string \<Rightarrow> parsed_rule_list" where
  "parse text =
     (case detect_format text of
        Hosts \<Rightarrow> hosts_parse text
      | PlainDomainList \<Rightarrow> domain_list_parse text
      | Adblock \<Rightarrow> adblock_parse text)"

definition line_bound :: "bool \<Rightarrow> string \<Rightarrow> nat" where
  "line_bound hosts line =
     (let line = trim_start line
      in if is_ignorable line then 0
         else if hosts then length (split_whitespace line) else 1)"

definition rule_upper_bound :: "string \<Rightarrow> nat" where
  "rule_upper_bound text =
     sum_list (map (line_bound (detect_format text = Hosts)) (lines text))"

section \<open>What every parser guarantees\<close>

text \<open>A rule some tier answers, as the compiler counts them.\<close>

definition live :: "parsed_rule \<Rightarrow> bool" where
  "live r \<longleftrightarrow> is_active r \<or> is_url r"

text \<open>The shape of the rules: anchors are canonical names, a \<open>$client\<close> payload is one the
  compiler can parse, and a URL pattern is non-empty, fits the compiled record's 16-bit lengths
  and is already folded.\<close>

definition client_wf :: "string option \<Rightarrow> bool" where
  "client_wf c = (case c of None \<Rightarrow> True | Some v \<Rightarrow> client_scope_parse v \<noteq> None)"

definition url_rule_wf :: "url_rule \<Rightarrow> bool" where
  "url_rule_wf u \<longleftrightarrow>
     ur_pattern u \<noteq> [] \<and> length (ur_pattern u) \<le> 65535 \<and>
     (\<not> ur_match_case u \<longrightarrow> lower (ur_pattern u) = ur_pattern u) \<and>
     (case ur_domains u of None \<Rightarrow> True
      | Some d \<Rightarrow> d \<noteq> [] \<and> length d \<le> 65535 \<and> lower d = d) \<and>
     (case ur_methods u of None \<Rightarrow> True | Some m \<Rightarrow> m \<noteq> [] \<and> upper m = m) \<and>
     client_wf (ur_client u)"

definition rule_wf :: "parsed_rule \<Rightarrow> bool" where
  "rule_wf r =
     (case r of
        Active d \<Rightarrow> domain_wf (dr_domain d) \<and> client_wf (dr_client d)
      | Url u \<Rightarrow> url_rule_wf u
      | Inactive _ \<Rightarrow> True)"

text \<open>The lines each format rejects, read off the grammar alone: blank lines and comments are not
  errors; a hosts line must start with an address and name something; a line of a domain list
  must be a domain; an adblock line fails when its own parser says so.\<close>

definition hosts_rejects :: "string \<Rightarrow> bool" where
  "hosts_rejects line \<longleftrightarrow>
     \<not> is_ignorable (trim line) \<and>
     (case split_whitespace (trim line) of
        [] \<Rightarrow> True
      | ip # tokens \<Rightarrow>
          \<not> looks_like_ip ip \<or>
          list_all (\<lambda>t. \<not> is_loopback_alias t \<and> normalize_domain t = None)
            (takeWhile (\<lambda>t. \<not> prefix ''#'' t) tokens))"

definition domain_list_rejects :: "string \<Rightarrow> bool" where
  "domain_list_rejects line \<longleftrightarrow> \<not> is_ignorable (trim line) \<and> normalize_domain (trim line) = None"

definition adblock_rejects :: "string \<Rightarrow> bool" where
  "adblock_rejects line \<longleftrightarrow> adblock_line_result (trim line) = Fail"

definition format_rejects :: "rule_format \<Rightarrow> string \<Rightarrow> bool" where
  "format_rejects format =
     (case format of
        Hosts \<Rightarrow> hosts_rejects
      | PlainDomainList \<Rightarrow> domain_list_rejects
      | Adblock \<Rightarrow> adblock_rejects)"

definition rejected_at :: "(string \<Rightarrow> bool) \<Rightarrow> nat \<Rightarrow> string list \<Rightarrow> nat list" where
  "rejected_at rejects n ls = map fst (filter (\<lambda>(i, l). rejects l) (enumerate n ls))"

lemma rejected_at_simps [simp]:
  "rejected_at rejects n [] = []"
  "rejected_at rejects n (l # ls) = (if rejects l then [n] else []) @ rejected_at rejects (Suc n) ls"
  by (simp_all add: rejected_at_def)

lemma rejected_at_less: "i \<in> set (rejected_at rejects n ls) \<Longrightarrow> i < n + length ls"
  by (auto simp: rejected_at_def in_set_enumerate_eq)

lemma length_rejected_at: "length (rejected_at rejects n ls) \<le> length ls"
  by (induction ls arbitrary: n) (auto intro: le_SucI)

locale line_parser =
  fixes line_step :: "nat \<Rightarrow> string \<Rightarrow> parse_state \<Rightarrow> parse_state"
    and bound :: "string \<Rightarrow> nat"
    and rejects :: "string \<Rightarrow> bool"
  assumes step_log:
      "snd (line_step i l st) = (if rejects l then error_record (snd st) i else snd st)"
    and step_rules:
      "\<exists>new. fst (line_step i l st) = fst st @ new \<and> list_all rule_wf new
         \<and> length (filter live new) \<le> bound l"
begin

lemma fold_rules:
  "\<exists>new. fst (foldl (\<lambda>st (i, l). line_step i l st) st (enumerate n ls)) = fst st @ new
     \<and> list_all rule_wf new \<and> length (filter live new) \<le> sum_list (map bound ls)"
proof (induction ls arbitrary: st n)
  case (Cons l ls)
  obtain new1 where n1: "fst (line_step n l st) = fst st @ new1" "list_all rule_wf new1"
    "length (filter live new1) \<le> bound l"
    using step_rules by blast
  obtain new2 where n2:
    "fst (foldl (\<lambda>st (i, l). line_step i l st) (line_step n l st) (enumerate (Suc n) ls))
       = fst (line_step n l st) @ new2"
    "list_all rule_wf new2" "length (filter live new2) \<le> sum_list (map bound ls)"
    using Cons.IH by blast
  show ?case
    using n1 n2 by (intro exI [of _ "new1 @ new2"]) auto
qed simp

lemma parse_lines_wf: "list_all rule_wf (fst (parse_lines line_step text))"
  using fold_rules [of "([], parse_error_log_default)" 0 "lines text"]
  by (auto simp: parse_lines_def)

lemma parse_lines_bound:
  "length (filter live (fst (parse_lines line_step text))) \<le> sum_list (map bound (lines text))"
  using fold_rules [of "([], parse_error_log_default)" 0 "lines text"]
  by (auto simp: parse_lines_def)

text \<open>The log is the error lines in order, the first hundred of them by number.\<close>

lemma fold_log:
  assumes "el_count (snd st) = of_nat (length errs)"
    and "el_lines (snd st) = map (\<lambda>i. of_nat i + 1) (take MAX_REPORTED_ERROR_LINES errs)"
  shows "el_count (snd (foldl (\<lambda>st (i, l). line_step i l st) st (enumerate n ls)))
           = of_nat (length (errs @ rejected_at rejects n ls))
      \<and> el_lines (snd (foldl (\<lambda>st (i, l). line_step i l st) st (enumerate n ls)))
           = map (\<lambda>i. of_nat i + 1)
               (take MAX_REPORTED_ERROR_LINES (errs @ rejected_at rejects n ls))"
  using assms
proof (induction ls arbitrary: st n errs)
  case (Cons l ls)
  let ?errs = "errs @ (if rejects l then [n] else [])"
  have "el_count (snd (line_step n l st)) = of_nat (length ?errs)"
    using Cons.prems(1) by (simp add: step_log error_record_def Let_def)
  moreover have "el_lines (snd (line_step n l st))
      = map (\<lambda>i. of_nat i + 1) (take MAX_REPORTED_ERROR_LINES ?errs)"
    using Cons.prems(2) by (auto simp: step_log error_record_def Let_def)
  ultimately show ?case using Cons.IH [of "line_step n l st" ?errs "Suc n"] by simp
qed simp

lemma parse_lines_log:
  "el_count (snd (parse_lines line_step text)) = of_nat (length (rejected_at rejects 0 (lines text)))
   \<and> el_lines (snd (parse_lines line_step text))
       = map (\<lambda>i. of_nat i + 1)
           (take MAX_REPORTED_ERROR_LINES (rejected_at rejects 0 (lines text)))"
  using fold_log [of "([], parse_error_log_default)" "[]" 0 "lines text"]
  by (simp add: parse_lines_def parse_error_log_default_def)

end

section \<open>The three parsers meet the contract\<close>

lemma rule_wf_plain: "normalize_domain s = Some d \<Longrightarrow> rule_wf (Active (plain_rule d a b))"
  using normalize_domain_Some [THEN conjunct2, of s d]
  by (simp add: rule_wf_def plain_rule_def dr_client_def client_wf_def)

lemma hosts_token_new:
  "\<exists>new. fst (hosts_token st t) = fst st @ new \<and> list_all rule_wf new \<and> length new \<le> 1"
  by (cases st; cases "is_loopback_alias t"; cases "normalize_domain t")
     (auto simp: hosts_token_def rule_wf_plain)

lemma hosts_tokens:
  "\<exists>new. fst (foldl hosts_token st toks) = fst st @ new \<and> list_all rule_wf new
     \<and> length new \<le> length toks"
proof (induction toks arbitrary: st)
  case (Cons t ts)
  obtain new1 where n1: "fst (hosts_token st t) = fst st @ new1" "list_all rule_wf new1" "length new1 \<le> 1"
    using hosts_token_new by blast
  obtain new2 where n2: "fst (foldl hosts_token (hosts_token st t) ts) = fst (hosts_token st t) @ new2"
    "list_all rule_wf new2" "length new2 \<le> length ts"
    using Cons.IH by blast
  show ?case using n1 n2 by (intro exI [of _ "new1 @ new2"]) auto
qed simp

lemma line_bound_trim:
  "line_bound hosts line =
     (if is_ignorable (trim line) then 0
      else if hosts then length (split_whitespace (trim line)) else 1)"
proof -
  have "is_ignorable (trim_start line) = is_ignorable (trim line)"
  proof (cases "trim line = []")
    case True
    then show ?thesis using trim_hd(1) [of line] by (simp add: is_ignorable_def)
  next
    case False
    then show ?thesis
      using trim_hd [of line] by (cases "trim line"; cases "trim_start line") (auto simp: is_ignorable_def)
  qed
  moreover have "split_whitespace (trim line) = split_whitespace (trim_start line)"
    by (simp add: trim_def split_whitespace_trim_end)
  ultimately show ?thesis by (simp add: line_bound_def Let_def)
qed

lemma hosts_tokens_handled:
  "snd (foldl hosts_token st toks) \<longleftrightarrow>
     snd st \<or> \<not> list_all (\<lambda>t. \<not> is_loopback_alias t \<and> normalize_domain t = None) toks"
  by (induction toks arbitrary: st) (auto simp: hosts_token_def split: prod.splits option.splits)

interpretation hosts_p: line_parser hosts_line "line_bound True" hosts_rejects
proof
  fix i l and st :: parse_state
  obtain rules errors where st: "st = (rules, errors)" by (cases st)
  show "snd (hosts_line i l st) = (if hosts_rejects l then error_record (snd st) i else snd st)"
  proof (cases "split_whitespace (trim l)")
    case (Cons ip tokens)
    let ?toks = "takeWhile (\<lambda>t. \<not> prefix ''#'' t) tokens"
    obtain rules' handled where f: "foldl hosts_token (rules, False) ?toks = (rules', handled)"
      by (cases "foldl hosts_token (rules, False) ?toks")
    with hosts_tokens_handled [of "(rules, False)" ?toks] Cons show ?thesis
      by (simp add: hosts_line_def hosts_rejects_def st Let_def)
  qed (simp add: hosts_line_def hosts_rejects_def st Let_def)
  show "\<exists>new. fst (hosts_line i l st) = fst st @ new \<and> list_all rule_wf new
         \<and> length (filter live new) \<le> line_bound True l"
  proof (cases "is_ignorable (trim l)")
    case False
    show ?thesis
    proof (cases "split_whitespace (trim l)")
      case (Cons ip tokens)
      let ?toks = "takeWhile (\<lambda>t. \<not> prefix ''#'' t) tokens"
      obtain new where new: "fst (foldl hosts_token (rules, False) ?toks) = rules @ new"
        "list_all rule_wf new" "length new \<le> length ?toks"
        using hosts_tokens [of "(rules, False)" ?toks] by auto
      have "length (filter live new) \<le> length tokens"
        using new(3) length_filter_le [of live new] length_takeWhile_le [of _ tokens]
        by (meson le_trans)
      then show ?thesis
        using Cons False new
        by (auto simp: hosts_line_def st Let_def line_bound_trim split: prod.splits)
    qed (use False in \<open>simp add: hosts_line_def st Let_def line_bound_trim\<close>)
  qed (simp add: hosts_line_def st Let_def line_bound_trim)
qed

interpretation domain_p: line_parser domain_list_line "line_bound False" domain_list_rejects
proof
  fix i l and st :: parse_state
  obtain rules errors where st: "st = (rules, errors)" by (cases st)
  show "snd (domain_list_line i l st)
      = (if domain_list_rejects l then error_record (snd st) i else snd st)"
    by (auto simp: domain_list_line_def domain_list_rejects_def st Let_def split: option.splits)
  show "\<exists>new. fst (domain_list_line i l st) = fst st @ new \<and> list_all rule_wf new
         \<and> length (filter live new) \<le> line_bound False l"
    by (auto simp: domain_list_line_def st Let_def line_bound_trim rule_wf_plain split: option.splits)
qed

lemma upper_strings_id: "(\<And>c. c \<in> set s \<Longrightarrow> \<not> is_ascii_lowercase c) \<Longrightarrow> upper s = s"
  by (induction s) (auto simp: ascii_simps)

lemma folded_lower: "lower (folded s LowerCase) = folded s LowerCase"
  by (auto simp: folded_def list_ex_iff intro: lower_strings_id)

lemma folded_upper: "upper (folded s UpperCase) = folded s UpperCase"
  by (auto simp: folded_def list_ex_iff ascii_simps intro!: upper_strings_id)

lemma length_folded [simp]: "length (folded s c) = length s"
  by (cases c) (simp_all add: folded_def)

lemma folded_Nil [simp]: "folded s c = [] \<longleftrightarrow> s = []"
  by (metis length_0_conv length_folded)

definition options_wf :: "options \<Rightarrow> bool" where
  "options_wf opts \<longleftrightarrow>
     client_wf (op_client opts) \<and>
     (case op_domains opts of None \<Rightarrow> True | Some d \<Rightarrow> d \<noteq> [] \<and> lower d = d) \<and>
     (case op_methods opts of None \<Rightarrow> True | Some m \<Rightarrow> m \<noteq> [] \<and> upper m = m)"

lemma named_option_wf: "options_wf opts \<Longrightarrow> options_wf (named_option name negated v opts)"
  by (auto simp: named_option_def options_wf_def client_wf_def Let_def folded_lower folded_upper
      split: option.splits)

lemma option_token_wf:
  "option_token t acc = Some acc' \<Longrightarrow> options_wf (oa_options acc) \<Longrightarrow> options_wf (oa_options acc')"
  by (auto simp: option_token_def Let_def named_option_wf options_wf_def [of "_ \<lparr> op_http_scoped := _ \<rparr>"]
      split: if_splits option.splits prod.splits)
     (auto simp: options_wf_def)

lemma parse_options_wf:
  assumes "parse_options raw = Some opts"
  shows "options_wf opts"
proof -
  have base: "options_wf no_options" by (simp add: options_wf_def no_options_def client_wf_def)
  show ?thesis
  proof (cases "raw = []")
    case True
    with assms base show ?thesis by (simp add: parse_options_def)
  next
    case False
    let ?init = "\<lparr> oa_options = no_options, oa_positive = 0, oa_negated = 0, oa_saw_type = False \<rparr>"
    obtain acc where acc: "try_fold option_token (split_on (\<lambda>c. c = CHR '','') raw) ?init = Some acc"
      using assms False by (auto simp: parse_options_def bind_eq_Some_conv)
    have "options_wf (oa_options acc)"
      using try_fold_inv [OF acc, of "\<lambda>a. options_wf (oa_options a)"] base option_token_wf by auto
    with assms False acc show ?thesis
      by (auto simp: parse_options_def Let_def options_wf_def split: if_splits)
  qed
qed

lemma domain_rule_wf:
  assumes "domain_rule pattern e opts = DomainRule r" "options_wf opts"
  shows "rule_wf (Active r)"
proof -
  obtain d part where "normalize_domain part = Some d" "dr_domain r = d"
    "dr_client r = op_client opts"
    using assms(1)
    by (auto simp: domain_rule_def Let_def dr_client_def boxed_def split: option.splits if_splits)
  then show ?thesis
    using assms(2) normalize_domain_Some [THEN conjunct2, of part d]
    by (simp add: rule_wf_def options_wf_def)
qed

lemma url_rule_rule_wf:
  assumes "options_wf opts"
  shows "rule_wf (url_rule pattern e opts)"
proof -
  have "url_rule_wf \<lparr> ur_pattern = (if op_match_case opts then body else folded body LowerCase),
        ur_action = act, ur_anchor = an, ur_end_anchored = en, ur_match_case = op_match_case opts,
        ur_party = op_party opts, ur_resource_types = op_resource_types opts,
        ur_domains = op_domains opts, ur_methods = op_methods opts, ur_client = op_client opts \<rparr>"
    if "body \<noteq> []" "\<not> (65535 < length body \<or>
        (case op_domains opts of None \<Rightarrow> False | Some d \<Rightarrow> 65535 < length d))" for body act an en
    using that assms
    by (auto simp: url_rule_wf_def options_wf_def folded_lower split: option.splits)
  moreover obtain an b where "split_start_anchor pattern = (an, b)" by fastforce
  moreover obtain body en where "split_end_anchor b = (body, en)" by fastforce
  ultimately show ?thesis
    by (simp add: url_rule_def rule_wf_def)
qed

lemma adblock_rule_line_wf: "adblock_rule_line line = Emit r \<Longrightarrow> rule_wf r"
  by (auto simp: adblock_rule_line_def Let_def rule_wf_def [of "Inactive _"]
      split: prod.splits option.splits if_splits domain_verdict.splits
      dest: parse_options_wf domain_rule_wf url_rule_rule_wf)

lemma adblock_line_result_wf:
  assumes "adblock_line_result line = Emit r"
  shows "rule_wf r \<and> (live r \<longrightarrow> \<not> is_ignorable line)"
proof -
  have "\<not> live (Inactive Cosmetic)" "rule_wf (Inactive Cosmetic)"
    by (simp_all add: live_def is_active_def is_url_def rule_wf_def)
  with assms show ?thesis
    by (auto simp: adblock_line_result_def Let_def is_ignorable_def adblock_rule_line_wf
        split: list.splits if_splits)
qed

interpretation adblock_p: line_parser adblock_line "line_bound False" adblock_rejects
proof
  fix i l and st :: parse_state
  show "snd (adblock_line i l st) = (if adblock_rejects l then error_record (snd st) i else snd st)"
    by (cases st) (simp add: adblock_line_def adblock_rejects_def split: line_result.splits)
  show "\<exists>new. fst (adblock_line i l st) = fst st @ new \<and> list_all rule_wf new
         \<and> length (filter live new) \<le> line_bound False l"
  proof (cases "adblock_line_result (trim l)")
    case (Emit r)
    with adblock_line_result_wf [OF this] show ?thesis
      by (cases st) (auto simp: adblock_line_def line_bound_trim)
  qed (cases st; simp add: adblock_line_def)+
qed

section \<open>Properties of parsing\<close>

lemma parse_cases:
  obtains (hosts) "detect_format text = Hosts" "parse text = finish Hosts (parse_lines hosts_line text)"
  | (plain) "detect_format text = PlainDomainList"
      "parse text = finish PlainDomainList (parse_lines domain_list_line text)"
  | (adblock) "detect_format text = Adblock"
      "parse text = finish Adblock (parse_lines adblock_line text)"
  by (cases "detect_format text")
     (auto simp: parse_def hosts_parse_def domain_list_parse_def adblock_parse_def)

lemma finish_simps [simp]:
  "prl_rules (finish f st) = fst st"
  "prl_parse_errors (finish f st) = el_count (snd st)"
  "prl_parse_error_lines (finish f st) = el_lines (snd st)"
  by (simp_all add: finish_def into_parts_def)

text \<open>C19: Whatever the text, every rule \<open>parse\<close> returns is well-formed: domain rules are anchored
  at a canonical name, URL rules have a non-empty, case-folded pattern within the 16-bit lengths
  of the compiled record, and a \<open>$client\<close> restriction is one the compiler can parse, so no rule
  is later applied without its restriction.\<close>

theorem parse_rules_wf: "list_all rule_wf (prl_rules (parse text))"
  by (cases rule: parse_cases [of "text"])
     (simp_all add: hosts_p.parse_lines_wf domain_p.parse_lines_wf adblock_p.parse_lines_wf)

text \<open>C30: \<open>rule_upper_bound\<close> is a ceiling on the rules a tier answers: parsing never yields more
  domain and URL rules than it computed from the raw text.\<close>

theorem rule_upper_bound_ceiling:
  "active_count (parse text) + url_count (parse text) \<le> rule_upper_bound text"
proof -
  have "active_count l + url_count l = length (filter live (prl_rules l))" for l
  proof -
    have "length (filter is_active rs) + length (filter is_url rs) = length (filter live rs)" for rs
      by (induction rs) (auto simp: live_def is_active_def is_url_def split: rule_kind.splits)
    then show ?thesis by (simp add: active_count_def url_count_def counts_eq)
  qed
  moreover have "length (filter live (prl_rules (parse text))) \<le> rule_upper_bound text"
  proof (cases rule: parse_cases [of "text"])
    case hosts
    then show ?thesis using hosts_p.parse_lines_bound [of "text"] by (simp add: rule_upper_bound_def)
  next
    case plain
    then show ?thesis using domain_p.parse_lines_bound [of "text"] by (simp add: rule_upper_bound_def)
  next
    case adblock
    then show ?thesis using adblock_p.parse_lines_bound [of "text"] by (simp add: rule_upper_bound_def)
  qed
  ultimately show ?thesis by simp
qed

text \<open>It is not a ceiling on all the rules \<open>parse\<close> returns: a cosmetic line that starts with
  \<open>#\<close> is counted as a comment and still parses to an (inactive) rule.\<close>

theorem rule_upper_bound_misses_cosmetic:
  "rule_upper_bound (''||a.io^'' @ [CHR 0x0A] @ ''###ad'') = 1
   \<and> length (prl_rules (parse (''||a.io^'' @ [CHR 0x0A] @ ''###ad''))) = 2"
  by code_simp

lemma parse_log:
  "prl_parse_errors (parse text)
     = of_nat (length (rejected_at (format_rejects (detect_format text)) 0 (lines text)))
   \<and> prl_parse_error_lines (parse text) = map (\<lambda>i. of_nat i + 1)
       (take MAX_REPORTED_ERROR_LINES
          (rejected_at (format_rejects (detect_format text)) 0 (lines text)))"
  by (cases rule: parse_cases [of "text"])
     (simp_all add: hosts_p.parse_lines_log domain_p.parse_lines_log adblock_p.parse_lines_log
       format_rejects_def)

text \<open>C31: The error report is the truth, truncated: in a text of fewer than 2^32 lines the error
  count is the number of lines the detected format rejects, and the line numbers listed are
  those of the first hundred of them, in order and counted from one.\<close>

theorem parse_error_report:
  assumes "length (lines text) < 2 ^ 32"
  shows "let bad = rejected_at (format_rejects (detect_format text)) 0 (lines text)
    in unat (prl_parse_errors (parse text)) = length bad
      \<and> map unat (prl_parse_error_lines (parse text)) = map Suc (take 100 bad)"
proof -
  let ?bad = "rejected_at (format_rejects (detect_format text)) 0 (lines text)"
  have "length ?bad < 2 ^ 32" using assms length_rejected_at by (rule le_less_trans [rotated])
  then have "unat (prl_parse_errors (parse text)) = length ?bad"
    by (simp add: parse_log unat_of_nat)
  moreover have "unat (of_nat i + 1 :: u32) = Suc i" if "i \<in> set ?bad" for i
  proof -
    have "Suc i < 2 ^ 32" using rejected_at_less [OF that] assms by simp
    then have "unat (of_nat (Suc i) :: u32) = Suc i" by (intro unat_of_nat_small) simp
    then show ?thesis by (simp add: add.commute)
  qed
  ultimately show ?thesis
    by (auto simp: parse_log Let_def MAX_REPORTED_ERROR_LINES_def dest: in_set_takeD)
qed

theorem parse_error_report_witness:
  "(let t = ''a.io'' @ [CHR 0x0A] @ ''?'' @ [CHR 0x0A] @ [CHR 0x0A] @ ''-b'' in
     unat (prl_parse_errors (parse t)) = 2 \<and> map unat (prl_parse_error_lines (parse t)) = [2, 4])"
proof -
  let ?t = "''a.io'' @ [CHR 0x0A] @ ''?'' @ [CHR 0x0A] @ [CHR 0x0A] @ ''-b''"
  have l: "lines ?t = [''a.io'', ''?'', [], ''-b'']" by code_simp
  then have "length (lines ?t) < 2 ^ 32" by simp
  moreover have "rejected_at (format_rejects (detect_format ?t)) 0 (lines ?t) = [1, 3]"
    by code_simp
  ultimately show ?thesis using parse_error_report [of ?t] by (simp add: Let_def)
qed

end
