(* ===== verification/Probe.thy ===== *)
theory Probe
  imports Prelude "HOL-Library.Multiset"
begin

text \<open>
  Open addressing with linear probing, as the compiled domain table, its deduplication index and
  the URL tier's bucket table use it: a table of entries with one reserved blank value, a home
  slot per entry, and walks that start at a home slot and stop at the first blank one.

  \<open>probe\<close> is such a walk. Its step may panic (\<open>None\<close>), leave the walk with a result (\<open>Inl\<close>)
  or go on with a new state (\<open>Inr\<close>). It runs on fuel: a walk over a table with no blank slot
  does not end, and one with an blank slot visits at most every slot once, so the length of the
  table is enough.
\<close>

section \<open>Walks\<close>

definition next_slot :: "nat \<Rightarrow> nat \<Rightarrow> nat" where
  "next_slot cap slot = (if slot + 1 = cap then 0 else slot + 1)"

fun probe ::
  "nat \<Rightarrow> 'e \<Rightarrow> 'e list \<Rightarrow> ('e \<Rightarrow> 's \<Rightarrow> ('r + 's) option) \<Rightarrow> nat \<Rightarrow> 's \<Rightarrow> ('r + (nat \<times> 's)) option"
where
  "probe 0 blank table step slot s = None"
| "probe (Suc fuel) blank table step slot s =
     (case index_at table slot of
        None \<Rightarrow> None
      | Some e \<Rightarrow>
          if e = blank then Some (Inr (slot, s))
          else (case step e s of
             None \<Rightarrow> None
           | Some (Inl r) \<Rightarrow> Some (Inl r)
           | Some (Inr s') \<Rightarrow> probe fuel blank table step (next_slot (length table) slot) s'))"

text \<open>The entries a walk from \<open>slot\<close> meets, in order, and a fold over them that can exit.\<close>

definition run :: "'e \<Rightarrow> 'e list \<Rightarrow> nat \<Rightarrow> 'e list" where
  "run blank table slot = takeWhile (\<lambda>e. e \<noteq> blank) (rotate slot table)"

fun fold_exit :: "('e \<Rightarrow> 's \<Rightarrow> ('r + 's) option) \<Rightarrow> 'e list \<Rightarrow> 's \<Rightarrow> ('r + 's) option" where
  "fold_exit step [] s = Some (Inr s)"
| "fold_exit step (e # es) s =
     (case step e s of
        None \<Rightarrow> None | Some (Inl r) \<Rightarrow> Some (Inl r) | Some (Inr s') \<Rightarrow> fold_exit step es s')"

lemma next_slot_less: "slot < cap \<Longrightarrow> next_slot cap slot < cap"
  by (auto simp: next_slot_def)

lemma rotate_next: "slot < length T \<Longrightarrow> rotate (next_slot (length T) slot) T = rotate (Suc slot) T"
proof -
  assume "slot < length T"
  then have "next_slot (length T) slot = Suc slot mod length T"
    by (auto simp: next_slot_def)
  then show ?thesis by (metis rotate_conv_mod)
qed

lemma rotate_Cons:
  assumes "slot < length T"
  shows "rotate slot T = T ! slot # take (length T - 1) (rotate (Suc slot) T)"
proof -
  obtain x xs where x: "rotate slot T = x # xs" using assms by (cases "rotate slot T") auto
  then have "rotate (Suc slot) T = xs @ [x]" by simp
  moreover have "x = T ! slot"
    using assms x hd_rotate_conv_nth [of T slot] by (cases T) auto
  moreover have "length xs = length T - 1" using x by (metis length_rotate length_tl list.sel(3))
  ultimately show ?thesis using x by simp
qed

lemma probe_run:
  assumes "slot < length T" "n \<le> length T" "blank \<in> set (take n (rotate slot T))"
  shows "probe n blank T step slot s =
    (case fold_exit step (takeWhile (\<lambda>e. e \<noteq> blank) (take n (rotate slot T))) s of
       None \<Rightarrow> None | Some (Inl r) \<Rightarrow> Some (Inl r)
     | Some (Inr s') \<Rightarrow>
         Some (Inr ((slot + length (takeWhile (\<lambda>e. e \<noteq> blank) (take n (rotate slot T)))) mod length T, s')))"
  using assms
proof (induction n arbitrary: slot s)
  case (Suc n)
  let ?next = "next_slot (length T) slot"
  let ?rest = "takeWhile (\<lambda>e. e \<noteq> blank) (take n (rotate ?next T))"
  have r: "take (Suc n) (rotate slot T) = T ! slot # take n (rotate ?next T)"
  proof -
    have "take (Suc n) (rotate slot T) = T ! slot # take n (take (length T - 1) (rotate (Suc slot) T))"
      using rotate_Cons [OF Suc.prems(1)] by (metis take_Suc_Cons)
    also have "take n (take (length T - 1) (rotate (Suc slot) T)) = take n (rotate (Suc slot) T)"
    proof -
      have "min n (length T - 1) = n" using Suc.prems(2) by linarith
      then show ?thesis by simp
    qed
    finally show ?thesis using rotate_next [OF Suc.prems(1)] by metis
  qed
  have at: "index_at T slot = Some (T ! slot)" using Suc.prems(1) by (simp add: index_at_def)
  show ?case
  proof (cases "T ! slot = blank")
    case True
    with Suc.prems(1) at r show ?thesis by simp
  next
    case False
    then have e: "blank \<in> set (take n (rotate ?next T))" using Suc.prems(3) r by auto
    have pos: "(slot + Suc k) mod length T = (?next + k) mod length T" for k
    proof (cases "Suc slot = length T")
      case True
      then have "slot + Suc k = k + length T" by simp
      then show ?thesis using True by (simp only: mod_add_self2) (simp add: next_slot_def)
    qed (simp add: next_slot_def)
    have IH: "probe n blank T step ?next s' =
        (case fold_exit step ?rest s' of
           None \<Rightarrow> None | Some (Inl r) \<Rightarrow> Some (Inl r)
         | Some (Inr s') \<Rightarrow> Some (Inr ((?next + length ?rest) mod length T, s')))" for s'
      using Suc.IH [OF next_slot_less [OF Suc.prems(1)] _ e] Suc.prems(2) by simp
    have tw: "takeWhile (\<lambda>e. e \<noteq> blank) (take (Suc n) (rotate slot T)) = T ! slot # ?rest"
      using False r by simp
    show ?thesis
      unfolding tw using False at IH pos [of "length ?rest"]
      by (simp split: option.splits sum.splits)
  qed
qed simp

text \<open>Enough fuel: a table with an blank slot.\<close>

lemma probe_total:
  assumes "slot < length T" "blank \<in> set T"
  shows "probe (length T) blank T step slot s =
    (case fold_exit step (run blank T slot) s of
       None \<Rightarrow> None | Some (Inl r) \<Rightarrow> Some (Inl r)
     | Some (Inr s') \<Rightarrow> Some (Inr ((slot + length (run blank T slot)) mod length T, s')))"
proof -
  have all: "take (length T) (rotate slot T) = rotate slot T" by simp
  show ?thesis
    unfolding run_def using probe_run [of slot T "length T" blank step s, unfolded all] assms by simp
qed

lemma fold_exit_filter:
  assumes "\<And>e s. e \<in> set es \<Longrightarrow> \<not> P e \<Longrightarrow> step e s = Some (Inr s)"
  shows "fold_exit step es s = fold_exit step (filter P es) s"
  using assms by (induction es arbitrary: s) (auto split: option.splits sum.splits)

lemma fold_exit_cong:
  "(\<And>e s. e \<in> set es \<Longrightarrow> step e s = step' e s) \<Longrightarrow> fold_exit step es s = fold_exit step' es s"
  by (induction es arbitrary: s) (auto split: option.splits sum.splits)

lemma fold_exit_map: "fold_exit step (map f es) s = fold_exit (\<lambda>e. step (f e)) es s"
  by (induction es arbitrary: s) (auto split: option.splits sum.splits)

lemma fold_exit_skip: "fold_exit (\<lambda>_ s. Some (Inr s)) es s = Some (Inr s)"
  by (induction es) auto

section \<open>Insertion\<close>

text \<open>The walk that looks for the first blank slot and the write that follows it.\<close>

definition find_vacant :: "'e \<Rightarrow> 'e list \<Rightarrow> nat \<Rightarrow> nat option" where
  "find_vacant blank table slot =
     (case probe (length table) blank table (\<lambda>_ s. Some (Inr s)) slot () of
        Some (Inr (slot, _)) \<Rightarrow> Some slot
      | Some (Inl (_ :: unit)) \<Rightarrow> None
      | None \<Rightarrow> None)"

definition insert_probe :: "'e \<Rightarrow> 'e list \<Rightarrow> nat \<Rightarrow> 'e \<Rightarrow> 'e list option" where
  "insert_probe blank table slot e = map_option (\<lambda>v. table[v := e]) (find_vacant blank table slot)"

lemma find_vacant_run:
  assumes "slot < length T" "blank \<in> set T"
  shows "find_vacant blank T slot = Some ((slot + length (run blank T slot)) mod length T)"
  unfolding find_vacant_def probe_total [OF assms] fold_exit_skip by simp

text \<open>
  What a table built by insertions guarantees, relative to the entries in insertion order: it
  holds exactly them, and the walk from any slot meets the entries with that home in insertion
  order, however collisions displaced them.
\<close>

definition table_inv :: "'e \<Rightarrow> (nat \<Rightarrow> 'e \<Rightarrow> nat) \<Rightarrow> 'e list \<Rightarrow> 'e list \<Rightarrow> bool" where
  "table_inv blank home T xs \<longleftrightarrow>
     mset (filter (\<lambda>e. e \<noteq> blank) T) = mset xs \<and>
     (\<forall>h < length T. filter (\<lambda>e. home (length T) e = h) (run blank T h)
                    = filter (\<lambda>e. home (length T) e = h) xs)"

text \<open>Writing an entry into an empty slot extends the walks that end there, and no other.\<close>

lemma takeWhile_update:
  assumes "j < length R" "R ! j = blank" "e \<noteq> blank"
  shows "takeWhile (\<lambda>x. x \<noteq> blank) (R[j := e]) =
    (let k = length (takeWhile (\<lambda>x. x \<noteq> blank) R)
     in if j = k
        then takeWhile (\<lambda>x. x \<noteq> blank) R @ e # takeWhile (\<lambda>x. x \<noteq> blank) (drop (Suc k) R)
        else takeWhile (\<lambda>x. x \<noteq> blank) R)"
  using assms
proof (induction R arbitrary: j)
  case (Cons x R)
  then show ?case by (cases j) (auto simp: Let_def)
qed simp

lemma run_length:
  assumes "blank \<in> set T"
  shows "length (run blank T h) < length T"
    and "rotate h T ! length (run blank T h) = blank"
proof -
  have b: "blank \<in> set (rotate h T)" using assms by simp
  have "length (takeWhile (\<lambda>x. x \<noteq> blank) R) < length R" if "blank \<in> set R" for R
    using that by (induction R) auto
  from this [OF b] have l: "length (takeWhile (\<lambda>x. x \<noteq> blank) (rotate h T)) < length (rotate h T)" .
  then show "length (run blank T h) < length T" by (simp add: run_def)
  show "rotate h T ! length (run blank T h) = blank"
    using nth_length_takeWhile [OF l] by (simp add: run_def)
qed

lemma add_mod_inj:
  fixes i j :: nat
  assumes "(h + i) mod n = (h + j) mod n" "i < n" "j < n"
  shows "i = j"
proof -
  obtain p q where "h + i + n * p = h + j + n * q"
    using assms(1) unfolding nat_mod_eq_iff by blast
  then have "i + n * p = j + n * q" by simp
  then have "i mod n = j mod n" unfolding nat_mod_eq_iff by blast
  with assms show ?thesis by simp
qed

lemma rotate_update:
  assumes "j < length T"
  shows "rotate h (T[(h + j) mod length T := e]) = (rotate h T)[j := e]"
proof (rule nth_equalityI)
  fix i assume "i < length (rotate h (T[(h + j) mod length T := e]))"
  then have i: "i < length T" by simp
  then have l: "(h + i) mod length T < length T" by (intro mod_less_divisor) linarith
  have "(h + i) mod length T = (h + j) mod length T \<longleftrightarrow> i = j"
    using add_mod_inj [of h i "length T" j] i assms by auto
  with i l assms show "rotate h (T[(h + j) mod length T := e]) ! i = (rotate h T)[j := e] ! i"
    by (auto simp: nth_rotate nth_list_update)
qed simp

lemma run_update:
  assumes "h < length T" "v < length T" "T ! v = blank" "e \<noteq> blank"
  shows "run blank (T[v := e]) h =
    (if v = (h + length (run blank T h)) mod length T
     then run blank T h @ e # takeWhile (\<lambda>x. x \<noteq> blank)
            (drop (Suc (length (run blank T h))) (rotate h T))
     else run blank T h)"
proof -
  let ?n = "length T" and ?k = "length (run blank T h)"
  define j where "j = (v + ?n - h) mod ?n"
  have j: "j < ?n" "(h + j) mod ?n = v"
  proof -
    show "j < ?n" unfolding j_def using assms(1) by (intro mod_less_divisor) linarith
    have "(h + j) mod ?n = (h + (v + ?n - h)) mod ?n" unfolding j_def by (rule mod_add_right_eq)
    also have "\<dots> = v" using assms(1,2) by simp
    finally show "(h + j) mod ?n = v" .
  qed
  have at: "rotate h T ! j = blank" using j assms(3) by (simp add: nth_rotate)
  have "v = (h + ?k) mod ?n \<longleftrightarrow> j = ?k"
  proof
    assume v: "v = (h + ?k) mod ?n"
    have "blank \<in> set T" using assms(2,3) by (metis nth_mem)
    then have "?k < ?n" by (rule run_length)
    then show "j = ?k" using add_mod_inj [of h j ?n ?k] j v by simp
  qed (use j in simp)
  moreover have "run blank (T[v := e]) h = takeWhile (\<lambda>x. x \<noteq> blank) ((rotate h T)[j := e])"
    using rotate_update [OF j(1), of h e] j(2) by (simp add: run_def)
  ultimately show ?thesis
    using takeWhile_update [of j "rotate h T" blank e] j(1) at assms(4)
    by (simp add: run_def Let_def)
qed

locale probe_table =
  fixes blank :: "'e" and home :: "nat \<Rightarrow> 'e \<Rightarrow> nat"
  assumes home_less: "0 < cap \<Longrightarrow> home cap e < cap"
begin

lemma inv_empty: "table_inv blank home (replicate n blank) []"
proof -
  have "run blank (replicate n blank) h = []" for h
  proof (cases "rotate h (replicate n blank)")
    case (Cons x xs)
    then have "x \<in> set (replicate n blank)" by (metis list.set_intros(1) set_rotate)
    then show ?thesis using Cons by (simp add: run_def)
  qed (simp add: run_def)
  then show ?thesis by (simp add: table_inv_def)
qed

lemma has_blank:
  assumes "table_inv blank home T xs" "length xs < length T"
  shows "blank \<in> set T"
proof (rule ccontr)
  assume "blank \<notin> set T"
  then have "filter (\<lambda>e. e \<noteq> blank) T = T" by (intro filter_True) auto
  with assms show False unfolding table_inv_def by (metis nat_neq_iff size_mset)
qed

text \<open>Nothing with home \<open>h\<close> lies beyond the walk from \<open>h\<close>.\<close>

lemma beyond_run:
  assumes "table_inv blank home T xs" "h < length T"
  shows "filter (\<lambda>e. e \<noteq> blank \<and> home (length T) e = h) (drop (length (run blank T h)) (rotate h T)) = []"
proof -
  let ?P = "\<lambda>e. e \<noteq> blank \<and> home (length T) e = h" and ?k = "length (run blank T h)"
  have run: "run blank T h = take ?k (rotate h T)"
    unfolding run_def by (rule takeWhile_eq_take)
  have split: "rotate h T = run blank T h @ drop ?k (rotate h T)"
    by (metis append_take_drop_id run)
  have ne: "filter ?P (run blank T h) = filter (\<lambda>e. home (length T) e = h) (run blank T h)"
    by (intro filter_cong) (auto simp: run_def dest: set_takeWhileD)
  have "mset (filter ?P (rotate h T)) = mset (filter ?P T)"
  proof -
    have "mset (rotate h T) = mset T"
      by (metis append_take_drop_id mset_append rotate_drop_take union_commute)
    then show ?thesis by (simp add: mset_filter)
  qed
  also have "\<dots> = filter_mset (\<lambda>e. home (length T) e = h) (mset (filter (\<lambda>e. e \<noteq> blank) T))"
    by (simp add: mset_filter filter_filter_mset conj_commute)
  also have "\<dots> = mset (filter (\<lambda>e. home (length T) e = h) xs)"
    using assms(1) by (simp add: table_inv_def mset_filter)
  also have "\<dots> = mset (filter ?P (run blank T h))"
    using assms by (simp add: table_inv_def ne)
  finally have "mset (filter ?P (rotate h T)) = mset (filter ?P (run blank T h))" .
  moreover have "filter ?P (rotate h T) = filter ?P (run blank T h) @ filter ?P (drop ?k (rotate h T))"
    by (metis filter_append split)
  ultimately show ?thesis by simp
qed

lemma inv_insert:
  assumes inv: "table_inv blank home T xs" and room: "length xs < length T" and e: "e \<noteq> blank"
  shows "\<exists>T'. insert_probe blank T (home (length T) e) e = Some T'
     \<and> table_inv blank home T' (xs @ [e]) \<and> length T' = length T"
proof -
  let ?n = "length T" and ?s = "home (length T) e"
  let ?v = "(?s + length (run blank T ?s)) mod ?n"
  have n: "0 < ?n" using room by linarith
  have s: "?s < ?n" using n by (rule home_less)
  have b: "blank \<in> set T" using inv room by (rule has_blank)
  have vac: "find_vacant blank T ?s = Some ?v" using s b by (rule find_vacant_run)
  have v: "?v < ?n" using n by (rule mod_less_divisor)
  have Tv: "T ! ?v = blank"
  proof -
    have k: "length (run blank T ?s) < ?n" "rotate ?s T ! length (run blank T ?s) = blank"
      using run_length [OF b] by simp_all
    with k show ?thesis by (simp add: nth_rotate)
  qed
  have mset: "mset (filter (\<lambda>x. x \<noteq> blank) (T[?v := e])) = mset (xs @ [e])"
  proof -
    have "mset (T[?v := e]) = add_mset e (mset T - {#blank#})"
      using mset_update [OF v, of e] Tv by simp
    then have "mset (filter (\<lambda>x. x \<noteq> blank) (T[?v := e]))
        = add_mset e (filter_mset (\<lambda>x. x \<noteq> blank) (mset T))"
      using e by (simp add: mset_filter filter_diff_mset)
    then show ?thesis using inv by (simp add: table_inv_def mset_filter)
  qed
  have "filter (\<lambda>x. home ?n x = h) (run blank (T[?v := e]) h) = filter (\<lambda>x. home ?n x = h) (xs @ [e])"
    if h: "h < ?n" for h
  proof -
    let ?P = "\<lambda>x. home ?n x = h" and ?k = "length (run blank T h)"
    have old: "filter ?P (run blank T h) = filter ?P xs" using inv h by (simp add: table_inv_def)
    have "filter ?P (takeWhile (\<lambda>x. x \<noteq> blank) (drop (Suc ?k) (rotate h T))) = []"
    proof -
      have "set (takeWhile (\<lambda>x. x \<noteq> blank) (drop (Suc ?k) (rotate h T)))
          \<subseteq> {x \<in> set (drop ?k (rotate h T)). x \<noteq> blank}"
        using set_drop_subset_set_drop [of ?k "Suc ?k" "rotate h T"]
        by (auto dest!: set_takeWhileD)
      then show ?thesis using beyond_run [OF inv h] by (auto simp: filter_empty_conv)
    qed
    moreover have "?v = (h + ?k) mod ?n" if "h = ?s" using that by simp
    ultimately show ?thesis
      using old by (auto simp: run_update [OF h v Tv e])
  qed
  with mset vac show ?thesis
    by (simp add: insert_probe_def table_inv_def)
qed

text \<open>Filling a table from empty.\<close>

lemma inv_insert_all:
  assumes "\<forall>e\<in>set es. e \<noteq> blank" "table_inv blank home T xs" "length xs + length es < length T"
  shows "\<exists>T'. try_fold (\<lambda>e T. insert_probe blank T (home (length T) e) e) es T = Some T'
     \<and> table_inv blank home T' (xs @ es) \<and> length T' = length T"
  using assms
proof (induction es arbitrary: T xs)
  case (Cons e es)
  obtain T1 where T1: "insert_probe blank T (home (length T) e) e = Some T1"
    "table_inv blank home T1 (xs @ [e])" "length T1 = length T"
    using inv_insert [of T xs e] Cons.prems by auto
  from Cons.IH [of T1 "xs @ [e]"] Cons.prems T1 show ?case by auto
qed auto

lemma run_subset:
  assumes "table_inv blank home T xs"
  shows "set (run blank T h) \<subseteq> set xs"
proof -
  have "set (run blank T h) \<subseteq> {e \<in> set T. e \<noteq> blank}"
    by (auto simp: run_def dest: set_takeWhileD)
  also have "\<dots> = set (filter (\<lambda>e. e \<noteq> blank) T)" by auto
  also have "\<dots> = set xs" using assms by (metis mset_eq_setD table_inv_def)
  finally show ?thesis .
qed

text \<open>What a lookup meets: entries with the wanted key, in insertion order.\<close>

lemma run_select:
  assumes "table_inv blank home T xs" "h < length T" "\<And>e. e \<in> set xs \<Longrightarrow> P e \<Longrightarrow> home (length T) e = h"
  shows "filter P (run blank T h) = filter P xs"
proof -
  have sub: "set (run blank T h) \<subseteq> set xs" using assms(1) by (rule run_subset)
  have "filter P (run blank T h) = filter P (filter (\<lambda>e. home (length T) e = h) (run blank T h))"
    using sub assms(3) by (auto simp: filter_filter intro!: filter_cong)
  also have "\<dots> = filter P (filter (\<lambda>e. home (length T) e = h) xs)"
    using assms(1,2) by (simp add: table_inv_def)
  also have "\<dots> = filter P xs" using assms(3) by (auto simp: filter_filter intro!: filter_cong)
  finally show ?thesis .
qed

end

end
