(* ===== verification/Hashing.thy ===== *)
theory Hashing
  imports Policy Probe
begin

text \<open>
  What the two tiers of the compiled matcher share (\<open>fah-rules/src/matcher.rs\<close>): FNV-1a hashing,
  the range reduction that turns a hash into a home slot, the packing of a hash tag and a record
  index into one slot word, the table sizes, and the context a lookup is made in. Both open
  addressing tables are instances of the contract of \<open>Probe\<close>, interpreted here.
\<close>

section \<open>Hashes\<close>

definition FNV_PRIME :: u64 where
  "FNV_PRIME = 0x100000001b3"

definition byte64 :: "char \<Rightarrow> u64" where
  "byte64 c = word_of_int (byte c)"

definition fnv_step :: "u64 \<Rightarrow> char \<Rightarrow> u64" where
  "fnv_step h b = (h XOR byte64 b) * FNV_PRIME"

definition hash_domain :: "string \<Rightarrow> u64" where
  "hash_domain bytes = foldl (\<lambda>h b. fnv_step h (to_ascii_lowercase b)) 0xcbf29ce484222325 bytes"

definition hash_extend :: "u64 \<Rightarrow> string \<Rightarrow> u64" where
  "hash_extend h bytes = foldl fnv_step h bytes"

definition flag_byte :: "u8 \<Rightarrow> char" where
  "flag_byte b = char_of (uint b)"

definition identity_hash ::
  "string \<Rightarrow> u8 \<Rightarrow> string option \<Rightarrow> string option \<Rightarrow> string option \<Rightarrow> u64" where
  "identity_hash domain flags dns_types rewrite client =
     foldl (\<lambda>h raw. case raw of None \<Rightarrow> h | Some raw \<Rightarrow> hash_extend h raw)
       (hash_extend (hash_domain domain) [flag_byte flags]) [dns_types, rewrite, client]"

text \<open>\<open>hash as u128 * cap as u128\<close> does not overflow, and its high half is the slot.\<close>

definition fastrange :: "u64 \<Rightarrow> nat \<Rightarrow> nat" where
  "fastrange hash cap = nat (uint hash * int cap div 2 ^ 64)"

text \<open>Names that differ in ASCII case only share a hash.\<close>

lemma hash_domain_lower: "hash_domain (lower s) = hash_domain s"
  by (simp add: hash_domain_def foldl_map)

lemma hash_domain_cong:
  assumes "eq_ignore_ascii_case s t"
  shows "hash_domain s = hash_domain t"
proof -
  have "lower s = lower t" using assms by (simp add: eq_ignore_ascii_case_def)
  then show ?thesis using hash_domain_lower [of s] hash_domain_lower [of t] by simp
qed

lemma identity_hash_cong:
  assumes "eq_ignore_ascii_case s t"
  shows "identity_hash s = identity_hash t"
  using hash_domain_cong [OF assms] by (simp add: fun_eq_iff identity_hash_def)

lemma fastrange_less:
  assumes "0 < cap"
  shows "fastrange hash cap < cap"
proof -
  have div: "a div 18446744073709551616 < c" if "a < c * 18446744073709551616" for a c :: int
    using that by linarith
  have "uint hash < 18446744073709551616" using uint_lt2p [of hash] by simp
  then have "uint hash * int cap < int cap * 18446744073709551616"
    using assms by (simp add: mult.commute mult_strict_left_mono)
  from div [OF this] show ?thesis using assms by (simp add: fastrange_def nat_less_iff)
qed

section \<open>Slots\<close>

definition EMPTY :: u32 where
  "EMPTY = - 1"

definition INDEX_BITS :: nat where
  "INDEX_BITS = 24"

definition INDEX_MASK :: u32 where
  "INDEX_MASK = push_bit INDEX_BITS 1 - 1"

definition MAX_RECORDS :: int where
  "MAX_RECORDS = uint INDEX_MASK"

definition tag_of :: "u64 \<Rightarrow> u32" where
  "tag_of hash = ucast (hash AND 0xFF)"

definition pack_slot :: "u32 \<Rightarrow> u32 \<Rightarrow> u32" where
  "pack_slot tag index = push_bit INDEX_BITS tag OR index"

definition table_slots :: "nat \<Rightarrow> nat" where
  "table_slots entries = max (saturating_mul entries 10 div 7) 8"

definition dedup_slots :: "nat \<Rightarrow> nat" where
  "dedup_slots entries = max (saturating_mul entries 2) 8"

definition MAX_PREALLOC_RULES :: int where
  "MAX_PREALLOC_RULES = 4000000"

lemma INDEX_MASK_mask: "INDEX_MASK = mask 24"
  by (simp add: INDEX_MASK_def INDEX_BITS_def mask_eq_exp_minus_1 push_bit_eq_mult)

lemma MAX_RECORDS_eq: "MAX_RECORDS = 16777215"
  by (simp add: MAX_RECORDS_def INDEX_MASK_def INDEX_BITS_def push_bit_eq_mult)

lemma tag_of_bit: "bit (tag_of h) n \<Longrightarrow> n < 8"
proof -
  assume "bit (tag_of h) n"
  then have "bit (h AND 0xFF) n" by (simp add: tag_of_def bit_simps)
  moreover have "(0xFF :: u64) = mask 8" by (simp add: mask_eq_exp_minus_1)
  ultimately show "n < 8" by (simp add: bit_simps)
qed

lemma index_bit:
  assumes "uint (i :: u32) < MAX_RECORDS" "bit i n"
  shows "n < 24"
proof -
  have "uint i < 2 ^ 24" using assms(1) by (simp add: MAX_RECORDS_eq)
  then have "take_bit 24 (uint i) = uint i" by (simp add: take_bit_int_eq_self)
  moreover have "bit (uint i) n" using assms(2) bit_imp_le_length [OF assms(2)]
    by (simp add: bit_uint_iff)
  ultimately show ?thesis by (metis bit_take_bit_iff)
qed

lemma pack_slot_index:
  assumes "uint i < MAX_RECORDS"
  shows "pack_slot (tag_of h) i AND INDEX_MASK = i"
proof (rule bit_word_eqI)
  fix n assume "n < LENGTH(32)"
  then show "bit (pack_slot (tag_of h) i AND INDEX_MASK) n \<longleftrightarrow> bit i n"
    using index_bit [OF assms, of n]
    by (auto simp: pack_slot_def INDEX_MASK_mask INDEX_BITS_def bit_simps)
qed

lemma pack_slot_tag:
  assumes "uint i < MAX_RECORDS"
  shows "drop_bit INDEX_BITS (pack_slot (tag_of h) i) = tag_of h"
proof (rule bit_word_eqI)
  fix n assume "n < LENGTH(32)"
  then show "bit (drop_bit INDEX_BITS (pack_slot (tag_of h) i)) n \<longleftrightarrow> bit (tag_of h) n"
    using index_bit [OF assms, of "24 + n"] tag_of_bit [of h n]
    by (auto simp: pack_slot_def INDEX_BITS_def bit_simps)
qed

text \<open>The index never uses all of its 24 bits, so a packed slot is never the blank one.\<close>

lemma pack_slot_not_EMPTY:
  assumes "uint i < MAX_RECORDS"
  shows "pack_slot (tag_of h) i \<noteq> EMPTY"
proof
  assume "pack_slot (tag_of h) i = EMPTY"
  then have "i = EMPTY AND INDEX_MASK" using pack_slot_index [OF assms, of h] by simp
  then have "i = INDEX_MASK" by (simp add: EMPTY_def)
  then show False using assms by (simp add: MAX_RECORDS_def)
qed

lemma table_slots_room:
  assumes "int (n * 10) \<le> USIZE_MAX"
  shows "n < table_slots n"
proof -
  have "table_slots n = max (n * 10 div 7) 8"
    using saturating_mul_exact [OF assms] by (simp add: table_slots_def)
  then show ?thesis by linarith
qed

lemma dedup_slots_room:
  assumes "int (n * 2) \<le> USIZE_MAX"
  shows "n * 2 \<le> dedup_slots n" "0 < dedup_slots n"
  using saturating_mul_exact [OF assms] by (simp_all add: dedup_slots_def)

text \<open>The slot tables of both tiers and the deduplication index reduce a 64-bit key per entry.\<close>

interpretation probing: probe_table EMPTY "\<lambda>cap e. fastrange (key e) cap" for key :: "u32 \<Rightarrow> u64"
  by unfold_locales (rule fastrange_less)

section \<open>The context of a lookup\<close>

record client_context =
  ctx_policy :: policy_id
  ctx_ip :: "ip_addr option"
  ctx_name :: "string option"

definition default_context :: client_context where
  "default_context = \<lparr> ctx_policy = DEFAULT_POLICY, ctx_ip = None, ctx_name = None \<rparr>"

definition ctx_policy_bit :: "client_context \<Rightarrow> u16" where
  "ctx_policy_bit self = policy_bit (ctx_policy self)"

end
