(* ===== verification/Url_Pattern.thy ===== *)
theory Url_Pattern
  imports Hashing
begin

text \<open>
  The pattern matcher of the URL tier (\<open>fah-rules/src/url_matcher.rs\<close>): patterns of literal bytes,
  \<open>*\<close> (any run of bytes) and \<open>^\<close> (one separator, or the end of the URL), matched by an iterative
  two-pointer walk with a single backtrack point and a metered work allowance.

  The walk may panic on an index out of range, so a step is an \<open>option\<close>; and it is a loop, so its
  closure \<open>match_loop\<close> is a partial function whose \<open>None\<close> also covers not returning. It is shown
  to return on every input, and to decide the declarative relation \<open>wild\<close> whenever the allowance
  lasts.
\<close>

section \<open>The work allowance\<close>

definition LOOKUP_STEP_CAP :: int where
  "LOOKUP_STEP_CAP = 8000000"

definition saturating_add :: "int \<Rightarrow> int \<Rightarrow> int" where
  "saturating_add a b = min (a + b) USIZE_MAX"

definition rule_step_cap :: "nat \<Rightarrow> int" where
  "rule_step_cap url_len = saturating_add (int (saturating_mul url_len 2)) 64"

record budget =
  bu_remaining :: int
  bu_floor :: int
  bu_exhausted :: bool

definition budget_new :: budget where
  "budget_new = \<lparr> bu_remaining = LOOKUP_STEP_CAP, bu_floor = 0, bu_exhausted = False \<rparr>"

definition budget_open :: "budget \<Rightarrow> nat \<Rightarrow> budget" where
  "budget_open self url_len =
     self\<lparr> bu_floor := max 0 (bu_remaining self - rule_step_cap url_len) \<rparr>"

definition spend :: "budget \<Rightarrow> bool \<times> budget" where
  "spend self =
     (if bu_remaining self \<le> bu_floor self then (False, self\<lparr> bu_exhausted := True \<rparr>)
      else (True, self\<lparr> bu_remaining := bu_remaining self - 1 \<rparr>))"

section \<open>Bytes\<close>

definition is_token_byte :: "char \<Rightarrow> bool" where
  "is_token_byte b \<longleftrightarrow> is_ascii_alphanumeric b \<or> b = CHR ''_'' \<or> b = CHR ''%''"

definition is_separator :: "char \<Rightarrow> bool" where
  "is_separator b \<longleftrightarrow>
     \<not> (is_ascii_alphanumeric b \<or> b = CHR ''_'' \<or> b = CHR ''-'' \<or> b = CHR ''.'' \<or> b = CHR ''%'')"

definition byte_matches :: "char \<Rightarrow> char \<Rightarrow> bool \<Rightarrow> bool" where
  "byte_matches pattern_byte text_byte match_case =
     (if match_case then pattern_byte = text_byte
      else pattern_byte = to_ascii_lowercase text_byte)"

text \<open>
  The crate \<open>memchr\<close> is a parameter: the first position of one byte, or of either of two.
  \<open>memchr_ok\<close> states its documented behaviour.
\<close>

record memchr_lib =
  memchr :: "char \<Rightarrow> string \<Rightarrow> nat option"
  memchr2 :: "char \<Rightarrow> char \<Rightarrow> string \<Rightarrow> nat option"

definition memchr_ok :: "memchr_lib \<Rightarrow> bool" where
  "memchr_ok lib \<longleftrightarrow>
     (\<forall>n hay. memchr lib n hay = position (\<lambda>b. b = n) hay) \<and>
     (\<forall>n1 n2 hay. memchr2 lib n1 n2 hay = position (\<lambda>b. b = n1 \<or> b = n2) hay)"

definition memchr_scalar :: memchr_lib where
  "memchr_scalar =
     \<lparr> memchr = (\<lambda>n hay. position (\<lambda>b. b = n) hay),
       memchr2 = (\<lambda>n1 n2 hay. position (\<lambda>b. b = n1 \<or> b = n2) hay) \<rparr>"

lemma memchr_scalar_ok: "memchr_ok memchr_scalar"
  by (simp add: memchr_ok_def memchr_scalar_def)

definition find_byte :: "memchr_lib \<Rightarrow> string \<Rightarrow> nat \<Rightarrow> char \<Rightarrow> bool \<Rightarrow> nat option" where
  "find_byte lib text from pattern_byte match_case =
     (if length text < from then None
      else let rest = drop from text
        in map_option (\<lambda>at. from + at)
             (if \<not> match_case \<and> is_ascii_lowercase pattern_byte
              then memchr2 lib pattern_byte (to_ascii_uppercase pattern_byte) rest
              else memchr lib pattern_byte rest))"

section \<open>The walk\<close>

text \<open>The locals of the loop: pattern position, text position, backtrack point.\<close>

record walk =
  w_p :: nat
  w_t :: nat
  w_star :: "(nat \<times> nat) option"

text \<open>The tail of the loop body: widen the last \<open>*\<close>, or give up.\<close>

definition widen ::
  "memchr_lib \<Rightarrow> string \<Rightarrow> string \<Rightarrow> bool \<Rightarrow> walk \<Rightarrow> budget \<Rightarrow> (bool + walk) \<times> budget" where
  "widen lib pattern text match_case w b =
     (case w_star w of
        None \<Rightarrow> (Inl False, b)
      | Some (after, tried) \<Rightarrow>
          if tried < length text then
            (let (ok, b) = spend b
             in if \<not> ok then (Inl False, b)
                else let resume = (\<lambda>n. Inr \<lparr> w_p = after, w_t = n, w_star = Some (after, n) \<rparr>)
                  in (case index_at pattern after of
                        None \<Rightarrow> (resume (tried + 1), b)
                      | Some literal \<Rightarrow>
                          if literal \<noteq> CHR ''*'' \<and> literal \<noteq> CHR ''^'' then
                            (case find_byte lib text (tried + 1) literal match_case of
                               Some at \<Rightarrow> (resume at, b)
                             | None \<Rightarrow> (Inl False, b))
                          else (resume (tried + 1), b)))
          else (Inl False, b))"

definition match_step ::
  "memchr_lib \<Rightarrow> string \<Rightarrow> string \<Rightarrow> bool \<Rightarrow> bool \<Rightarrow> walk \<Rightarrow> budget \<Rightarrow> ((bool + walk) \<times> budget) option"
where
  "match_step lib pattern text end_anchored match_case w b =
     (let p = w_p w; t = w_t w
      in if p = length pattern then
           (if \<not> end_anchored \<or> t = length text then Some (Inl True, b)
            else Some (widen lib pattern text match_case w b))
         else case index_at pattern p of
           None \<Rightarrow> None
         | Some pb \<Rightarrow>
             if pb = CHR ''*'' then
               Some (Inr (w\<lparr> w_star := Some (p + 1, t), w_p := p + 1 \<rparr>), b)
             else if pb = CHR ''^'' then
               (if t = length text then Some (Inr (w\<lparr> w_p := p + 1 \<rparr>), b)
                else case index_at text t of
                  None \<Rightarrow> None
                | Some tb \<Rightarrow>
                    if is_separator tb then Some (Inr (w\<lparr> w_p := p + 1, w_t := t + 1 \<rparr>), b)
                    else Some (widen lib pattern text match_case w b))
             else if t < length text \<and> byte_matches pb (text ! t) match_case then
               Some (Inr (w\<lparr> w_p := p + 1, w_t := t + 1 \<rparr>), b)
             else Some (widen lib pattern text match_case w b))"

partial_function (option) match_loop ::
  "memchr_lib \<Rightarrow> string \<Rightarrow> string \<Rightarrow> bool \<Rightarrow> bool \<Rightarrow> walk \<Rightarrow> budget \<Rightarrow> (bool \<times> budget) option"
where
  [code]: "match_loop lib pattern text end_anchored match_case w b =
     (case match_step lib pattern text end_anchored match_case w b of
        None \<Rightarrow> None
      | Some (r, b) \<Rightarrow>
          (case r of
             Inl result \<Rightarrow> Some (result, b)
           | Inr w \<Rightarrow> match_loop lib pattern text end_anchored match_case w b))"

definition match_from ::
  "memchr_lib \<Rightarrow> string \<Rightarrow> string \<Rightarrow> nat \<Rightarrow> bool \<Rightarrow> bool \<Rightarrow> budget \<Rightarrow> (bool \<times> budget) option" where
  "match_from lib pattern text start end_anchored match_case b =
     (let (ok, b) = spend b
      in if \<not> ok then Some (False, b)
         else match_loop lib pattern text end_anchored match_case
                \<lparr> w_p = 0, w_t = start, w_star = None \<rparr> b)"

section \<open>What a pattern matches\<close>

text \<open>\<open>wild ea mc pattern text\<close>: the pattern matches a prefix of the text, all of it when it is
  end-anchored.\<close>

fun wild :: "bool \<Rightarrow> bool \<Rightarrow> string \<Rightarrow> string \<Rightarrow> bool" where
  "wild ea mc [] ts \<longleftrightarrow> \<not> ea \<or> ts = []"
| "wild ea mc (c # ps) ts \<longleftrightarrow>
     (if c = CHR ''*'' then list_ex (wild ea mc ps) (suffixes ts)
      else if c = CHR ''^'' then
        (case ts of [] \<Rightarrow> wild ea mc ps [] | x # xs \<Rightarrow> is_separator x \<and> wild ea mc ps xs)
      else (case ts of [] \<Rightarrow> False | x # xs \<Rightarrow> byte_matches c x mc \<and> wild ea mc ps xs))"

lemma wild_star: "wild ea mc (CHR ''*'' # ps) ts \<longleftrightarrow> (\<exists>k\<le>length ts. wild ea mc ps (drop k ts))"
proof -
  have "suffix xs ts \<longleftrightarrow> (\<exists>k\<le>length ts. xs = drop k ts)" for xs
  proof
    assume "suffix xs ts"
    then obtain zs where "ts = zs @ xs" by (auto simp: suffix_def)
    then have "xs = drop (length zs) ts" "length zs \<le> length ts" by auto
    then show "\<exists>k\<le>length ts. xs = drop k ts" by blast
  qed (auto simp: suffix_drop)
  then show ?thesis by (simp add: list_ex_iff Bex_def) blast
qed

text \<open>A stretch without \<open>*\<close> is deterministic: from a position it fails or ends at one position,
  and starting later does not end earlier.\<close>

fun seg_run :: "string \<Rightarrow> bool \<Rightarrow> string \<Rightarrow> nat \<Rightarrow> nat option" where
  "seg_run text mc [] t = Some t"
| "seg_run text mc (c # cs) t =
     (if c = CHR ''^'' \<and> length text \<le> t then seg_run text mc cs t
      else if t < length text \<and>
              (if c = CHR ''^'' then is_separator (text ! t) else byte_matches c (text ! t) mc)
      then seg_run text mc cs (t + 1) else None)"

lemma seg_run_append:
  "seg_run text mc (xs @ ys) t = Option.bind (seg_run text mc xs t) (seg_run text mc ys)"
  by (induction xs arbitrary: t) auto

lemma seg_run_bounds:
  "seg_run text mc cs t = Some e \<Longrightarrow> t \<le> length text \<Longrightarrow> t \<le> e \<and> e \<le> length text"
  by (induction cs arbitrary: t) (fastforce split: if_splits)+

lemma seg_run_mono:
  assumes "seg_run text mc cs i = Some e" "seg_run text mc cs j = Some f" "i \<le> j" "j \<le> length text"
  shows "e \<le> f"
  using assms
proof (induction cs arbitrary: i j)
  case (Cons c cs)
  show ?case
  proof (cases "c = CHR ''^'' \<and> length text \<le> j")
    case True
    then have j: "j = length text" "seg_run text mc cs j = Some f" using Cons.prems by auto
    obtain i' where "seg_run text mc cs i' = Some e" "i' \<le> j"
      using Cons.prems j(1) by (auto split: if_splits)
    with Cons.IH [OF _ j(2)] j(1) show ?thesis by simp
  next
    case False
    then have j: "j < length text" "seg_run text mc cs (j + 1) = Some f"
      using Cons.prems by (auto split: if_splits)
    moreover have "seg_run text mc cs (i + 1) = Some e"
      using Cons.prems j(1) by (auto split: if_splits)
    ultimately show ?thesis using Cons.IH [of "i + 1" "j + 1"] Cons.prems(3) by simp
  qed
qed simp

lemma drop_cons: "t < length ts \<Longrightarrow> drop t ts = ts ! t # drop (Suc t) ts"
  by (rule Cons_nth_drop_Suc [symmetric])

lemma wild_seg:
  assumes "CHR ''*'' \<notin> set cs" "t \<le> length text"
  shows "wild ea mc (cs @ rest) (drop t text) \<longleftrightarrow>
    (\<exists>e. seg_run text mc cs t = Some e \<and> wild ea mc rest (drop e text))"
  using assms
proof (induction cs arbitrary: t)
  case (Cons c cs)
  show ?case
  proof (cases "t < length text")
    case True
    with Cons show ?thesis by (auto simp: drop_cons)
  next
    case False
    then have "drop t text = []" "t = length text" using Cons.prems by auto
    with Cons.IH [of t] Cons.prems show ?thesis by auto
  qed
qed simp

section \<open>The walk decides the relation\<close>

text \<open>The loop invariant: the stretch after the last \<open>*\<close> has been matched from the position that
  \<open>*\<close> was last tried at.\<close>

definition walk_ok :: "string \<Rightarrow> string \<Rightarrow> bool \<Rightarrow> walk \<Rightarrow> bool" where
  "walk_ok pattern text mc w \<longleftrightarrow>
     w_p w \<le> length pattern \<and> w_t w \<le> length text \<and>
     (case w_star w of None \<Rightarrow> True
      | Some (after, tried) \<Rightarrow>
          after \<le> w_p w \<and> tried \<le> length text \<and>
          (let seg = take (w_p w - after) (drop after pattern)
           in CHR ''*'' \<notin> set seg \<and> seg_run text mc seg tried = Some (w_t w)))"

text \<open>What is left to find: a match of the rest from here, or one from a later try of the \<open>*\<close>.\<close>

definition later :: "string \<Rightarrow> string \<Rightarrow> bool \<Rightarrow> bool \<Rightarrow> walk \<Rightarrow> bool" where
  "later pattern text ea mc w \<longleftrightarrow>
     (\<exists>after tried k. w_star w = Some (after, tried) \<and> tried < k \<and> k \<le> length text \<and>
        wild ea mc (drop after pattern) (drop k text))"

definition open_match :: "string \<Rightarrow> string \<Rightarrow> bool \<Rightarrow> bool \<Rightarrow> walk \<Rightarrow> bool" where
  "open_match pattern text ea mc w \<longleftrightarrow>
     wild ea mc (drop (w_p w) pattern) (drop (w_t w) text) \<or> later pattern text ea mc w"

definition walk_measure :: "string \<Rightarrow> string \<Rightarrow> walk \<Rightarrow> nat \<times> nat \<times> nat" where
  "walk_measure pattern text w =
     (case w_star w of None \<Rightarrow> Suc (length pattern) | Some (after, _) \<Rightarrow> length pattern - after,
      case w_star w of None \<Rightarrow> 0 | Some (_, tried) \<Rightarrow> length text - tried,
      length pattern - w_p w)"

definition walk_order :: "((nat \<times> nat \<times> nat) \<times> (nat \<times> nat \<times> nat)) set" where
  "walk_order = less_than <*lex*> less_than <*lex*> less_than"

lemma wf_walk_order: "wf walk_order"
  by (simp add: walk_order_def wf_lex_prod)

lemma byte_matches_needles:
  assumes "byte_matches c x mc"
  shows "x = c \<or> (\<not> mc \<and> is_ascii_lowercase c \<and> x = to_ascii_uppercase c)"
proof (cases "mc \<or> \<not> is_ascii_uppercase x")
  case True
  with assms show ?thesis by (auto simp: byte_matches_def ascii_simps split: if_splits)
next
  case False
  then have b: "\<not> mc" "byte c = byte x + 32" "65 \<le> byte x" "byte x \<le> 90"
    using assms by (auto simp: byte_matches_def byte_lower is_ascii_uppercase_def)
  then have low: "is_ascii_lowercase c" by (simp add: is_ascii_lowercase_def)
  then have "byte (to_ascii_uppercase c) = byte x" using b by (simp add: byte_upper)
  then have "x = to_ascii_uppercase c" by simp
  with b low show ?thesis by blast
qed

text \<open>Positions \<open>find_byte\<close> jumps over do not match the byte.\<close>

lemma find_byte_skips:
  assumes "memchr_ok lib" "from \<le> k" "k < length text"
    and "case find_byte lib text from c mc of None \<Rightarrow> True | Some at \<Rightarrow> k < at"
  shows "\<not> byte_matches c (text ! k) mc"
proof
  assume m: "byte_matches c (text ! k) mc"
  obtain j where j: "k = from + j" using assms(2) le_Suc_ex by blast
  have none: "\<not> P (text ! k)"
    if "case position P (drop from text) of None \<Rightarrow> True | Some at \<Rightarrow> j < at" for P
  proof (cases "position P (drop from text)")
    case None
    moreover have "text ! k \<in> set (drop from text)"
      using assms(3) j by (auto simp: in_set_conv_nth intro!: exI [of _ j])
    ultimately show ?thesis by (simp add: position_None)
  next
    case (Some at)
    with that have "\<not> P (drop from text ! j)" by (simp add: position_Some)
    then show ?thesis using j assms(3) by simp
  qed
  show False
  proof (cases "\<not> mc \<and> is_ascii_lowercase c")
    case True
    with assms j show ?thesis
      using none [of "\<lambda>b. b = c \<or> b = to_ascii_uppercase c"] byte_matches_needles [OF m]
      by (auto simp: find_byte_def memchr_ok_def split: option.splits)
  next
    case False
    with assms j show ?thesis
      using none [of "\<lambda>b. b = c"] byte_matches_needles [OF m]
      by (auto simp: find_byte_def memchr_ok_def split: option.splits)
  qed
qed

lemma find_byte_range:
  assumes "memchr_ok lib" "find_byte lib text from c mc = Some at"
  shows "from \<le> at \<and> at < length text"
proof -
  have "from + n < length text" if "position P (drop from text) = Some n" for P n
    using position_less [OF that] by simp
  with assms show ?thesis
    by (auto simp: find_byte_def memchr_ok_def Let_def split: if_splits)
qed

lemma resume_ok:
  assumes w: "w_star w = Some (after, tried)" and ok: "walk_ok pattern text mc w"
    and n: "tried < n" "n \<le> length text"
    and skip: "\<And>k. tried < k \<Longrightarrow> k < n \<Longrightarrow> \<not> wild ea mc (drop after pattern) (drop k text)"
  defines "w' \<equiv> \<lparr> w_p = after, w_t = n, w_star = Some (after, n) \<rparr>"
  shows "walk_ok pattern text mc w' \<and> open_match pattern text ea mc w' = later pattern text ea mc w
    \<and> (walk_measure pattern text w', walk_measure pattern text w) \<in> walk_order"
proof (intro conjI)
  show "walk_ok pattern text mc w'"
    using ok n w by (auto simp: walk_ok_def w'_def)
  show "open_match pattern text ea mc w' = later pattern text ea mc w"
  proof -
    let ?W = "\<lambda>k. wild ea mc (drop after pattern) (drop k text)"
    have "open_match pattern text ea mc w' \<longleftrightarrow> ?W n \<or> (\<exists>k>n. k \<le> length text \<and> ?W k)"
      by (auto simp: open_match_def later_def w'_def)
    also have "\<dots> \<longleftrightarrow> (\<exists>k>tried. k \<le> length text \<and> ?W k)"
      using n skip by (metis linorder_neqE_nat order_less_trans)
    also have "\<dots> \<longleftrightarrow> later pattern text ea mc w"
      using w by (auto simp: later_def)
    finally show ?thesis .
  qed
  show "(walk_measure pattern text w', walk_measure pattern text w) \<in> walk_order"
    using n w by (auto simp: walk_measure_def walk_order_def w'_def)
qed

lemma wild_literal:
  assumes "index_at pattern a = Some c" "c \<noteq> CHR ''*''" "c \<noteq> CHR ''^''"
    and "wild ea mc (drop a pattern) (drop k text)" "k \<le> length text"
  shows "k < length text \<and> byte_matches c (text ! k) mc"
proof -
  have "drop a pattern = c # drop (Suc a) pattern"
    using assms(1) by (simp add: index_at_eq_Some drop_cons)
  moreover have "k < length text"
    using assms calculation by (cases "k = length text") auto
  ultimately show ?thesis using assms by (simp add: drop_cons)
qed

definition step_ok ::
  "string \<Rightarrow> string \<Rightarrow> bool \<Rightarrow> bool \<Rightarrow> walk \<Rightarrow> bool \<Rightarrow> (bool + walk) \<times> budget \<Rightarrow> bool" where
  "step_ok pattern text ea mc w goal rb \<longleftrightarrow>
     (case rb of (Inl v, b') \<Rightarrow> (v \<longrightarrow> goal) \<and> (goal \<longrightarrow> v \<or> bu_exhausted b')
      | (Inr w', b') \<Rightarrow> walk_ok pattern text mc w' \<and> open_match pattern text ea mc w' = goal
          \<and> (walk_measure pattern text w', walk_measure pattern text w) \<in> walk_order)"

lemma widen_ok:
  assumes lib: "memchr_ok lib" and ok: "walk_ok pattern text mc w"
  shows "step_ok pattern text ea mc w (later pattern text ea mc w) (widen lib pattern text mc w b)"
proof (cases "w_star w")
  case None
  then show ?thesis by (simp add: widen_def step_ok_def later_def)
next
  case (Some at)
  obtain after tried where at: "at = (after, tried)" by (cases at)
  note star = Some [unfolded at]
  obtain b' where b: "snd (spend b) = b'" by simp
  consider "length text \<le> tried" | "tried < length text" "\<not> fst (spend b)"
    | "tried < length text" "fst (spend b)" by linarith
  then show ?thesis
  proof cases
    case 1
    then show ?thesis using star by (auto simp: widen_def step_ok_def later_def)
  next
    case 2
    then have "bu_exhausted b'" using b by (auto simp: spend_def split: if_splits)
    with 2 star b show ?thesis by (auto simp: widen_def step_ok_def split: prod.splits)
  next
    case 3
    then have sp: "spend b = (True, b')" using b by (cases "spend b") auto
    have res: "step_ok pattern text ea mc w (later pattern text ea mc w)
        (Inr \<lparr> w_p = after, w_t = n, w_star = Some (after, n) \<rparr>, b')"
      if "tried < n" "n \<le> length text"
        "\<And>k. tried < k \<Longrightarrow> k < n \<Longrightarrow> \<not> wild ea mc (drop after pattern) (drop k text)" for n
      using resume_ok [OF star ok that] by (simp add: step_ok_def)
    show ?thesis
    proof (cases "\<exists>c. index_at pattern after = Some c \<and> c \<noteq> CHR ''*'' \<and> c \<noteq> CHR ''^''")
      case True
      then obtain c where c: "index_at pattern after = Some c" "c \<noteq> CHR ''*''" "c \<noteq> CHR ''^''"
        by blast
      let ?f = "find_byte lib text (tried + 1) c mc"
      have skip: "\<not> wild ea mc (drop after pattern) (drop k text)"
        if "tried < k" "k \<le> length text" "case ?f of None \<Rightarrow> True | Some at \<Rightarrow> k < at" for k
        using wild_literal [OF c, of ea mc k "text"] find_byte_skips [OF lib, of "tried + 1" k "text" c mc] that
        by auto
      show ?thesis
      proof (cases ?f)
        case None
        then have "\<not> later pattern text ea mc w" using skip star by (auto simp: later_def)
        with None 3(1) star sp c show ?thesis by (simp add: widen_def step_ok_def)
      next
        case (Some n)
        have "tried < n" "n < length text" using find_byte_range [OF lib Some] by auto
        with res [of n] skip Some 3(1) star sp c show ?thesis by (simp add: widen_def)
      qed
    next
      case False
      with res [of "tried + 1"] 3(1) star sp show ?thesis
        by (auto simp: widen_def split: option.splits)
    qed
  qed
qed

lemma take_seg_Suc:
  assumes "after \<le> p" "p < length pattern"
  shows "take (Suc p - after) (drop after pattern) = take (p - after) (drop after pattern) @ [pattern ! p]"
proof -
  have "Suc p - after = Suc (p - after)" "p - after < length (drop after pattern)"
    using assms by auto
  then show ?thesis using assms by (simp add: take_Suc_conv_app_nth)
qed

text \<open>One pattern byte that matches moves both pointers; one that does not leaves the widening.\<close>

lemma advance_ok:
  assumes ok: "walk_ok pattern text mc w" and p: "w_p w < length pattern"
    and c: "pattern ! w_p w \<noteq> CHR ''*''"
    and t': "seg_run text mc [pattern ! w_p w] (w_t w) = Some t'"
  defines "w' \<equiv> w\<lparr> w_p := w_p w + 1, w_t := t' \<rparr>"
  shows "walk_ok pattern text mc w' \<and> open_match pattern text ea mc w' = open_match pattern text ea mc w
    \<and> (walk_measure pattern text w', walk_measure pattern text w) \<in> walk_order"
proof (intro conjI)
  have t: "w_t w \<le> length text" using ok by (simp add: walk_ok_def)
  have le: "t' \<le> length text" using seg_run_bounds [OF t' t] by simp
  show "walk_ok pattern text mc w'"
  proof (cases "w_star w")
    case (Some at)
    obtain after tried where at: "at = (after, tried)" by (cases at)
    have "after \<le> w_p w" using ok Some at by (simp add: walk_ok_def)
    with take_seg_Suc [OF this p] Some at ok c t' p le show ?thesis
      by (simp add: walk_ok_def w'_def seg_run_append Let_def)
  qed (use le p in \<open>simp add: walk_ok_def w'_def\<close>)
  have "wild ea mc (drop (w_p w) pattern) (drop (w_t w) text)
      = wild ea mc (drop (Suc (w_p w)) pattern) (drop t' text)"
    using wild_seg [of "[pattern ! w_p w]" "w_t w" "text" ea mc "drop (Suc (w_p w)) pattern"] c t t'
    by (simp add: drop_cons [OF p])
  then show "open_match pattern text ea mc w' = open_match pattern text ea mc w"
    by (simp add: open_match_def later_def w'_def)
  show "(walk_measure pattern text w', walk_measure pattern text w) \<in> walk_order"
    using p by (auto simp: walk_measure_def walk_order_def w'_def)
qed

lemma mismatch_open:
  assumes ok: "walk_ok pattern text mc w" and p: "w_p w < length pattern"
    and c: "pattern ! w_p w \<noteq> CHR ''*''"
    and none: "seg_run text mc [pattern ! w_p w] (w_t w) = None"
  shows "open_match pattern text ea mc w = later pattern text ea mc w"
proof -
  have "w_t w \<le> length text" using ok by (simp add: walk_ok_def)
  then have "\<not> wild ea mc (drop (w_p w) pattern) (drop (w_t w) text)"
    using wild_seg [of "[pattern ! w_p w]" "w_t w" "text" ea mc "drop (Suc (w_p w)) pattern"] c none
    by (simp add: drop_cons [OF p])
  then show ?thesis by (simp add: open_match_def)
qed

text \<open>A new \<open>*\<close> supersedes the old one: a match by widening the old one is also a match from
  here.\<close>

lemma later_superseded:
  assumes ok: "walk_ok pattern text mc w" and p: "w_p w < length pattern"
    and c: "pattern ! w_p w = CHR ''*''" and l: "later pattern text ea mc w"
  shows "wild ea mc (drop (w_p w) pattern) (drop (w_t w) text)"
proof -
  obtain after tried k where s: "w_star w = Some (after, tried)" "tried < k" "k \<le> length text"
    "wild ea mc (drop after pattern) (drop k text)"
    using l by (auto simp: later_def)
  define seg where "seg = take (w_p w - after) (drop after pattern)"
  have seg: "CHR ''*'' \<notin> set seg" "seg_run text mc seg tried = Some (w_t w)" "after \<le> w_p w"
    using ok s(1) by (auto simp: walk_ok_def seg_def Let_def)
  have "drop after pattern = seg @ drop (w_p w) pattern"
    using seg(3) by (metis add_diff_inverse_nat append_take_drop_id drop_drop linorder_not_less
        add.commute seg_def)
  with s(4) wild_seg [OF seg(1) s(3)] obtain e
    where e: "seg_run text mc seg k = Some e" "wild ea mc (drop (w_p w) pattern) (drop e text)"
    by auto
  have "w_t w \<le> e" using seg_run_mono [OF seg(2) e(1)] s by simp
  moreover have "e \<le> length text" using seg_run_bounds [OF e(1)] s by simp
  moreover obtain j where "j \<le> length text - e" "wild ea mc (drop (Suc (w_p w)) pattern) (drop (j + e) text)"
    using e(2) c by (auto simp: drop_cons [OF p] wild_star simp del: wild.simps)
  ultimately have "\<exists>i\<le>length text - w_t w. wild ea mc (drop (Suc (w_p w)) pattern) (drop (i + w_t w) text)"
    by (intro exI [of _ "j + (e - w_t w)"]) auto
  then show ?thesis using c by (simp add: drop_cons [OF p] wild_star del: wild.simps)
qed

lemma star_ok:
  assumes ok: "walk_ok pattern text mc w" and p: "w_p w < length pattern"
    and c: "pattern ! w_p w = CHR ''*''"
  defines "w' \<equiv> w\<lparr> w_star := Some (w_p w + 1, w_t w), w_p := w_p w + 1 \<rparr>"
  shows "walk_ok pattern text mc w' \<and> open_match pattern text ea mc w' = open_match pattern text ea mc w
    \<and> (walk_measure pattern text w', walk_measure pattern text w) \<in> walk_order"
proof (intro conjI)
  show "walk_ok pattern text mc w'" using ok p by (auto simp: walk_ok_def w'_def)
  let ?W = "\<lambda>k. wild ea mc (drop (Suc (w_p w)) pattern) (drop k text)"
  have t: "w_t w \<le> length text" using ok by (simp add: walk_ok_def)
  have "open_match pattern text ea mc w' \<longleftrightarrow> ?W (w_t w) \<or> (\<exists>k>w_t w. k \<le> length text \<and> ?W k)"
    by (auto simp: open_match_def later_def w'_def)
  also have "\<dots> \<longleftrightarrow> (\<exists>k\<ge>w_t w. k \<le> length text \<and> ?W k)"
    using t by (metis order_le_less)
  also have "\<dots> \<longleftrightarrow> (\<exists>i\<le>length text - w_t w. ?W (i + w_t w))"
  proof
    assume "\<exists>k\<ge>w_t w. k \<le> length text \<and> ?W k"
    then obtain k where "w_t w \<le> k" "k \<le> length text" "?W k" by blast
    then show "\<exists>i\<le>length text - w_t w. ?W (i + w_t w)"
      by (intro exI [of _ "k - w_t w"]) auto
  next
    assume "\<exists>i\<le>length text - w_t w. ?W (i + w_t w)"
    then obtain i where "i \<le> length text - w_t w" "?W (i + w_t w)" by blast
    then show "\<exists>k\<ge>w_t w. k \<le> length text \<and> ?W k"
      using t by (intro exI [of _ "i + w_t w"]) auto
  qed
  also have "\<dots> \<longleftrightarrow> wild ea mc (drop (w_p w) pattern) (drop (w_t w) text)"
    using c by (simp add: drop_cons [OF p] wild_star del: wild.simps)
  also have "\<dots> \<longleftrightarrow> open_match pattern text ea mc w"
    using later_superseded [OF ok p c] by (auto simp: open_match_def)
  finally show "open_match pattern text ea mc w' = open_match pattern text ea mc w" .
  have "after \<le> w_p w" if "w_star w = Some (after, tried)" for after tried
    using ok that by (simp add: walk_ok_def)
  then show "(walk_measure pattern text w', walk_measure pattern text w) \<in> walk_order"
    using p by (auto simp: walk_measure_def walk_order_def w'_def split: option.splits)
qed

lemma match_step_ok:
  assumes lib: "memchr_ok lib" and ok: "walk_ok pattern text mc w"
  shows "\<exists>rb. match_step lib pattern text ea mc w b = Some rb
    \<and> step_ok pattern text ea mc w (open_match pattern text ea mc w) rb"
proof -
  have t: "w_t w \<le> length text" and ple: "w_p w \<le> length pattern"
    using ok by (auto simp: walk_ok_def)
  note widened = widen_ok [OF lib ok, of ea b]
  show ?thesis
  proof (cases "w_p w = length pattern")
    case True
    show ?thesis
    proof (cases "\<not> ea \<or> w_t w = length text")
      case fin: True
      then have "open_match pattern text ea mc w" using True by (auto simp: open_match_def)
      with True fin show ?thesis by (simp add: match_step_def step_ok_def)
    next
      case False
      then have "open_match pattern text ea mc w = later pattern text ea mc w"
        using True t by (simp add: open_match_def)
      with True False widened show ?thesis by (simp add: match_step_def)
    qed
  next
    case False
    then have p: "w_p w < length pattern" using ple by simp
    let ?c = "pattern ! w_p w"
    show ?thesis
    proof (cases "?c = CHR ''*''")
      case True
      with star_ok [OF ok p True, of ea] p False show ?thesis
        by (simp add: match_step_def step_ok_def Let_def)
    next
      case c: False
      show ?thesis
      proof (cases "seg_run text mc [?c] (w_t w)")
        case None
        have "match_step lib pattern text ea mc w b = Some (widen lib pattern text mc w b)"
          using None c p False t by (auto simp: match_step_def split: if_splits)
        with mismatch_open [OF ok p c None, of ea] widened show ?thesis
          by (intro exI [of _ "widen lib pattern text mc w b"]) simp
      next
        case (Some t')
        have "match_step lib pattern text ea mc w b
            = Some (Inr (w\<lparr> w_p := w_p w + 1, w_t := t' \<rparr>), b)"
          using Some c p False t by (cases w) (auto simp: match_step_def split: if_splits)
        with advance_ok [OF ok p c Some, of ea] show ?thesis by (simp add: step_ok_def)
      qed
    qed
  qed
qed

lemma match_loop_ok:
  assumes lib: "memchr_ok lib" and ok: "walk_ok pattern text mc w"
  shows "\<exists>v b'. match_loop lib pattern text ea mc w b = Some (v, b')
    \<and> (v \<longrightarrow> open_match pattern text ea mc w)
    \<and> (open_match pattern text ea mc w \<longrightarrow> v \<or> bu_exhausted b')"
  using ok
proof (induction "walk_measure pattern text w" arbitrary: w b rule: wf_induct_rule [OF wf_walk_order])
  case (1 w)
  obtain r b1 where st: "match_step lib pattern text ea mc w b = Some (r, b1)"
    "step_ok pattern text ea mc w (open_match pattern text ea mc w) (r, b1)"
    using match_step_ok [OF lib 1(2)] by fastforce
  show ?case
  proof (cases r)
    case (Inl v)
    with st show ?thesis by (subst match_loop.simps) (auto simp: step_ok_def)
  next
    case (Inr w')
    with st have w': "walk_ok pattern text mc w'"
      "open_match pattern text ea mc w' = open_match pattern text ea mc w"
      "(walk_measure pattern text w', walk_measure pattern text w) \<in> walk_order"
      by (auto simp: step_ok_def)
    from 1(1) [OF w'(3) w'(1), of b1] w'(2) st Inr show ?thesis
      by (subst match_loop.simps) auto
  qed
qed

section \<open>What it costs\<close>

text \<open>How often a walk can still widen: once per text position past the last try.\<close>

definition potential :: "string \<Rightarrow> walk \<Rightarrow> int" where
  "potential text w = int (length text) - int (case w_star w of None \<Rightarrow> w_t w | Some (_, tried) \<Rightarrow> tried)"

text \<open>\<open>b'\<close> is \<open>b\<close> after spending at most \<open>n\<close>; it can only have run out if \<open>n\<close> was too much.\<close>

definition spent :: "int \<Rightarrow> budget \<Rightarrow> budget \<Rightarrow> bool" where
  "spent n b b' \<longleftrightarrow>
     bu_floor b' = bu_floor b \<and> bu_remaining b' \<le> bu_remaining b \<and> bu_remaining b \<le> bu_remaining b' + n \<and>
     (bu_exhausted b \<longrightarrow> bu_exhausted b') \<and>
     (bu_floor b + n \<le> bu_remaining b \<longrightarrow> bu_exhausted b' = bu_exhausted b)"

lemma spent_refl: "0 \<le> n \<Longrightarrow> spent n b b"
  by (simp add: spent_def)

lemma spent_trans: "spent n a b \<Longrightarrow> spent m b c \<Longrightarrow> n + m \<le> k \<Longrightarrow> 0 \<le> m \<Longrightarrow> spent k a c"
  by (auto simp: spent_def)

lemma spent_mono: "spent n a b \<Longrightarrow> n \<le> m \<Longrightarrow> spent m a b"
  by (auto simp: spent_def)

lemma spend_spent: "spend b = (ok, b') \<Longrightarrow> 1 \<le> n \<Longrightarrow> spent n b b'"
  by (auto simp: spend_def spent_def split: if_splits)

lemma widen_cost:
  assumes lib: "memchr_ok lib" and ok: "walk_ok pattern text mc w"
    and r: "widen lib pattern text mc w b = (r, b')"
  shows "case r of Inl _ \<Rightarrow> spent (potential text w) b b'
    | Inr w' \<Rightarrow> spent (potential text w - potential text w') b b'"
proof (cases "w_star w")
  case None
  then have "0 \<le> potential text w" using ok by (simp add: potential_def walk_ok_def)
  then show ?thesis using None r by (auto simp: widen_def spent_refl)
next
  case (Some at)
  obtain after tried where at: "at = (after, tried)" by (cases at)
  note star = Some [unfolded at]
  have le: "tried \<le> length text" using ok star by (simp add: walk_ok_def)
  show ?thesis
  proof (cases "tried < length text")
    case False
    with r star le show ?thesis by (auto simp: widen_def potential_def spent_refl)
  next
    case True
    obtain v b1 where sp: "spend b = (v, b1)" by (cases "spend b")
    have find_byte_after: "tried < n" if "find_byte lib text (Suc tried) c mc = Some n" for c n
      using find_byte_range [OF lib that] by simp
    have one: "spent n b b1" if "1 \<le> n" for n using spend_spent [OF sp that] .
    have "b' = b1" using r star True sp
      by (auto simp: widen_def split: if_splits option.splits)
    moreover have "case r of Inl _ \<Rightarrow> True
        | Inr w' \<Rightarrow> \<exists>n > tried. w_star w' = Some (after, n)"
      using r star True sp find_byte_after
      by (auto simp: widen_def split: if_splits option.splits)
    ultimately show ?thesis
      using star True by (auto simp: potential_def intro!: one split: sum.splits)
  qed
qed

lemma match_step_cost:
  assumes lib: "memchr_ok lib" and ok: "walk_ok pattern text mc w"
    and r: "match_step lib pattern text ea mc w b = Some (r, b')"
  shows "case r of Inl _ \<Rightarrow> spent (potential text w) b b'
    | Inr w' \<Rightarrow> spent (potential text w - potential text w') b b'"
proof -
  have pot: "0 \<le> potential text w" using ok
    by (auto simp: potential_def walk_ok_def split: option.splits)
  have seen: "tried \<le> w_t w" if "w_star w = Some (after, tried)" for after tried
    using ok that seg_run_bounds by (fastforce simp: walk_ok_def Let_def)
  have "(b' = b \<and> r = Inl True) \<or> widen lib pattern text mc w b = (r, b')
    \<or> (b' = b \<and> (\<exists>w'. r = Inr w' \<and> potential text w' \<le> potential text w))"
    using r seen
    by (auto simp: match_step_def Let_def potential_def split: if_splits option.splits)
  then consider "b' = b" "r = Inl True"
    | "widen lib pattern text mc w b = (r, b')"
    | w' where "b' = b" "r = Inr w'" "potential text w' \<le> potential text w"
    by blast
  then show ?thesis
  proof cases
    case 1
    with pot show ?thesis by (simp add: spent_refl)
  next
    case 2
    then show ?thesis by (rule widen_cost [OF lib ok])
  next
    case 3
    then show ?thesis by (simp add: spent_refl)
  qed
qed

lemma match_loop_cost:
  assumes lib: "memchr_ok lib" and ok: "walk_ok pattern text mc w"
    and r: "match_loop lib pattern text ea mc w b = Some (v, b')"
  shows "spent (potential text w) b b'"
  using ok r
proof (induction "walk_measure pattern text w" arbitrary: w b rule: wf_induct_rule [OF wf_walk_order])
  case (1 w)
  obtain r b1 where st: "match_step lib pattern text ea mc w b = Some (r, b1)"
    "step_ok pattern text ea mc w (open_match pattern text ea mc w) (r, b1)"
    using match_step_ok [OF lib 1(2)] by fastforce
  note cost = match_step_cost [OF lib 1(2) st(1)]
  show ?case
  proof (cases r)
    case (Inl u)
    with st 1(3) have "b' = b1" by (subst (asm) match_loop.simps) simp
    with cost Inl show ?thesis by simp
  next
    case (Inr w')
    with st have w': "walk_ok pattern text mc w'"
      "(walk_measure pattern text w', walk_measure pattern text w) \<in> walk_order"
      by (auto simp: step_ok_def)
    have "match_loop lib pattern text ea mc w' b1 = Some (v, b')"
      using 1(3) st(1) Inr by (subst (asm) match_loop.simps) simp
    from 1(1) [OF w'(2) w'(1) this] have rest: "spent (potential text w') b1 b'" .
    have "0 \<le> potential text w'" using w'(1)
      by (auto simp: potential_def walk_ok_def split: option.splits)
    with spent_trans [OF _ rest] cost Inr show ?thesis by simp
  qed
qed

lemma walk_start: "start \<le> length text \<Longrightarrow> walk_ok pattern text mc \<lparr> w_p = 0, w_t = start, w_star = None \<rparr>"
  by (simp add: walk_ok_def)

lemma match_from_total:
  assumes lib: "memchr_ok lib" and start: "start \<le> length text"
  shows "\<exists>v b'. match_from lib pattern text start ea mc b = Some (v, b')
    \<and> (v \<longrightarrow> wild ea mc pattern (drop start text))
    \<and> (wild ea mc pattern (drop start text) \<longrightarrow> v \<or> bu_exhausted b')
    \<and> spent (int (length text) - int start + 1) b b'"
proof -
  let ?w = "\<lparr> w_p = 0, w_t = start, w_star = None \<rparr>"
  obtain ok b1 where sp: "spend b = (ok, b1)" by (cases "spend b")
  have goal: "open_match pattern text ea mc ?w \<longleftrightarrow> wild ea mc pattern (drop start text)"
    by (simp add: open_match_def later_def)
  have pot: "potential text ?w = int (length text) - int start" by (simp add: potential_def)
  show ?thesis
  proof (cases ok)
    case False
    then have "bu_exhausted b1" using sp by (auto simp: spend_def split: if_splits)
    moreover have "spent (int (length text) - int start + 1) b b1"
      using spend_spent [OF sp] start by simp
    ultimately show ?thesis using sp False by (auto simp: match_from_def)
  next
    case True
    obtain v b' where l: "match_loop lib pattern text ea mc ?w b1 = Some (v, b')"
      "v \<longrightarrow> wild ea mc pattern (drop start text)"
      "wild ea mc pattern (drop start text) \<longrightarrow> v \<or> bu_exhausted b'"
      using match_loop_ok [OF lib walk_start [OF start], where pattern = pattern and mc = mc and ea = ea and b = b1] goal by auto
    have "spent (int (length text) - int start) b1 b'"
      using match_loop_cost [OF lib walk_start [OF start] l(1)] pot by simp
    with spent_trans [OF spend_spent [OF sp, of 1] this] start
    have "spent (int (length text) - int start + 1) b b'" by simp
    with l sp True show ?thesis by (simp add: match_from_def)
  qed
qed

text \<open>C23: The backtracking walk always returns, never indexes out of range, and answers "matches"
  only for a text the pattern matches. When the work allowance was not exhausted its answer is
  exact: keeping a single backtrack point, at the last \<open>*\<close>, loses no match.\<close>

theorem match_from_correct:
  assumes "memchr_ok lib" "start \<le> length text"
  shows "\<exists>v b'. match_from lib pattern text start ea mc b = Some (v, b')
    \<and> (v \<longrightarrow> wild ea mc pattern (drop start text))
    \<and> (\<not> bu_exhausted b' \<longrightarrow> v = wild ea mc pattern (drop start text))"
  using match_from_total [OF assms, of pattern ea mc b] by blast

theorem match_from_correct_witness:
  "match_from memchr_scalar ''a*b^c*d^'' ''xab-b/c.d'' 1 True False budget_new
     = Some (True, budget_new\<lparr> bu_remaining := 7999997 \<rparr>)
   \<and> wild True False ''a*b^c*d^'' ''ab-b/c.d''"
proof -
  have run: "match_from memchr_scalar ''a*b^c*d^'' ''xab-b/c.d'' 1 True False budget_new
     = Some (True, budget_new\<lparr> bu_remaining := 7999997 \<rparr>)"
    by code_simp
  have "1 \<le> length ''xab-b/c.d''" by simp
  from match_from_correct [OF memchr_scalar_ok this, of "''a*b^c*d^''" True False budget_new] run
  show ?thesis by (auto simp del: wild.simps)
qed

text \<open>C24: One entry into the walk costs at most one unit per text position from the start of the
  entry on, and one more, so a single entry made on the allowance \<open>budget_open\<close> has just armed
  never exhausts it, and its answer is exact. It is a statement about one entry: the later
  entries of a rule that is tried at several offsets share what the earlier ones left.\<close>

theorem match_from_within_allowance:
  assumes "memchr_ok lib" "start \<le> length text" "int (length text) < USIZE_MAX"
    and "rule_step_cap (length text) \<le> bu_remaining b" "\<not> bu_exhausted b"
  shows "\<exists>b'. match_from lib pattern text start ea mc (budget_open b (length text))
      = Some (wild ea mc pattern (drop start text), b')
    \<and> \<not> bu_exhausted b'
    \<and> bu_remaining b - (int (length text) - int start + 1) \<le> bu_remaining b'"
proof -
  let ?b = "budget_open b (length text)"
  obtain v b' where r: "match_from lib pattern text start ea mc ?b = Some (v, b')"
    "v \<longrightarrow> wild ea mc pattern (drop start text)"
    "wild ea mc pattern (drop start text) \<longrightarrow> v \<or> bu_exhausted b'"
    "spent (int (length text) - int start + 1) ?b b'"
    using match_from_total [OF assms(1,2)] by blast
  have "int (length text) + 1 \<le> rule_step_cap (length text)"
    using assms(3) by (simp add: rule_step_cap_def saturating_add_def saturating_mul_def)
  then have "bu_floor ?b + (int (length text) - int start + 1) \<le> bu_remaining ?b"
    using assms(4) by (simp add: budget_open_def)
  then have "\<not> bu_exhausted b'" "bu_remaining b \<le> bu_remaining b' + (int (length text) - int start + 1)"
    using r(4) assms(5) by (auto simp: spent_def budget_open_def)
  with r show ?thesis by auto
qed

theorem match_from_within_allowance_witness:
  "\<exists>b'. match_from memchr_scalar ''*ab'' ''aaab'' 0 False True (budget_open budget_new (length ''aaab''))
      = Some (wild False True ''*ab'' ''aaab'', b') \<and> \<not> bu_exhausted b'"
proof -
  have "rule_step_cap (length ''aaab'') \<le> bu_remaining budget_new" "int (length ''aaab'') < USIZE_MAX"
    "\<not> bu_exhausted budget_new"
    by code_simp+
  from match_from_within_allowance [OF memchr_scalar_ok le0 this(2,1,3), of "''*ab''" False True]
  show ?thesis unfolding drop_0 by blast
qed

end
