(* ===== verification/Url_Tokens.thy ===== *)
theory Url_Tokens
  imports Url_Pattern
begin

text \<open>
  The keys of the URL tier's index (\<open>fah-rules/src/url_matcher.rs\<close>, tokenisation): the keys a
  pattern can be filed under, and the keys a URL is looked up by. The main result is that no
  match is lost: a URL the pattern matches offers every key the pattern can be filed under.
\<close>

section \<open>Tokens\<close>

definition MIN_TOKEN_LEN :: nat where
  "MIN_TOKEN_LEN = 3"

definition NGRAM_WORD_MASK :: u32 where
  "NGRAM_WORD_MASK = drop_bit (32 - 8 * MIN_TOKEN_LEN) (- 1)"

definition ANCHOR_DOMAIN :: u16 where "ANCHOR_DOMAIN = 0"
definition ANCHOR_START :: u16 where "ANCHOR_START = 1"
definition ANCHOR_ANYWHERE :: u16 where "ANCHOR_ANYWHERE = 2"

datatype key_kind = Exact | Prefix | Suffix | Ngram

fun seed :: "key_kind \<Rightarrow> u64" where
  "seed Exact = 0xcbf29ce484222325"
| "seed Prefix = 0x9e3779b97f4a7c15"
| "seed Suffix = 0x517cc1b727220a95"
| "seed Ngram = 0xff51afd7ed558ccd"

definition hash_key :: "key_kind \<Rightarrow> string \<Rightarrow> u64" where
  "hash_key kind bytes = foldl (\<lambda>h b. fnv_step h (to_ascii_lowercase b)) (seed kind) bytes"

text \<open>The spans \<open>for_each_token\<close> finds, from byte offset \<open>at\<close> on.\<close>

function token_spans :: "nat \<Rightarrow> string \<Rightarrow> (nat \<times> nat) list" where
  "token_spans at [] = []"
| "token_spans at (b # bs) =
     (if \<not> is_token_byte b then token_spans (at + 1) bs
      else let n = length (takeWhile is_token_byte bs)
        in (at, at + 1 + n) # token_spans (at + 1 + n) (drop n bs))"
  by pat_completeness auto
termination
  by (relation "measure (\<lambda>(_, bs). length bs)") auto

text \<open>Visiting the spans: the visitor may panic, and says whether to go on.\<close>

fun visit_spans ::
  "(nat \<Rightarrow> nat \<Rightarrow> 's \<Rightarrow> (bool \<times> 's) option) \<Rightarrow> (nat \<times> nat) list \<Rightarrow> 's \<Rightarrow> 's option" where
  "visit_spans visit [] s = Some s"
| "visit_spans visit ((start, end) # spans) s =
     (case visit start end s of
        None \<Rightarrow> None
      | Some (go, s) \<Rightarrow> if go then visit_spans visit spans s else Some s)"

definition for_each_token ::
  "string \<Rightarrow> (nat \<Rightarrow> nat \<Rightarrow> 's \<Rightarrow> (bool \<times> 's) option) \<Rightarrow> 's \<Rightarrow> 's option" where
  "for_each_token bytes visit s = visit_spans visit (token_spans 0 bytes) s"

definition token_key ::
  "string \<Rightarrow> u16 \<Rightarrow> bool \<Rightarrow> nat \<times> nat \<Rightarrow> (key_kind \<times> string \<times> nat) option" where
  "token_key pattern anchor end_anchored span =
     (let (start, end) = span;
          token = take (end - start) (drop start pattern)
      in if length token < MIN_TOKEN_LEN then None
         else let left_bounded =
                  (if start = 0 then anchor \<noteq> ANCHOR_ANYWHERE else pattern ! (start - 1) \<noteq> CHR ''*'');
                right_bounded =
                  (if end = length pattern then end_anchored else pattern ! end \<noteq> CHR ''*'')
           in if left_bounded \<and> right_bounded then Some (Exact, token, length token)
              else if left_bounded then Some (Prefix, take MIN_TOKEN_LEN token, length token)
              else if right_bounded
              then Some (Suffix, drop (length token - MIN_TOKEN_LEN) token, length token)
              else None)"

text \<open>What \<open>for_each_index_key\<close> calls its visitor with, in order.\<close>

definition index_keys :: "string \<Rightarrow> u16 \<Rightarrow> bool \<Rightarrow> (key_kind \<times> string \<times> nat) list" where
  "index_keys pattern anchor end_anchored =
     List.map_filter (token_key pattern anchor end_anchored) (token_spans 0 pattern)"

definition byte32 :: "char \<Rightarrow> u32" where
  "byte32 c = word_of_int (byte c)"

definition ngram_push :: "u32 \<Rightarrow> char \<Rightarrow> u32" where
  "ngram_push word b = push_bit 8 word OR byte32 (to_ascii_lowercase b)"

definition ngram_word :: "string \<Rightarrow> u32" where
  "ngram_word window = foldl ngram_push 0 window"

text \<open>What \<open>for_each_ngram_key\<close> calls its visitor with, in order.\<close>

definition windows :: "nat \<Rightarrow> 'a list \<Rightarrow> 'a list list" where
  "windows n xs = map (\<lambda>i. take n (drop i xs)) [0..<length xs + 1 - n]"

definition ngram_keys :: "string \<Rightarrow> (u32 \<times> nat) list" where
  "ngram_keys pattern =
     concat (map (\<lambda>run. if length run < MIN_TOKEN_LEN then []
                        else map (\<lambda>w. (ngram_word w, length run)) (windows MIN_TOKEN_LEN run))
       (split_on (\<lambda>b. b = CHR ''*'' \<or> b = CHR ''^'') pattern))"

definition ngram_fold :: "u32 \<Rightarrow> u64" where
  "ngram_fold word = ucast (word XOR drop_bit 13 word)"

definition ngram_hash :: "u32 \<Rightarrow> u64" where
  "ngram_hash word =
     (let hash = (ucast word XOR seed Ngram) * 0xff51afd7ed558ccd;
          hash = hash XOR drop_bit 33 hash
      in hash * 0xc4ceb9fe1a85ec53)"

section \<open>Spans\<close>

lemma token_spans_shift: "token_spans (k + d) s = map (\<lambda>(a, b). (a + d, b + d)) (token_spans k s)"
proof (induction k s rule: token_spans.induct)
  case (2 at c bs)
  show ?case
  proof (cases "is_token_byte c")
    case False
    with 2(1) show ?thesis by simp
  next
    case True
    define n where "n = length (takeWhile is_token_byte bs)"
    have "\<not> \<not> is_token_byte c" using True by simp
    from 2(2) [OF this n_def] True show ?thesis
      by (simp add: n_def [symmetric] Let_def algebra_simps)
  qed
qed simp

text \<open>A maximal run of token bytes.\<close>

definition token_at :: "string \<Rightarrow> nat \<Rightarrow> nat \<Rightarrow> bool" where
  "token_at s a b \<longleftrightarrow>
     a < b \<and> b \<le> length s \<and> (\<forall>j. a \<le> j \<longrightarrow> j < b \<longrightarrow> is_token_byte (s ! j))
   \<and> (a = 0 \<or> \<not> is_token_byte (s ! (a - 1))) \<and> (b = length s \<or> \<not> is_token_byte (s ! b))"

lemma token_at_append:
  assumes "token_at s a b" "u = [] \<or> \<not> is_token_byte (last u) \<or> 0 < a"
  shows "token_at (u @ s) (a + length u) (b + length u)"
proof -
  have "is_token_byte ((u @ s) ! j)" if "a + length u \<le> j" "j < b + length u" for j
  proof -
    define i where "i = j - length u"
    have "j = i + length u" using that(1) by (simp add: i_def)
    with assms(1) that show ?thesis by (simp add: token_at_def nth_append)
  qed
  moreover have "a + length u = 0 \<or> \<not> is_token_byte ((u @ s) ! (a + length u - 1))"
  proof (cases a)
    case 0
    with assms(2) show ?thesis by (cases "u = []") (auto simp: nth_append last_conv_nth)
  next
    case (Suc a')
    with assms(1) show ?thesis by (simp add: token_at_def nth_append)
  qed
  ultimately show ?thesis using assms(1) by (auto simp: token_at_def nth_append)
qed

lemma token_spans_token_at: "(a, b) \<in> set (token_spans 0 s) \<Longrightarrow> token_at s a b"
proof (induction "length s" arbitrary: s a b rule: less_induct)
  case less
  show ?case
  proof (cases s)
    case (Cons c bs)
    show ?thesis
    proof (cases "is_token_byte c")
      case False
      then obtain a' b' where ab: "a = a' + 1" "b = b' + 1" "(a', b') \<in> set (token_spans 0 bs)"
        using less(2) Cons token_spans_shift [of 0 1 bs] by auto
      have "token_at bs a' b'" using less(1) ab(3) Cons by simp
      from token_at_append [OF this, of "[c]"] False ab Cons show ?thesis by simp
    next
      case True
      define u where "u = c # takeWhile is_token_byte bs"
      define r where "r = dropWhile is_token_byte bs"
      have s: "s = u @ r" by (simp add: Cons u_def r_def)
      have u: "\<forall>x\<in>set u. is_token_byte x" "u \<noteq> []"
        using True by (auto simp: u_def dest: set_takeWhileD)
      have r: "r = [] \<or> \<not> is_token_byte (r ! 0)"
      proof (cases r)
        case (Cons y ys)
        then have "\<not> is_token_byte y" unfolding r_def dropWhile_eq_Cons_conv by simp
        with Cons show ?thesis by simp
      qed simp
      have "token_spans 0 s = (0, length u) # map (\<lambda>(a, b). (a + length u, b + length u)) (token_spans 0 r)"
        using True token_spans_shift [of 0 "length u" r]
        by (simp add: Cons u_def r_def Let_def dropWhile_eq_drop)
      with less(2) consider "a = 0" "b = length u"
        | a' b' where "a = a' + length u" "b = b' + length u" "(a', b') \<in> set (token_spans 0 r)"
        by auto
      then show ?thesis
      proof cases
        case 1
        then show ?thesis using u r by (auto simp: token_at_def s nth_append)
      next
        case 2
        have "length r < length s" using u(2) by (simp add: s)
        from less(1) [OF this 2(3)] have t: "token_at r a' b'" .
        have "0 < a'"
        proof (rule ccontr)
          assume "\<not> 0 < a'"
          then have "is_token_byte (r ! 0)" "r \<noteq> []" using t by (auto simp: token_at_def)
          with r show False by simp
        qed
        then show ?thesis using token_at_append [OF t, of u] 2 s by simp
      qed
    qed
  qed (use less in simp)
qed

lemma token_spans_cover:
  assumes "i < length s" "is_token_byte (s ! i)"
  shows "\<exists>(a, b) \<in> set (token_spans k s). a \<le> k + i \<and> k + i < b"
  using assms
proof (induction k s arbitrary: i rule: token_spans.induct)
  case (2 at c bs)
  show ?case
  proof (cases "is_token_byte c")
    case False
    then obtain i' where i: "i = Suc i'" using 2(4) by (cases i) auto
    from 2(1) [OF False, of i'] 2(3,4) i False show ?thesis by auto
  next
    case True
    define n where "n = length (takeWhile is_token_byte bs)"
    show ?thesis
    proof (cases "i \<le> n")
      case le: True
      with True show ?thesis by (auto simp: n_def Let_def)
    next
      case gt: False
      define i' where "i' = i - 1 - n"
      have i: "i = 1 + n + i'" using gt by (simp add: i'_def)
      have "drop n bs ! i' = (c # bs) ! i" "i' < length (drop n bs)" using i 2(3) by auto
      then obtain a b where "(a, b) \<in> set (token_spans (at + 1 + n) (drop n bs))"
        "a \<le> at + 1 + n + i'" "at + 1 + n + i' < b"
        using 2(2) [OF _ n_def, of i'] True 2(4) by force
      with True i show ?thesis by (auto simp: n_def Let_def intro!: bexI [of _ "(a, b)"])
    qed
  qed
qed simp

text \<open>The span around a run of token bytes, and when it is that run.\<close>

lemma span_around:
  assumes "j < e" "e \<le> length s" "\<And>i. j \<le> i \<Longrightarrow> i < e \<Longrightarrow> is_token_byte (s ! i)"
  obtains a b where "(a, b) \<in> set (token_spans 0 s)" "token_at s a b" "a \<le> j" "e \<le> b"
    "j = 0 \<or> \<not> is_token_byte (s ! (j - 1)) \<Longrightarrow> a = j"
    "e = length s \<or> \<not> is_token_byte (s ! e) \<Longrightarrow> b = e"
proof -
  have "j < length s" "is_token_byte (s ! j)" using assms by auto
  from token_spans_cover [OF this, of 0] obtain a b
    where ab: "(a, b) \<in> set (token_spans 0 s)" "a \<le> j" "j < b" by auto
  then have t: "token_at s a b" by (intro token_spans_token_at)
  have e: "e \<le> b"
  proof (rule ccontr)
    assume "\<not> e \<le> b"
    then have "b < e" by simp
    then have "is_token_byte (s ! b)" "b \<noteq> length s" using assms ab by auto
    with t show False by (simp add: token_at_def)
  qed
  have "a = j" if "j = 0 \<or> \<not> is_token_byte (s ! (j - 1))"
  proof (rule ccontr)
    assume "a \<noteq> j"
    then have "a \<le> j - 1" "j - 1 < b" "j \<noteq> 0" using ab by auto
    then have "is_token_byte (s ! (j - 1))" using t by (simp add: token_at_def)
    with that \<open>j \<noteq> 0\<close> show False by simp
  qed
  moreover have "b = e" if "e = length s \<or> \<not> is_token_byte (s ! e)"
  proof (rule ccontr)
    assume "b \<noteq> e"
    then have "e < b" using e by simp
    then have "is_token_byte (s ! e)" "e < length s" using t ab assms by (auto simp: token_at_def)
    with that show False by simp
  qed
  ultimately show ?thesis using that ab t e by blast
qed

section \<open>What a matching URL contains\<close>

text \<open>A pattern prefix can take the text from one position to another.\<close>

fun eats :: "bool \<Rightarrow> string \<Rightarrow> string \<Rightarrow> nat \<Rightarrow> nat \<Rightarrow> bool" where
  "eats mc text [] i j \<longleftrightarrow> i = j"
| "eats mc text (c # cs) i j \<longleftrightarrow>
     (\<exists>k\<le>length text. i \<le> k \<and> (if c = CHR ''*'' then True else seg_run text mc [c] i = Some k)
        \<and> eats mc text cs k j)"

lemma eats_append: "eats mc text (xs @ ys) i j \<longleftrightarrow> (\<exists>k. eats mc text xs i k \<and> eats mc text ys k j)"
  by (induction xs arbitrary: i) auto

lemma eats_bounds: "eats mc text cs i j \<Longrightarrow> i \<le> length text \<Longrightarrow> i \<le> j \<and> j \<le> length text"
proof (induction cs arbitrary: i)
  case (Cons c cs)
  then obtain k where "k \<le> length text" "i \<le> k" "eats mc text cs k j"
    by (auto simp del: seg_run.simps)
  with Cons.IH [of k] show ?case by simp
qed simp

lemma wild_split:
  assumes "i \<le> length text"
  shows "wild ea mc (xs @ ys) (drop i text) \<longleftrightarrow> (\<exists>j. eats mc text xs i j \<and> wild ea mc ys (drop j text))"
  using assms
proof (induction xs arbitrary: i)
  case (Cons c xs)
  show ?case
  proof (cases "c = CHR ''*''")
    case True
    have "wild ea mc ((c # xs) @ ys) (drop i text)
        \<longleftrightarrow> (\<exists>d\<le>length text - i. wild ea mc (xs @ ys) (drop (d + i) text))"
      using True by (simp add: wild_star del: wild.simps)
    also have "\<dots> \<longleftrightarrow> (\<exists>k\<le>length text. i \<le> k \<and> wild ea mc (xs @ ys) (drop k text))"
    proof
      assume "\<exists>d\<le>length text - i. wild ea mc (xs @ ys) (drop (d + i) text)"
      then show "\<exists>k\<le>length text. i \<le> k \<and> wild ea mc (xs @ ys) (drop k text)"
        using Cons.prems by (metis le_add2 le_diff_conv2)
    next
      assume "\<exists>k\<le>length text. i \<le> k \<and> wild ea mc (xs @ ys) (drop k text)"
      then obtain k where "k \<le> length text" "i \<le> k" "wild ea mc (xs @ ys) (drop k text)" by blast
      then show "\<exists>d\<le>length text - i. wild ea mc (xs @ ys) (drop (d + i) text)"
        by (intro exI [of _ "k - i"]) auto
    qed
    also have "\<dots> \<longleftrightarrow> (\<exists>j. eats mc text (c # xs) i j \<and> wild ea mc ys (drop j text))"
      using Cons.IH True by (simp del: wild.simps) blast
    finally show ?thesis .
  next
    case False
    then have "wild ea mc ((c # xs) @ ys) (drop i text)
        \<longleftrightarrow> (\<exists>k. seg_run text mc [c] i = Some k \<and> wild ea mc (xs @ ys) (drop k text))"
      using wild_seg [of "[c]" i "text" ea mc "xs @ ys"] Cons.prems by (simp del: seg_run.simps)
    also have "\<dots> \<longleftrightarrow> (\<exists>k\<le>length text. i \<le> k \<and> seg_run text mc [c] i = Some k \<and> wild ea mc (xs @ ys) (drop k text))"
      using seg_run_bounds Cons.prems by blast
    also have "\<dots> \<longleftrightarrow> (\<exists>j. eats mc text (c # xs) i j \<and> wild ea mc ys (drop j text))"
      using Cons.IH False by (simp del: wild.simps seg_run.simps) blast
    finally show ?thesis .
  qed
qed simp

lemma separator_not_token: "is_separator b \<Longrightarrow> \<not> is_token_byte b"
  by (auto simp: is_separator_def is_token_byte_def)

lemma token_byte_lower [ascii_simps]: "is_token_byte (to_ascii_lowercase b) \<longleftrightarrow> is_token_byte b"
proof -
  have "\<not> is_ascii_alphabetic (CHR ''_'')" "\<not> is_ascii_alphabetic (CHR ''%'')"
    by (simp_all add: byte_class_defs)
  then show ?thesis by (simp add: is_token_byte_def ascii_simps lower_eq_nonalpha)
qed

lemma token_byte_plain: "is_token_byte b \<Longrightarrow> b \<noteq> CHR ''*'' \<and> b \<noteq> CHR ''^''"
  by (auto simp: is_token_byte_def byte_class_defs)

lemma byte_matches_lower: "byte_matches c x mc \<Longrightarrow> to_ascii_lowercase c = to_ascii_lowercase x"
  by (auto simp: byte_matches_def split: if_splits)

lemma byte_matches_token: "byte_matches c x mc \<Longrightarrow> is_token_byte x \<longleftrightarrow> is_token_byte c"
  by (metis byte_matches_lower token_byte_lower)

lemma seg_run_literal:
  assumes "seg_run text mc cs i = Some e" "\<And>c. c \<in> set cs \<Longrightarrow> c \<noteq> CHR ''^''" "i \<le> length text"
  shows "e = i + length cs \<and> e \<le> length text \<and> lower cs = lower (take (length cs) (drop i text))"
  using assms
proof (induction cs arbitrary: i)
  case (Cons c cs)
  then have i: "i < length text" "byte_matches c (text ! i) mc" "seg_run text mc cs (i + 1) = Some e"
    by (auto split: if_splits)
  from Cons.IH [OF i(3)] Cons.prems i show ?case
    by (simp add: drop_cons [OF i(1)] byte_matches_lower [OF i(2)])
qed simp

text \<open>Where a literal stretch of a matching pattern ends up in the text, and what a neighbouring
  non-token pattern byte says about the text around it.\<close>

definition left_edge :: "string \<Rightarrow> nat \<Rightarrow> bool" where
  "left_edge text j \<longleftrightarrow> j = 0 \<or> \<not> is_token_byte (text ! (j - 1))"

definition right_edge :: "string \<Rightarrow> nat \<Rightarrow> bool" where
  "right_edge text e \<longleftrightarrow> e = length text \<or> \<not> is_token_byte (text ! e)"

lemma eats_left_edge:
  assumes "eats mc text (pre @ [c]) i j" "i \<le> length text" "c \<noteq> CHR ''*''" "\<not> is_token_byte c"
    and "j < length text"
  shows "left_edge text j"
proof -
  obtain k where k: "eats mc text pre i k" "seg_run text mc [c] k = Some j"
    using assms by (auto simp: eats_append simp del: seg_run.simps)
  have "k \<le> length text" using eats_bounds [OF k(1) assms(2)] by simp
  then have "j = Suc k" "(if c = CHR ''^'' then is_separator (text ! k) else byte_matches c (text ! k) mc)"
    using k(2) assms(5) by (auto split: if_splits)
  then show ?thesis
    using assms(4) separator_not_token byte_matches_token
    by (auto simp: left_edge_def split: if_splits)
qed

lemma wild_right_edge:
  assumes "wild ea mc (c # post) (drop e text)" "c \<noteq> CHR ''*''" "\<not> is_token_byte c" "e \<le> length text"
  shows "right_edge text e"
proof (cases "e = length text")
  case False
  then have "e < length text" using assms(4) by simp
  with assms have "if c = CHR ''^'' then is_separator (text ! e) else byte_matches c (text ! e) mc"
    by (simp add: drop_cons split: if_splits)
  then show ?thesis
    using assms(3) separator_not_token byte_matches_token
    by (auto simp: right_edge_def split: if_splits)
qed (simp add: right_edge_def)

lemma literal_in_text:
  assumes "wild ea mc (pre @ lit @ post) (drop i text)" "i \<le> length text"
    and "\<And>c. c \<in> set lit \<Longrightarrow> c \<noteq> CHR ''*'' \<and> c \<noteq> CHR ''^''"
  obtains j where "eats mc text pre i j" "j + length lit \<le> length text"
    "lower lit = lower (take (length lit) (drop j text))"
    "wild ea mc post (drop (j + length lit) text)"
proof -
  obtain j where j: "eats mc text pre i j" "wild ea mc (lit @ post) (drop j text)"
    using wild_split [OF assms(2)] assms(1) by blast
  have le: "j \<le> length text" using eats_bounds [OF j(1) assms(2)] by simp
  have "CHR ''*'' \<notin> set lit" using assms(3) by blast
  then obtain e where e: "seg_run text mc lit j = Some e" "wild ea mc post (drop e text)"
    using wild_seg [OF _ le] j(2) by blast
  have "e = j + length lit \<and> e \<le> length text \<and> lower lit = lower (take (length lit) (drop j text))"
    using seg_run_literal [OF e(1) _ le] assms(3) by blast
  with that j(1) e(2) show ?thesis by blast
qed

section \<open>No match is lost by the token index\<close>

text \<open>The keys a lookup probes for one URL token of sufficient length.\<close>

definition url_keys :: "string \<Rightarrow> (key_kind \<times> string) list" where
  "url_keys token =
     [(Exact, token), (Prefix, take MIN_TOKEN_LEN token),
      (Suffix, drop (length token - MIN_TOKEN_LEN) token)]"

definition offers :: "string \<Rightarrow> key_kind \<Rightarrow> string \<Rightarrow> bool" where
  "offers url kind key \<longleftrightarrow>
     (\<exists>(a, b)\<in>set (token_spans 0 url). MIN_TOKEN_LEN \<le> b - a \<and>
        (\<exists>key'. (kind, key') \<in> set (url_keys (take (b - a) (drop a url))) \<and> lower key' = lower key))"

lemma offersI:
  assumes "(a, b) \<in> set (token_spans 0 url)" "MIN_TOKEN_LEN \<le> b - a"
    and "(kind, key') \<in> set (url_keys (take (b - a) (drop a url)))" "lower key' = lower key"
  shows "offers url kind key"
  using assms unfolding offers_def by blast

lemma lower_take_eq: "lower xs = lower ys \<Longrightarrow> lower (take n xs) = lower (take n ys)"
  by (metis take_map)

lemma lower_drop_eq: "lower xs = lower ys \<Longrightarrow> lower (drop n xs) = lower (drop n ys)"
  by (metis drop_map)

text \<open>The three ways a token of the text can contain a literal stretch.\<close>

lemma literal_offers:
  assumes lit: "\<forall>c\<in>set lit. is_token_byte c" "MIN_TOKEN_LEN \<le> length lit"
    and at: "j + length lit \<le> length url" "lower lit = lower (take (length lit) (drop j url))"
  shows "left_edge url j \<Longrightarrow> right_edge url (j + length lit) \<Longrightarrow> offers url Exact lit"
    and "left_edge url j \<Longrightarrow> offers url Prefix (take MIN_TOKEN_LEN lit)"
    and "right_edge url (j + length lit) \<Longrightarrow> offers url Suffix (drop (length lit - MIN_TOKEN_LEN) lit)"
proof -
  let ?e = "j + length lit"
  have tok: "is_token_byte (url ! i)" if "j \<le> i" "i < ?e" for i
  proof -
    define x where "x = i - j"
    have x: "i = j + x" "x < length lit" using that by (auto simp: x_def)
    have "to_ascii_lowercase (lit ! x) = to_ascii_lowercase (url ! i)"
      using arg_cong [OF at(2), of "\<lambda>l. l ! x"] x at(1) by simp
    then show ?thesis using lit(1) x(2) by (metis nth_mem token_byte_lower)
  qed
  have "j < ?e" using lit(2) by (cases lit) (simp_all add: MIN_TOKEN_LEN_def)
  from span_around [OF this at(1) tok] obtain a b
    where ab: "(a, b) \<in> set (token_spans 0 url)" "token_at url a b" "a \<le> j" "?e \<le> b"
      "left_edge url j \<Longrightarrow> a = j" "right_edge url ?e \<Longrightarrow> b = ?e"
    unfolding left_edge_def right_edge_def by blast
  let ?t = "take (b - a) (drop a url)"
  have b: "b \<le> length url" using ab(2) by (simp add: token_at_def)
  have len: "MIN_TOKEN_LEN \<le> b - a" using lit(2) ab(3,4) by simp
  note offered = offersI [OF ab(1) len]
  show "offers url Exact lit" if "left_edge url j" "right_edge url ?e"
    using ab(5,6) that at by (intro offered [of Exact ?t]) (simp_all add: url_keys_def)
  show "offers url Prefix (take MIN_TOKEN_LEN lit)" if "left_edge url j"
  proof (rule offered [of Prefix "take MIN_TOKEN_LEN ?t"])
    have "take MIN_TOKEN_LEN ?t = take MIN_TOKEN_LEN (take (length lit) (drop j url))"
      using ab(5) [OF that] len lit(2) by (simp add: min_def)
    then show "lower (take MIN_TOKEN_LEN ?t) = lower (take MIN_TOKEN_LEN lit)"
      using lower_take_eq [OF at(2)] by simp
  qed (simp add: url_keys_def)
  show "offers url Suffix (drop (length lit - MIN_TOKEN_LEN) lit)" if "right_edge url ?e"
  proof (rule offered [of Suffix "drop (length ?t - MIN_TOKEN_LEN) ?t"])
    have "?t = take (j - a) (drop a url) @ take (length lit) (drop j url)"
    proof -
      have ba: "b - a = (j - a) + length lit" using ab(3) ab(6) [OF that] by simp
      show ?thesis unfolding ba take_add drop_drop using ab(3) by simp
    qed
    moreover have "length (take (length lit) (drop j url)) = length lit" using at(1) by simp
    ultimately have "drop (length ?t - MIN_TOKEN_LEN) ?t
        = drop (length lit - MIN_TOKEN_LEN) (take (length lit) (drop j url))"
      using lit(2) by simp
    then show "lower (drop (length ?t - MIN_TOKEN_LEN) ?t) = lower (drop (length lit - MIN_TOKEN_LEN) lit)"
      using lower_drop_eq [OF at(2)] by simp
  qed (simp add: url_keys_def)
qed

lemma token_key_offered:
  assumes m: "wild ea mc pattern (drop start url)" "start \<le> length url"
    and anchored: "anchor \<noteq> ANCHOR_ANYWHERE \<Longrightarrow> left_edge url start"
    and span: "(s, e) \<in> set (token_spans 0 pattern)"
    and key: "token_key pattern anchor ea (s, e) = Some (kind, key, n)"
  shows "offers url kind key"
proof -
  define lit where "lit = take (e - s) (drop s pattern)"
  have t: "token_at pattern s e" using span by (rule token_spans_token_at)
  then have se: "s < e" "e \<le> length pattern" by (simp_all add: token_at_def)
  have parts: "pattern = take s pattern @ lit @ drop e pattern"
    using se by (simp add: lit_def) (metis append_take_drop_id drop_drop le_add_diff_inverse2 less_imp_le)
  have ll: "length lit = e - s" using se by (simp add: lit_def)
  have tok: "\<forall>c\<in>set lit. is_token_byte c"
    using t by (auto simp: lit_def in_set_conv_nth token_at_def)
  have min: "MIN_TOKEN_LEN \<le> length lit"
    using key by (auto simp: token_key_def lit_def Let_def split: if_splits)
  obtain j where j: "eats mc url (take s pattern) start j" "j + length lit \<le> length url"
    "lower lit = lower (take (length lit) (drop j url))" "wild ea mc (drop e pattern) (drop (j + length lit) url)"
    using literal_in_text [of ea mc "take s pattern" lit "drop e pattern" start url] m parts tok token_byte_plain
    by metis
  have jl: "j < length url" using j(2) ll se by linarith
  define lb where "lb \<longleftrightarrow> (if s = 0 then anchor \<noteq> ANCHOR_ANYWHERE else pattern ! (s - 1) \<noteq> CHR ''*'')"
  define rb where "rb \<longleftrightarrow> (if e = length pattern then ea else pattern ! e \<noteq> CHR ''*'')"
  have left: "left_edge url j" if lb
  proof (cases "s = 0")
    case True
    then have "j = start" using j(1) by simp
    with True that anchored show ?thesis by (simp add: lb_def)
  next
    case False
    then have pre: "take s pattern = take (s - 1) pattern @ [pattern ! (s - 1)]"
      using se by (metis Suc_diff_1 gr0I less_le_trans less_imp_le lessI take_Suc_conv_app_nth diff_less zero_less_one)
    have "\<not> is_token_byte (pattern ! (s - 1))" using t False by (simp add: token_at_def)
    with eats_left_edge [OF j(1) [unfolded pre] m(2)] False that jl show ?thesis by (simp add: lb_def)
  qed
  have right: "right_edge url (j + length lit)" if rb
  proof (cases "e = length pattern")
    case True
    with that j(4) j(2) show ?thesis by (simp add: rb_def right_edge_def)
  next
    case False
    then have post: "drop e pattern = pattern ! e # drop (Suc e) pattern"
      using se by (intro drop_cons) simp
    have "\<not> is_token_byte (pattern ! e)" using t False by (simp add: token_at_def)
    with wild_right_edge [OF j(4) [unfolded post]] False that j(2) show ?thesis by (simp add: rb_def)
  qed
  have "(kind, key) =
      (if lb \<and> rb then (Exact, lit) else if lb then (Prefix, take MIN_TOKEN_LEN lit)
       else (Suffix, drop (length lit - MIN_TOKEN_LEN) lit)) \<and> (lb \<or> rb)"
    using key min by (auto simp: token_key_def lit_def [symmetric] lb_def [symmetric] rb_def [symmetric]
        Let_def split: if_splits)
  then show ?thesis
    using literal_offers [OF tok min j(2,3)] left right by (cases lb; cases rb) auto
qed

section \<open>No match is lost by the n-gram index\<close>

lemma split_on_infix:
  assumes "w \<in> set (split_on p s)"
  shows "\<exists>pre post. s = pre @ w @ post"
  using assms
proof (induction s arbitrary: w)
  case (Cons a s)
  show ?case
  proof (cases "p a")
    case True
    then consider "w = []" | "w \<in> set (split_on p s)" using Cons.prems by auto
    then show ?thesis
    proof cases
      case 2
      then obtain pre post where "s = pre @ w @ post" using Cons.IH by blast
      then have "a # s = (a # pre) @ w @ post" by simp
      then show ?thesis by blast
    qed auto
  next
    case False
    then obtain v vs where v: "split_on p s = v # vs" "split_on p (a # s) = (a # v) # vs"
      by (rule split_on_no_sep)
    show ?thesis
    proof (cases "w = a # v")
      case True
      have "\<exists>post. s = v @ post"
        using v(1)
      proof (induction s arbitrary: v vs)
        case (Cons b s)
        show ?case
        proof (cases "p b")
          case False
          then obtain v' vs' where "split_on p s = v' # vs'" "split_on p (b # s) = (b # v') # vs'"
            by (rule split_on_no_sep)
          with Cons show ?thesis by auto
        qed (use Cons in auto)
      qed auto
      then obtain post where "a # s = [] @ w @ post" using True by auto
      then show ?thesis by blast
    next
      case neq: False
      then have "w \<in> set (split_on p s)" using Cons.prems v by auto
      then obtain pre post where "s = pre @ w @ post" using Cons.IH by blast
      then have "a # s = (a # pre) @ w @ post" by simp
      then show ?thesis by blast
    qed
  qed
qed auto

lemma ngram_word_lower: "ngram_word (lower w) = ngram_word w"
proof -
  have "ngram_push h (to_ascii_lowercase b) = ngram_push h b" for h b by (simp add: ngram_push_def)
  then show ?thesis by (simp add: ngram_word_def foldl_map)
qed

lemma hash_key_lower: "hash_key kind (lower w) = hash_key kind w"
  by (simp add: hash_key_def foldl_map)

lemma ngram_key_offered:
  assumes m: "wild ea mc pattern (drop start url)" "start \<le> length url"
    and key: "(word, n) \<in> set (ngram_keys pattern)"
  shows "\<exists>i. i + MIN_TOKEN_LEN \<le> length url \<and> ngram_word (take MIN_TOKEN_LEN (drop i url)) = word"
proof -
  let ?meta = "\<lambda>b. b = CHR ''*'' \<or> b = CHR ''^''"
  obtain run i where r: "run \<in> set (split_on ?meta pattern)" "i < length run + 1 - MIN_TOKEN_LEN"
    "word = ngram_word (take MIN_TOKEN_LEN (drop i run))"
    using key by (auto simp: ngram_keys_def windows_def split: if_splits)
  have "i + MIN_TOKEN_LEN \<le> length run" using r(2) by linarith
  note run = r(1) this r(3)
  obtain pre post where pat: "pattern = pre @ run @ post" using split_on_infix [OF run(1)] by blast
  have plain: "c \<noteq> CHR ''*'' \<and> c \<noteq> CHR ''^''" if "c \<in> set run" for c
    using split_on_pieces [OF run(1)] that by auto
  obtain j where j: "j + length run \<le> length url" "lower run = lower (take (length run) (drop j url))"
    using literal_in_text [OF m(1) [unfolded pat] m(2) plain] by blast
  have "lower (take MIN_TOKEN_LEN (drop i run)) = lower (take MIN_TOKEN_LEN (drop i (take (length run) (drop j url))))"
    by (intro lower_take_eq lower_drop_eq j(2))
  also have "take MIN_TOKEN_LEN (drop i (take (length run) (drop j url))) = take MIN_TOKEN_LEN (drop (j + i) url)"
    using run(2) by (simp add: drop_take add.commute)
  finally have "ngram_word (take MIN_TOKEN_LEN (drop (j + i) url)) = word"
    using run(3) by (metis ngram_word_lower)
  moreover have "j + i + MIN_TOKEN_LEN \<le> length url" using run(2) j(1) by linarith
  ultimately show ?thesis by blast
qed

text \<open>Different windows have different n-gram hashes: each step of the mixer is a bijection.\<close>

lemma xorshift_inj:
  assumes "(x :: u64) XOR drop_bit 33 x = y XOR drop_bit 33 y"
  shows "x = y"
proof -
  have inv: "(z XOR drop_bit 33 z) XOR drop_bit 33 (z XOR drop_bit 33 z) = z" for z :: u64
  proof (rule bit_word_eqI)
    fix n assume "n < LENGTH(64)"
    moreover have "\<not> bit z (33 + (33 + n))" using bit_imp_le_length [of z "33 + (33 + n)"] by auto
    ultimately show "bit ((z XOR drop_bit 33 z) XOR drop_bit 33 (z XOR drop_bit 33 z)) n = bit z n"
      by (auto simp: bit_simps)
  qed
  show ?thesis using inv [of x] inv [of y] assms by metis
qed

lemma odd_mult_inj:
  assumes "(c :: u64) * d = 1" "x * c = y * c"
  shows "x = y"
proof -
  have "z = z * c * d" for z :: u64 unfolding mult.assoc assms(1) by simp
  from this [of x] this [of y] show ?thesis unfolding assms(2) by simp
qed

lemma ngram_hash_inj: "ngram_hash a = ngram_hash b \<Longrightarrow> a = b"
proof -
  assume eq: "ngram_hash a = ngram_hash b"
  define f where "f w = (ucast w XOR seed Ngram :: u64) * 0xff51afd7ed558ccd" for w :: u32
  have e2: "(f a XOR drop_bit 33 (f a)) * 0xc4ceb9fe1a85ec53 = (f b XOR drop_bit 33 (f b)) * 0xc4ceb9fe1a85ec53"
    using eq by (simp only: ngram_hash_def f_def Let_def)
  have i2: "(0xc4ceb9fe1a85ec53 :: u64) * 0x9cb4b2f8129337db = 1" by simp
  have "f a XOR drop_bit 33 (f a) = f b XOR drop_bit 33 (f b)" by (rule odd_mult_inj [OF i2 e2])
  then have e1: "f a = f b" by (rule xorshift_inj)
  have i1: "(0xff51afd7ed558ccd :: u64) * 0x4f74430c22a54005 = 1" by simp
  have "(ucast a XOR seed Ngram :: u64) = ucast b XOR seed Ngram"
    by (rule odd_mult_inj [OF i1 e1 [unfolded f_def]])
  then have "((ucast a :: u64) XOR seed Ngram) XOR seed Ngram = (ucast b XOR seed Ngram) XOR seed Ngram"
    by (rule arg_cong)
  then have "(ucast a :: u64) = ucast b" unfolding xor.assoc xor_self_eq xor.right_neutral .
  then have "(ucast (ucast a :: u64) :: u32) = ucast (ucast b :: u64)" by simp
  moreover have "(ucast (ucast w :: u64) :: u32) = w" for w :: u32
    by (rule bit_word_eqI) (simp add: bit_simps)
  ultimately show "a = b" by simp
qed

text \<open>C25: Indexing loses no match. Whatever key a pattern is filed under (a whole token, the first
  or the last three bytes of one, or a three-byte window of a literal run), a URL the pattern
  matches offers that key, up to ASCII case, among the keys a lookup probes for it.\<close>

theorem index_keys_complete:
  assumes "wild ea mc pattern (drop start url)" "start \<le> length url"
    and "anchor \<noteq> ANCHOR_ANYWHERE \<Longrightarrow> left_edge url start"
  shows "(\<forall>(kind, key, n)\<in>set (index_keys pattern anchor ea). offers url kind key)
    \<and> (\<forall>(word, n)\<in>set (ngram_keys pattern).
         \<exists>i. i + MIN_TOKEN_LEN \<le> length url \<and> ngram_word (take MIN_TOKEN_LEN (drop i url)) = word)"
  using token_key_offered [OF assms] ngram_key_offered [OF assms(1,2)]
  by (fastforce simp: index_keys_def List.map_filter_def)

theorem index_keys_complete_witness:
  "index_keys ''ads*pixel^'' ANCHOR_DOMAIN False = [(Prefix, ''ads'', 3), (Suffix, ''xel'', 5)]
   \<and> offers ''http://ads9/my-Pixel?x'' Prefix ''ads'' \<and> offers ''http://ads9/my-Pixel?x'' Suffix ''xel''"
proof -
  let ?p = "''ads*pixel^''" and ?u = "''http://ads9/my-Pixel?x''"
  have keys: "index_keys ?p ANCHOR_DOMAIN False = [(Prefix, ''ads'', 3), (Suffix, ''xel'', 5)]"
    by code_simp
  have m: "wild False False ?p (drop 7 ?u)" "7 \<le> length ?u" "left_edge ?u 7" by code_simp+
  from index_keys_complete [OF m(1,2), of ANCHOR_DOMAIN] m(3) keys show ?thesis by auto
qed

end
