(* ===== verification/Url_Request.thy ===== *)
theory Url_Request
  imports Url_Tokens
begin

text \<open>
  Request-level predicates of the URL tier (\<open>fah-rules/src/url_matcher.rs\<close>): where the host sits
  in a URL, the registrable-domain approximation, and the \<open>$domain=\<close> and \<open>$method=\<close> options.
\<close>

section \<open>The host of a URL\<close>

definition host_span :: "string \<Rightarrow> nat \<times> nat" where
  "host_span url =
     (let start = (case find_str ''://'' url of None \<Rightarrow> 0 | Some at \<Rightarrow> at + 3);
          end = (case position (\<lambda>b. b = CHR ''/'' \<or> b = CHR ''?'' \<or> b = CHR ''#'') (drop start url) of
                   None \<Rightarrow> length url | Some offset \<Rightarrow> start + offset)
      in (start, end))"

lemma find_str_Some: "find_str p s = Some n \<Longrightarrow> n + length p \<le> length s \<and> take (length p) (drop n s) = p"
proof (induction p s arbitrary: n rule: find_str.induct)
  case (2 p c s)
  show ?case
  proof (cases "prefix p (c # s)")
    case True
    with 2 have "n = 0" by simp
    with True prefix_length_le [OF True] show ?thesis by (auto simp: prefix_def)
  next
    case False
    with 2 show ?thesis by auto
  qed
qed (auto split: if_splits)

lemma host_span_bounds:
  assumes "host_span url = (start, end)"
  shows "start \<le> end" "end \<le> length url" "left_edge url start"
proof -
  have s: "start = (case find_str ''://'' url of None \<Rightarrow> 0 | Some at \<Rightarrow> at + 3)"
    using assms by (simp add: host_span_def Let_def)
  have le: "start \<le> length url" using s by (auto split: option.splits dest: find_str_Some)
  have e: "end = (case position (\<lambda>b. b = CHR ''/'' \<or> b = CHR ''?'' \<or> b = CHR ''#'') (drop start url) of
      None \<Rightarrow> length url | Some offset \<Rightarrow> start + offset)"
    using assms by (simp add: host_span_def Let_def s [symmetric])
  show "start \<le> end" "end \<le> length url"
    using e le by (auto split: option.splits)
  show "left_edge url start"
  proof (cases "find_str ''://'' url")
    case None
    with s show ?thesis by (simp add: left_edge_def)
  next
    case (Some at)
    have at: "at + 3 \<le> length url" "take 3 (drop at url) = ''://''"
      using find_str_Some [OF Some] by (simp_all add: numeral_3_eq_3)
    have "url ! (at + 2) = ''://'' ! 2"
      using arg_cong [OF at(2), of "\<lambda>l. l ! 2"] at(1) by simp
    then have "\<not> is_token_byte (url ! (at + 2))" by (simp add: is_token_byte_def byte_class_defs)
    then show ?thesis using s Some by (simp add: left_edge_def)
  qed
qed

section \<open>First and third parties\<close>

text \<open>The loop of \<open>registrable\<close>, over the indices from the end.\<close>

fun registrable_loop :: "string \<Rightarrow> nat \<Rightarrow> nat list \<Rightarrow> string" where
  "registrable_loop host seen [] = host"
| "registrable_loop host seen (index # rest) =
     (if host ! index = CHR ''.'' then
        (if seen + 1 = 2 then drop (index + 1) host else registrable_loop host (seen + 1) rest)
      else registrable_loop host seen rest)"

definition registrable :: "string \<Rightarrow> string" where
  "registrable host = registrable_loop host 0 (rev [0..<length host])"

definition is_third_party :: "http_request \<Rightarrow> bool" where
  "is_third_party request =
     (case req_document_host request of
        Some document \<Rightarrow> \<not> eq_ignore_ascii_case (registrable document) (registrable (req_host request))
      | None \<Rightarrow> False)"

section \<open>Domain and method lists\<close>

function host_under_any_suffix_from :: "string \<Rightarrow> string \<Rightarrow> bool" where
  "host_under_any_suffix_from stem candidate =
     (if length stem < length candidate \<and> candidate ! length stem = CHR ''.''
         \<and> eq_ignore_ascii_case (take (length stem) candidate) stem
         \<and> (let tail = drop (length stem + 1) candidate
            in tail \<noteq> [] \<and> length (filter (\<lambda>b. b = CHR ''.'') tail) < 2)
      then True
      else case position (\<lambda>b. b = CHR ''.'') candidate of
        Some offset \<Rightarrow> host_under_any_suffix_from stem (drop (offset + 1) candidate)
      | None \<Rightarrow> False)"
  by pat_completeness auto
termination
  by (relation "measure (\<lambda>(_, c). length c)") (auto dest: position_less)

declare host_under_any_suffix_from.simps [simp del]

definition host_under_any_suffix :: "string \<Rightarrow> string \<Rightarrow> bool" where
  "host_under_any_suffix host stem = (stem \<noteq> [] \<and> host_under_any_suffix_from stem host)"

definition host_under :: "string \<Rightarrow> string \<Rightarrow> bool" where
  "host_under host entry =
     (case strip_suffix ''.*'' entry of
        Some stem \<Rightarrow> host_under_any_suffix host stem
      | None \<Rightarrow>
          eq_ignore_ascii_case host entry
        \<or> (length entry < length host
           \<and> host ! (length host - length entry - 1) = CHR ''.''
           \<and> eq_ignore_ascii_case (drop (length host - length entry) host) entry))"

text \<open>The loop the two options share: positive entries are a whitelist, negated ones a veto.\<close>

fun apply_entries :: "(string \<Rightarrow> bool) \<Rightarrow> bool \<Rightarrow> bool \<Rightarrow> string list \<Rightarrow> bool" where
  "apply_entries hit has_positive positive_hit [] = (\<not> has_positive \<or> positive_hit)"
| "apply_entries hit has_positive positive_hit (e # entries) =
     (let (e, negated) = (case strip_prefix ''~'' e of Some rest \<Rightarrow> (rest, True) | None \<Rightarrow> (e, False))
      in if e = [] then apply_entries hit has_positive positive_hit entries
         else if negated then
           (if hit e then False else apply_entries hit has_positive positive_hit entries)
         else apply_entries hit True (positive_hit \<or> hit e) entries)"

definition domains_apply :: "string \<Rightarrow> string option \<Rightarrow> bool" where
  "domains_apply raw document_host =
     apply_entries (\<lambda>e. case document_host of Some host \<Rightarrow> host_under host e | None \<Rightarrow> False)
       False False (split_on (\<lambda>b. b = CHR ''|'') raw)"

definition methods_apply :: "string \<Rightarrow> string \<Rightarrow> bool" where
  "methods_apply raw verb =
     apply_entries (\<lambda>e. eq_ignore_ascii_case verb e) False False (split_on (\<lambda>b. b = CHR ''|'') raw)"

section \<open>What they mean\<close>

definition positives :: "string list \<Rightarrow> string list" where
  "positives entries = filter (\<lambda>e. e \<noteq> [] \<and> strip_prefix ''~'' e = None) entries"

definition vetoes :: "string list \<Rightarrow> string list" where
  "vetoes entries = filter (\<lambda>e. e \<noteq> []) (List.map_filter (strip_prefix ''~'') entries)"

lemma apply_entries_spec:
  "apply_entries hit has_positive positive_hit entries \<longleftrightarrow>
     (\<forall>e\<in>set (vetoes entries). \<not> hit e)
   \<and> ((\<not> has_positive \<and> positives entries = []) \<or> positive_hit \<or> (\<exists>e\<in>set (positives entries). hit e))"
proof (induction entries arbitrary: has_positive positive_hit)
  case Nil
  then show ?case by (simp add: positives_def vetoes_def map_filter_simps)
next
  case (Cons e entries)
  show ?case
  proof (cases "strip_prefix ''~'' e")
    case None
    with Cons show ?thesis
      by (cases "e = []") (auto simp: positives_def vetoes_def map_filter_simps)
  next
    case (Some rest)
    then have "e \<noteq> []" by (auto simp: strip_prefix_Some)
    with Some Cons show ?thesis
      by (auto simp: positives_def vetoes_def map_filter_simps)
  qed
qed

text \<open>An entry \<open>stem.*\<close>: the stem at a label boundary, followed by one or two labels.\<close>

definition any_suffix_spec :: "string \<Rightarrow> string \<Rightarrow> bool" where
  "any_suffix_spec stem host \<longleftrightarrow>
     (\<exists>pre name tail. host = pre @ name @ CHR ''.'' # tail \<and> eq_ignore_ascii_case name stem
        \<and> (pre = [] \<or> last pre = CHR ''.'') \<and> tail \<noteq> []
        \<and> length (filter (\<lambda>b. b = CHR ''.'') tail) < 2)"

lemma any_suffix_head:
  "length stem < length c \<and> c ! length stem = CHR ''.''
     \<and> eq_ignore_ascii_case (take (length stem) c) stem
     \<and> (let tail = drop (length stem + 1) c
        in tail \<noteq> [] \<and> length (filter (\<lambda>b. b = CHR ''.'') tail) < 2)
   \<longleftrightarrow> (\<exists>name tail. c = name @ CHR ''.'' # tail \<and> eq_ignore_ascii_case name stem
        \<and> tail \<noteq> [] \<and> length (filter (\<lambda>b. b = CHR ''.'') tail) < 2)" (is "?L \<longleftrightarrow> ?R")
proof
  assume L: ?L
  then have "c = take (length stem) c @ CHR ''.'' # drop (length stem + 1) c"
    by (metis Suc_eq_plus1 id_take_nth_drop)
  with L show ?R unfolding Let_def by metis
next
  assume ?R
  then obtain name tail where c: "c = name @ CHR ''.'' # tail" "eq_ignore_ascii_case name stem"
    "tail \<noteq> []" "length (filter (\<lambda>b. b = CHR ''.'') tail) < 2" by blast
  moreover have "length name = length stem" using c(2) by (rule eq_ignore_ascii_case_length)
  ultimately show ?L by (simp add: Let_def nth_append)
qed

lemma host_under_any_suffix_from_spec: "host_under_any_suffix_from stem c \<longleftrightarrow> any_suffix_spec stem c"
proof (induction stem c rule: host_under_any_suffix_from.induct)
  case (1 stem c)
  let ?head = "\<exists>name tail. c = name @ CHR ''.'' # tail \<and> eq_ignore_ascii_case name stem
        \<and> tail \<noteq> [] \<and> length (filter (\<lambda>b. b = CHR ''.'') tail) < 2"
  show ?case
  proof (cases ?head)
    case True
    have "any_suffix_spec stem c"
      using True unfolding any_suffix_spec_def by (metis append_Nil)
    moreover have "host_under_any_suffix_from stem c"
      using True unfolding any_suffix_head [symmetric] by (subst host_under_any_suffix_from.simps) simp
    ultimately show ?thesis by simp
  next
    case False
    note nohead = False [folded any_suffix_head]
    show ?thesis
    proof (cases "position (\<lambda>b. b = CHR ''.'') c")
      case None
      then have "CHR ''.'' \<notin> set c" by (auto simp: position_None)
      then have "\<not> any_suffix_spec stem c" by (auto simp: any_suffix_spec_def)
      moreover have "\<not> host_under_any_suffix_from stem c"
        using nohead None by (subst host_under_any_suffix_from.simps) auto
      ultimately show ?thesis by simp
    next
      case (Some off)
      have off: "off < length c" "c ! off = CHR ''.''" "\<And>i. i < off \<Longrightarrow> c ! i \<noteq> CHR ''.''"
        using Some by (auto simp: position_Some)
      have "host_under_any_suffix_from stem c = host_under_any_suffix_from stem (drop (off + 1) c)"
        using nohead Some by (subst host_under_any_suffix_from.simps) auto
      also have "\<dots> = any_suffix_spec stem (drop (off + 1) c)" using 1 nohead Some by simp
      also have "\<dots> = any_suffix_spec stem c"
      proof
        assume "any_suffix_spec stem (drop (off + 1) c)"
        then obtain pre name tail where r: "drop (off + 1) c = pre @ name @ CHR ''.'' # tail"
          "eq_ignore_ascii_case name stem" "pre = [] \<or> last pre = CHR ''.''" "tail \<noteq> []"
          "length (filter (\<lambda>b. b = CHR ''.'') tail) < 2" by (auto simp: any_suffix_spec_def)
        have "c = (take (off + 1) c @ pre) @ name @ CHR ''.'' # tail"
          using r(1) by (metis append.assoc append_take_drop_id)
        moreover have "last (take (off + 1) c @ pre) = CHR ''.''"
          using r(3) off(1,2) by (cases "pre = []") (auto simp: take_Suc_conv_app_nth)
        ultimately show "any_suffix_spec stem c" using r unfolding any_suffix_spec_def by blast
      next
        assume "any_suffix_spec stem c"
        then obtain pre name tail where r: "c = pre @ name @ CHR ''.'' # tail"
          "eq_ignore_ascii_case name stem" "pre = [] \<or> last pre = CHR ''.''" "tail \<noteq> []"
          "length (filter (\<lambda>b. b = CHR ''.'') tail) < 2" by (auto simp: any_suffix_spec_def)
        then have pre: "pre \<noteq> []" "last pre = CHR ''.''" using False by (auto simp del: append_assoc)
        have lt: "off < length pre"
        proof (rule ccontr)
          assume "\<not> off < length pre"
          then have "length pre - 1 < off" using pre(1) by (cases pre) auto
          moreover have "c ! (length pre - 1) = CHR ''.''"
            using r(1) pre by (simp add: nth_append last_conv_nth)
          ultimately show False using off(3) by blast
        qed
        then have "drop (off + 1) c = drop (off + 1) pre @ name @ CHR ''.'' # tail" using r(1) by simp
        moreover have "drop (off + 1) pre = [] \<or> last (drop (off + 1) pre) = CHR ''.''"
          using pre by (cases "off + 1 < length pre") auto
        ultimately show "any_suffix_spec stem (drop (off + 1) c)"
          using r unfolding any_suffix_spec_def by blast
      qed
      finally show ?thesis .
    qed
  qed
qed

definition under_spec :: "string \<Rightarrow> string \<Rightarrow> bool" where
  "under_spec host entry \<longleftrightarrow>
     (case strip_suffix ''.*'' entry of
        Some stem \<Rightarrow> stem \<noteq> [] \<and> any_suffix_spec stem host
      | None \<Rightarrow> (\<exists>pre name. host = pre @ name \<and> eq_ignore_ascii_case name entry
                  \<and> (pre = [] \<or> last pre = CHR ''.'')))"

lemma host_under_spec: "host_under host entry \<longleftrightarrow> under_spec host entry"
proof (cases "strip_suffix ''.*'' entry")
  case (Some stem)
  then show ?thesis
    by (simp add: host_under_def under_spec_def host_under_any_suffix_def host_under_any_suffix_from_spec)
next
  case None
  have "host_under host entry \<longleftrightarrow>
      (\<exists>pre name. host = pre @ name \<and> eq_ignore_ascii_case name entry \<and> (pre = [] \<or> last pre = CHR ''.''))"
    (is "_ \<longleftrightarrow> ?R")
  proof
    assume "host_under host entry"
    then consider "eq_ignore_ascii_case host entry"
      | "length entry < length host" "host ! (length host - length entry - 1) = CHR ''.''"
        "eq_ignore_ascii_case (drop (length host - length entry) host) entry"
      using None by (auto simp: host_under_def)
    then show ?R
    proof cases
      case 1
      then show ?thesis by (metis append_Nil)
    next
      case 2
      let ?n = "length host - length entry"
      have "last (take ?n host) = host ! (?n - 1)"
        using 2(1) by (subst last_conv_nth) auto
      then show ?thesis using 2 by (metis append_take_drop_id)
    qed
  next
    assume ?R
    then obtain pre name where r: "host = pre @ name" "eq_ignore_ascii_case name entry"
      "pre = [] \<or> last pre = CHR ''.''" by blast
    have l: "length name = length entry" using r(2) by (rule eq_ignore_ascii_case_length)
    show "host_under host entry"
    proof (cases "pre = []")
      case True
      with r None show ?thesis by (simp add: host_under_def)
    next
      case False
      then have "host ! (length host - length entry - 1) = last pre"
        using r(1) l by (simp add: nth_append last_conv_nth)
      with False r l None show ?thesis by (simp add: host_under_def)
    qed
  qed
  with None show ?thesis by (simp add: under_spec_def)
qed

text \<open>C27: \<open>$domain=\<close> applies to a document exactly when none of its \<open>~\<close> entries covers the
  document's host and, if it has positive entries, one of them does. An entry covers a host that
  is that name or lies below it at a label boundary; \<open>name.*\<close> covers a host with that name at a
  label boundary and one or two labels after it. Without a document no entry covers.\<close>

theorem domains_apply_meaning:
  "domains_apply raw document_host \<longleftrightarrow>
     (let entries = split_on (\<lambda>b. b = CHR ''|'') raw;
          covers = (\<lambda>e. \<exists>host. document_host = Some host \<and> under_spec host e)
      in \<not> list_ex covers (vetoes entries)
       \<and> (positives entries = [] \<or> list_ex covers (positives entries)))"
proof -
  have "(case document_host of Some host \<Rightarrow> host_under host e | None \<Rightarrow> False)
      \<longleftrightarrow> (\<exists>host. document_host = Some host \<and> under_spec host e)" for e
    by (cases document_host) (auto simp: host_under_spec)
  then show ?thesis
    by (simp add: domains_apply_def apply_entries_spec Let_def list_ex_iff)
qed

lemma methods_apply_spec:
  "methods_apply raw verb \<longleftrightarrow>
     (let entries = split_on (\<lambda>b. b = CHR ''|'') raw
      in \<not> list_ex (eq_ignore_ascii_case verb) (vetoes entries)
       \<and> (positives entries = [] \<or> list_ex (eq_ignore_ascii_case verb) (positives entries)))"
  by (simp add: methods_apply_def apply_entries_spec Let_def list_ex_iff)

end
