(* ===== verification/Merge.thy ===== *)
theory Merge
  imports Prelude
begin

text \<open>
  What deduplication promises, in both tiers of the matcher: rules are reduced to an identity and
  the mask of the policies that see them; a rule whose identity is already present adds its mask to
  the first occurrence, any other is appended. \<open>merge_one\<close> is that contract, and the lemmas say what
  a reader of the merged list can rely on: nothing visible is lost and nothing becomes visible.
\<close>

fun merge_one :: "'k \<times> u16 \<Rightarrow> ('k \<times> u16) list \<Rightarrow> ('k \<times> u16) list" where
  "merge_one (k, m) [] = [(k, m)]"
| "merge_one (k, m) ((k', m') # A) =
     (if k' = k then (k', m' OR m) # A else (k', m') # merge_one (k, m) A)"

definition merge_all :: "('k \<times> u16) list \<Rightarrow> ('k \<times> u16) list" where
  "merge_all xs = fold merge_one xs []"

lemma merge_one_new: "k \<notin> fst ` set A \<Longrightarrow> merge_one (k, m) A = A @ [(k, m)]"
  by (induction A) auto

lemma merge_one_present:
  assumes "i < length A" "fst (A ! i) = k" "\<And>j. j < i \<Longrightarrow> fst (A ! j) \<noteq> k"
  shows "merge_one (k, m) A = A[i := (k, snd (A ! i) OR m)]"
  using assms
proof (induction A arbitrary: i)
  case (Cons a A)
  obtain k' m' where a: "a = (k', m')" by (cases a)
  show ?case
  proof (cases i)
    case 0
    with Cons a show ?thesis by simp
  next
    case (Suc i')
    with Cons.prems(3) [of 0] a have "k' \<noteq> k" by simp
    moreover have "merge_one (k, m) A = A[i' := (k, snd (A ! i') OR m)]"
    proof (rule Cons.IH)
      show "fst (A ! j) \<noteq> k" if "j < i'" for j using Cons.prems(3) [of "Suc j"] Suc that by simp
    qed (use Cons.prems Suc in auto)
    ultimately show ?thesis using a Suc by simp
  qed
qed simp

lemma merge_one_at:
  assumes "distinct (map fst A)" "i < length A" "fst (A ! i) = k"
  shows "merge_one (k, m) A = A[i := (k, snd (A ! i) OR m)]"
proof (rule merge_one_present [OF assms(2,3)])
  fix j assume "j < i"
  then have "map fst A ! j \<noteq> map fst A ! i" using nth_eq_iff_index_eq [OF assms(1), of j i] assms(2) by simp
  then show "fst (A ! j) \<noteq> k" using assms(2,3) \<open>j < i\<close> by simp
qed

text \<open>Updating a mask in place keeps the keys.\<close>

lemma fst_mask_update:
  assumes "fst (A ! i) = k" "j < length A"
  shows "fst (A[i := (k, m)] ! j) = fst (A ! j)"
  using assms by (cases "j = i") auto

lemma keys_mask_update: "fst (A ! i) = k \<Longrightarrow> map fst (A[i := (k, m)]) = map fst A"
  by (rule nth_equalityI) (simp_all add: fst_mask_update)

lemma merge_one_keys: "map fst (merge_one (k, m) A) = (if k \<in> fst ` set A then map fst A else map fst A @ [k])"
proof (induction A)
  case (Cons a A)
  obtain k' m' where a: "a = (k', m')" by (cases a)
  show ?case
  proof (cases "k' = k")
    case False
    with Cons a show ?thesis by (cases "k \<in> fst ` set A") simp_all
  qed (simp add: a)
qed simp

lemma distinct_merge_one: "distinct (map fst A) \<Longrightarrow> distinct (map fst (merge_one x A))"
  by (cases x) (auto simp: merge_one_keys)

lemma mask_or_meets: "(m OR m') AND b \<noteq> (0 :: u16) \<longleftrightarrow> m AND b \<noteq> 0 \<or> m' AND b \<noteq> 0"
proof -
  have "(m OR m') AND b = (m AND b) OR (m' AND b)" by (simp add: bit.conj_disj_distrib2)
  moreover have "x OR y = 0 \<longleftrightarrow> x = 0 \<and> y = 0" for x y :: u16
    by (auto simp: bit_eq_iff bit_or_iff)
  ultimately show ?thesis by simp
qed

text \<open>Some key with a property is visible under policy bit \<open>b\<close>.\<close>

definition seen :: "u16 \<Rightarrow> ('k \<Rightarrow> bool) \<Rightarrow> ('k \<times> u16) list \<Rightarrow> bool" where
  "seen b P A \<longleftrightarrow> (\<exists>(k, m)\<in>set A. m AND b \<noteq> 0 \<and> P k)"

lemma seen_simps [simp]:
  "seen b P [] \<longleftrightarrow> False"
  "seen b P ((k, m) # A) \<longleftrightarrow> (m AND b \<noteq> 0 \<and> P k) \<or> seen b P A"
  "seen b P (A @ B) \<longleftrightarrow> seen b P A \<or> seen b P B"
  by (auto simp: seen_def)

lemma seen_merge_one: "seen b P (merge_one (k, m) A) \<longleftrightarrow> (m AND b \<noteq> 0 \<and> P k) \<or> seen b P A"
proof (induction A)
  case (Cons a A)
  obtain k' m' where a: "a = (k', m')" by (cases a)
  show ?case
  proof (cases "k' = k")
    case True
    with a show ?thesis by (simp add: mask_or_meets) blast
  next
    case False
    with a Cons show ?thesis by (simp add: disj_left_commute)
  qed
qed simp

lemma seen_fold: "seen b P (fold merge_one xs A) \<longleftrightarrow> seen b P xs \<or> seen b P A"
proof (induction xs arbitrary: A)
  case (Cons x xs)
  obtain k m where "x = (k, m)" by (cases x)
  with Cons show ?case by (simp add: seen_merge_one) blast
qed simp

lemma seen_merge_all: "seen b P (merge_all xs) \<longleftrightarrow> seen b P xs"
  by (simp add: merge_all_def seen_fold)

lemma distinct_fold_merge: "distinct (map fst A) \<Longrightarrow> distinct (map fst (fold merge_one xs A))"
  by (induction xs arbitrary: A) (simp_all add: distinct_merge_one)

lemma length_merge_one: "length (merge_one (k, m) A) \<le> Suc (length A)"
proof -
  have "length (map fst (merge_one (k, m) A)) \<le> Suc (length A)" unfolding merge_one_keys by simp
  then show ?thesis by simp
qed

end
