(* ===== verification/Url_Builder.thy ===== *)
theory Url_Builder
  imports Url_Request Merge "HOL-Library.Product_Lexorder"
begin

text \<open>
  Compiling the URL tier (\<open>UrlIndexBuilder\<close> of \<open>fah-rules/src/url_matcher.rs\<close>): rules are appended
  to two arenas and a record table, exact duplicates are merged, and \<open>build\<close> files every record
  under its rarest key in a bucket table with an n-gram tier and a Bloom prefilter.

  A \<open>HashMap\<close> is a map; slicing, indexing and \<open>expect\<close> may panic, so the operations return an
  \<open>option\<close>.
\<close>

section \<open>Records\<close>

definition U_FLAG_ALLOW :: u16 where "U_FLAG_ALLOW = push_bit 0 1"
definition FLAG_END_ANCHORED :: u16 where "FLAG_END_ANCHORED = push_bit 1 1"
definition FLAG_MATCH_CASE :: u16 where "FLAG_MATCH_CASE = push_bit 2 1"
definition FLAG_METHODS :: u16 where "FLAG_METHODS = push_bit 3 1"
definition ANCHOR_SHIFT :: nat where "ANCHOR_SHIFT = 4"
definition ANCHOR_MASK :: u16 where "ANCHOR_MASK = push_bit ANCHOR_SHIFT 3"
definition PARTY_SHIFT :: nat where "PARTY_SHIFT = 6"
definition PARTY_MASK :: u16 where "PARTY_MASK = push_bit PARTY_SHIFT 3"
definition U_FLAG_CLIENT :: u16 where "U_FLAG_CLIENT = push_bit 8 1"
definition PARTY_ANY :: u16 where "PARTY_ANY = 0"
definition PARTY_THIRD :: u16 where "PARTY_THIRD = 1"
definition PARTY_FIRST :: u16 where "PARTY_FIRST = 2"

record url_record =
  uc_pat_off :: u32
  uc_dom_off :: u32
  uc_pat_len :: u16
  uc_dom_len :: u16
  uc_types :: u16
  uc_flags :: u16

definition uc_is_allow :: "url_record \<Rightarrow> bool" where
  "uc_is_allow self \<longleftrightarrow> uc_flags self AND U_FLAG_ALLOW \<noteq> 0"
definition uc_end_anchored :: "url_record \<Rightarrow> bool" where
  "uc_end_anchored self \<longleftrightarrow> uc_flags self AND FLAG_END_ANCHORED \<noteq> 0"
definition uc_match_case :: "url_record \<Rightarrow> bool" where
  "uc_match_case self \<longleftrightarrow> uc_flags self AND FLAG_MATCH_CASE \<noteq> 0"
definition uc_has_methods :: "url_record \<Rightarrow> bool" where
  "uc_has_methods self \<longleftrightarrow> uc_flags self AND FLAG_METHODS \<noteq> 0"
definition uc_has_client :: "url_record \<Rightarrow> bool" where
  "uc_has_client self \<longleftrightarrow> uc_flags self AND U_FLAG_CLIENT \<noteq> 0"
definition uc_anchor :: "url_record \<Rightarrow> u16" where
  "uc_anchor self = drop_bit ANCHOR_SHIFT (uc_flags self AND ANCHOR_MASK)"
definition uc_party :: "url_record \<Rightarrow> u16" where
  "uc_party self = drop_bit PARTY_SHIFT (uc_flags self AND PARTY_MASK)"

definition anchor_bits :: "url_anchor \<Rightarrow> u16" where
  "anchor_bits a =
     (case a of AnchorDomain \<Rightarrow> ANCHOR_DOMAIN | AnchorStart \<Rightarrow> ANCHOR_START
      | AnchorAnywhere \<Rightarrow> ANCHOR_ANYWHERE)"

definition party_bits :: "party \<Rightarrow> u16" where
  "party_bits p =
     (case p of PartyAny \<Rightarrow> PARTY_ANY | PartyThird \<Rightarrow> PARTY_THIRD | PartyFirst \<Rightarrow> PARTY_FIRST)"

definition flags_of :: "url_rule \<Rightarrow> u16" where
  "flags_of rule =
     (let flags = 0;
          flags = (if ur_action rule = AllowRule then flags OR U_FLAG_ALLOW else flags);
          flags = (if ur_end_anchored rule then flags OR FLAG_END_ANCHORED else flags);
          flags = (if ur_match_case rule then flags OR FLAG_MATCH_CASE else flags);
          flags = (if ur_methods rule \<noteq> None then flags OR FLAG_METHODS else flags);
          flags = (if ur_client rule \<noteq> None then flags OR U_FLAG_CLIENT else flags)
      in flags OR push_bit ANCHOR_SHIFT (anchor_bits (ur_anchor rule))
               OR push_bit PARTY_SHIFT (party_bits (ur_party rule)))"

section \<open>Adding rules\<close>

record url_builder =
  ub_patterns :: string
  ub_domains :: string
  ub_records :: "url_record list"
  ub_list_ids :: "u16 list"
  ub_policy_mask :: "u16 list"
  ub_methods :: "u32 \<Rightarrow> string option"
  ub_clients :: "u32 \<Rightarrow> client_scope option"
  ub_dedup :: "u64 \<Rightarrow> u32 list option"
  ub_duplicates_removed :: nat
  ub_named_client_scopes :: bool

definition url_builder_default :: url_builder where
  "url_builder_default =
     \<lparr> ub_patterns = [], ub_domains = [], ub_records = [], ub_list_ids = [], ub_policy_mask = [],
       ub_methods = Map.empty, ub_clients = Map.empty, ub_dedup = Map.empty,
       ub_duplicates_removed = 0, ub_named_client_scopes = False \<rparr>"

definition to_le_bytes :: "u16 \<Rightarrow> string" where
  "to_le_bytes w = [char_of (uint (w AND 0xff)), char_of (uint (drop_bit 8 w))]"

definition url_identity_hash :: "string \<Rightarrow> string \<Rightarrow> u16 \<Rightarrow> url_rule \<Rightarrow> u64" where
  "url_identity_hash pattern domains flags rule =
     foldl hash_extend (hash_key Exact pattern)
       [domains, to_le_bytes flags, to_le_bytes (ur_resource_types rule)]"

definition arena_slice :: "string \<Rightarrow> u32 \<Rightarrow> u16 \<Rightarrow> string option" where
  "arena_slice arena off len = slice arena (unat off) (unat off + unat len)"

definition ub_pattern_of :: "url_builder \<Rightarrow> url_record \<Rightarrow> string option" where
  "ub_pattern_of self record = arena_slice (ub_patterns self) (uc_pat_off record) (uc_pat_len record)"

definition ub_domains_of :: "url_builder \<Rightarrow> url_record \<Rightarrow> string option" where
  "ub_domains_of self record = arena_slice (ub_domains self) (uc_dom_off record) (uc_dom_len record)"

definition url_identity_matches ::
  "url_builder \<Rightarrow> u32 \<Rightarrow> string \<Rightarrow> string \<Rightarrow> u16 \<Rightarrow> url_rule \<Rightarrow> bool option" where
  "url_identity_matches self index pattern domains flags rule =
     (case index_at (ub_records self) (unat index) of
        None \<Rightarrow> None
      | Some record \<Rightarrow>
          if uc_flags record \<noteq> flags \<or> uc_types record \<noteq> ur_resource_types rule then Some False
          else case ub_pattern_of self record of
            None \<Rightarrow> None
          | Some p \<Rightarrow>
              if p \<noteq> pattern then Some False
              else case ub_domains_of self record of
                None \<Rightarrow> None
              | Some d \<Rightarrow>
                  Some (d = domains \<and> ub_methods self index = ur_methods rule
                    \<and> map_option cs_raw (ub_clients self index) = ur_client rule))"

text \<open>\<open>iter().find(p)\<close> with a predicate that may panic.\<close>

fun try_find :: "('a \<Rightarrow> bool option) \<Rightarrow> 'a list \<Rightarrow> 'a option option" where
  "try_find p [] = Some None"
| "try_find p (x # xs) =
     (case p x of None \<Rightarrow> None | Some True \<Rightarrow> Some (Some x) | Some False \<Rightarrow> try_find p xs)"

text \<open>A \<open>$client\<close> payload that does not compile drops the rule: \<open>None\<close>.\<close>

definition compile_scope :: "string option \<Rightarrow> client_scope option option" where
  "compile_scope client =
     (case client of None \<Rightarrow> Some None | Some raw \<Rightarrow> map_option Some (client_scope_parse raw))"

text \<open>\<open>u32::try_from(n).expect(..)\<close>.\<close>

definition expect_u32 :: "nat \<Rightarrow> u32 option" where
  "expect_u32 n = (if int n < 2 ^ 32 then Some (of_nat n) else None)"

definition url_push ::
  "url_builder \<Rightarrow> u16 \<Rightarrow> url_rule \<Rightarrow> u16 \<Rightarrow> client_scope option \<Rightarrow> url_builder option" where
  "url_push self list_id rule policy_mask scope =
     (let pattern = ur_pattern rule;
          domains = (case ur_domains rule of Some d \<Rightarrow> d | None \<Rightarrow> []);
          flags = flags_of rule;
          identity = url_identity_hash pattern domains flags rule
      in do {
        index \<leftarrow> expect_u32 (length (ub_records self));
        pat_off \<leftarrow> expect_u32 (length (ub_patterns self));
        dom_off \<leftarrow> expect_u32 (length (ub_domains self));
        Some (self\<lparr>
          ub_patterns := ub_patterns self @ pattern,
          ub_domains := ub_domains self @ domains,
          ub_methods := (case ur_methods rule of
             Some raw \<Rightarrow> (ub_methods self)(index \<mapsto> raw) | None \<Rightarrow> ub_methods self),
          ub_named_client_scopes := (case scope of
             Some scope \<Rightarrow> ub_named_client_scopes self \<or> names_a_client scope
           | None \<Rightarrow> ub_named_client_scopes self),
          ub_clients := (case scope of
             Some scope \<Rightarrow> (ub_clients self)(index \<mapsto> scope) | None \<Rightarrow> ub_clients self),
          ub_records := ub_records self @
            [\<lparr> uc_pat_off = pat_off, uc_dom_off = dom_off, uc_pat_len = of_nat (length pattern),
               uc_dom_len = of_nat (length domains), uc_types = ur_resource_types rule,
               uc_flags = flags \<rparr>],
          ub_list_ids := ub_list_ids self @ [list_id],
          ub_policy_mask := ub_policy_mask self @ [policy_mask],
          ub_dedup := (ub_dedup self)(identity \<mapsto>
             (case ub_dedup self identity of Some is \<Rightarrow> is | None \<Rightarrow> []) @ [index]) \<rparr>)
      })"

definition url_add :: "url_builder \<Rightarrow> u16 \<Rightarrow> url_rule \<Rightarrow> u16 \<Rightarrow> url_builder option" where
  "url_add self list_id rule policy_mask =
     (let pattern = ur_pattern rule;
          domains = (case ur_domains rule of Some d \<Rightarrow> d | None \<Rightarrow> []);
          flags = flags_of rule
      in if 65535 < int (length pattern) \<or> pattern = [] then Some self
         else if 65535 < int (length domains) then Some self
         else case compile_scope (ur_client rule) of
           None \<Rightarrow> Some self
         | Some scope \<Rightarrow>
             (case ub_dedup self (url_identity_hash pattern domains flags rule) of
                None \<Rightarrow> url_push self list_id rule policy_mask scope
              | Some existing \<Rightarrow>
                  (case try_find (\<lambda>idx. url_identity_matches self idx pattern domains flags rule) existing of
                     None \<Rightarrow> None
                   | Some None \<Rightarrow> url_push self list_id rule policy_mask scope
                   | Some (Some idx) \<Rightarrow>
                       (case index_at (ub_policy_mask self) (unat idx) of
                          None \<Rightarrow> None
                        | Some m \<Rightarrow>
                            Some (self\<lparr>
                              ub_policy_mask := (ub_policy_mask self)[unat idx := m OR policy_mask],
                              ub_duplicates_removed := ub_duplicates_removed self + 1 \<rparr>)))))"

section \<open>Adding a rule merges its identity\<close>

text \<open>A rule's identity: flags, resource types, pattern, \<open>$domain\<close>, \<open>$method\<close>, \<open>$client\<close>.\<close>

type_synonym url_sem = "u16 \<times> u16 \<times> string \<times> string \<times> string option \<times> string option"

definition rule_domains :: "url_rule \<Rightarrow> string" where
  "rule_domains rule = (case ur_domains rule of Some d \<Rightarrow> d | None \<Rightarrow> [])"

definition sem_of_rule :: "url_rule \<Rightarrow> url_sem" where
  "sem_of_rule rule =
     (flags_of rule, ur_resource_types rule, ur_pattern rule, rule_domains rule, ur_methods rule,
      ur_client rule)"

fun sem_hash :: "url_sem \<Rightarrow> u64" where
  "sem_hash (flags, types, pattern, domains, methods, client) =
     foldl hash_extend (hash_key Exact pattern) [domains, to_le_bytes flags, to_le_bytes types]"

text \<open>The rules \<open>add\<close> takes; any other leaves the builder as it is.\<close>

definition url_accepted :: "url_rule \<Rightarrow> bool" where
  "url_accepted rule \<longleftrightarrow>
     ur_pattern rule \<noteq> [] \<and> int (length (ur_pattern rule)) \<le> 65535 \<and> int (length (rule_domains rule)) \<le> 65535
   \<and> compile_scope (ur_client rule) \<noteq> None"

definition record_sem :: "url_builder \<Rightarrow> nat \<Rightarrow> url_sem option" where
  "record_sem self i = do {
     record \<leftarrow> index_at (ub_records self) i;
     p \<leftarrow> ub_pattern_of self record;
     d \<leftarrow> ub_domains_of self record;
     Some (uc_flags record, uc_types record, p, d, ub_methods self (of_nat i),
           map_option cs_raw (ub_clients self (of_nat i)))
   }"

definition ub_inv :: "url_builder \<Rightarrow> (url_sem \<times> u16) list \<Rightarrow> bool" where
  "ub_inv self A \<longleftrightarrow>
     length (ub_records self) = length A \<and> length (ub_list_ids self) = length A \<and>
     ub_policy_mask self = map snd A \<and> length A \<le> 2 ^ 32 \<and>
     (\<forall>i<length A. record_sem self i = Some (fst (A ! i))) \<and>
     (\<forall>i<length A. \<exists>rule. url_accepted rule \<and> fst (A ! i) = sem_of_rule rule) \<and>
     (\<forall>i<length A. \<exists>is. ub_dedup self (sem_hash (fst (A ! i))) = Some is \<and> of_nat i \<in> set is) \<and>
     (\<forall>h is idx. ub_dedup self h = Some is \<longrightarrow> idx \<in> set is \<longrightarrow> unat idx < length A) \<and>
     (\<forall>idx. length A \<le> unat idx \<longrightarrow> ub_methods self idx = None \<and> ub_clients self idx = None) \<and>
     (\<forall>idx scope. ub_clients self idx = Some scope \<longrightarrow> client_scope_parse (cs_raw scope) = Some scope) \<and>
     distinct (map fst A)"

lemma ub_inv_default: "ub_inv url_builder_default []"
  by (simp add: ub_inv_def url_builder_default_def)

lemma try_find_total:
  "(\<And>x. x \<in> set xs \<Longrightarrow> p x = Some (q x)) \<Longrightarrow> try_find p xs = Some (find q xs)"
  by (induction xs) (auto split: bool.splits)

lemma client_scope_raw: "client_scope_parse raw = Some scope \<Longrightarrow> cs_raw scope = raw"
  by (auto simp: client_scope_parse_def split: Option.bind_splits if_splits)

lemma compile_scope_raw: "compile_scope client = Some scope \<Longrightarrow> map_option cs_raw scope = client"
  by (auto simp: compile_scope_def client_scope_raw split: option.splits)

lemma index32: "i < 2 ^ 32 \<Longrightarrow> unat (of_nat i :: u32) = i"
  by (rule unat_of_nat_small) simp

lemma url_identity_matches_sem:
  assumes inv: "ub_inv self A" and i: "unat idx < length A"
  shows "url_identity_matches self idx (ur_pattern rule) (rule_domains rule) (flags_of rule) rule
    = Some (fst (A ! unat idx) = sem_of_rule rule)"
proof -
  have "record_sem self (unat idx) = Some (fst (A ! unat idx))" using inv i by (simp add: ub_inv_def)
  then obtain r p d where r: "index_at (ub_records self) (unat idx) = Some r"
    "ub_pattern_of self r = Some p" "ub_domains_of self r = Some d"
    "fst (A ! unat idx) = (uc_flags r, uc_types r, p, d, ub_methods self idx,
       map_option cs_raw (ub_clients self idx))"
    by (auto simp: record_sem_def split: Option.bind_splits)
  then show ?thesis by (auto simp: url_identity_matches_def sem_of_rule_def)
qed

lemma sem_hash_rule:
  "sem_hash (sem_of_rule rule)
     = url_identity_hash (ur_pattern rule) (rule_domains rule) (flags_of rule) rule"
  by (simp add: sem_of_rule_def url_identity_hash_def)

text \<open>The candidates under a rule's hash contain its duplicate, if there is one.\<close>

lemma url_dedup_find:
  assumes inv: "ub_inv self A"
    and ex: "ub_dedup self (sem_hash (sem_of_rule rule)) = Some existing"
  shows "try_find (\<lambda>idx. url_identity_matches self idx (ur_pattern rule) (rule_domains rule)
            (flags_of rule) rule) existing
      = Some (find (\<lambda>idx. fst (A ! unat idx) = sem_of_rule rule) existing)"
proof (rule try_find_total)
  fix idx assume "idx \<in> set existing"
  then have "unat idx < length A" using inv ex unfolding ub_inv_def by blast
  then show "url_identity_matches self idx (ur_pattern rule) (rule_domains rule) (flags_of rule) rule
      = Some (fst (A ! unat idx) = sem_of_rule rule)"
    by (rule url_identity_matches_sem [OF inv])
qed

lemma url_dedup_cases:
  assumes inv: "ub_inv self A"
  shows "sem_of_rule rule \<notin> fst ` set A
      \<and> (case ub_dedup self (sem_hash (sem_of_rule rule)) of None \<Rightarrow> True
         | Some existing \<Rightarrow> find (\<lambda>idx. fst (A ! unat idx) = sem_of_rule rule) existing = None)
    \<or> (\<exists>existing idx. ub_dedup self (sem_hash (sem_of_rule rule)) = Some existing
         \<and> find (\<lambda>idx. fst (A ! unat idx) = sem_of_rule rule) existing = Some idx
         \<and> unat idx < length A \<and> fst (A ! unat idx) = sem_of_rule rule)"
proof (cases "sem_of_rule rule \<in> fst ` set A")
  case True
  then obtain i where i: "i < length A" "fst (A ! i) = sem_of_rule rule"
    by (metis (no_types, lifting) imageE in_set_conv_nth)
  then obtain existing where ex: "ub_dedup self (sem_hash (sem_of_rule rule)) = Some existing"
    "of_nat i \<in> set existing" using inv unfolding ub_inv_def by metis
  have "i < 2 ^ 32" using inv i(1) by (simp add: ub_inv_def)
  then have "fst (A ! unat (of_nat i :: u32)) = sem_of_rule rule" using i(2) index32 by simp
  then obtain idx where f: "find (\<lambda>idx. fst (A ! unat idx) = sem_of_rule rule) existing = Some idx"
    using ex(2) by (metis (mono_tags, lifting) find_None_iff2 not_Some_eq)
  then have "idx \<in> set existing" "fst (A ! unat idx) = sem_of_rule rule"
    by (auto simp: find_Some_iff)
  moreover have "unat idx < length A" using calculation(1) inv ex(1) unfolding ub_inv_def by blast
  ultimately show ?thesis using f ex(1) by blast
next
  case False
  have "find (\<lambda>idx. fst (A ! unat idx) = sem_of_rule rule) existing = None"
    if "ub_dedup self (sem_hash (sem_of_rule rule)) = Some existing" for existing
  proof -
    have "fst (A ! unat idx) \<noteq> sem_of_rule rule" if "idx \<in> set existing" for idx
    proof -
      have "unat idx < length A"
        using that \<open>ub_dedup self _ = Some existing\<close> inv unfolding ub_inv_def by blast
      then show ?thesis using False by (metis image_eqI nth_mem)
    qed
    then show ?thesis by (auto simp: find_None_iff)
  qed
  with False show ?thesis by (auto split: option.splits)
qed

definition url_room :: "url_builder \<Rightarrow> bool" where
  "url_room self \<longleftrightarrow>
     length (ub_records self) < 2 ^ 32 \<and> length (ub_patterns self) < 2 ^ 32
   \<and> length (ub_domains self) < 2 ^ 32"

lemma expect_u32_Some: "n < 2 ^ 32 \<Longrightarrow> expect_u32 n = Some (of_nat n)"
  by (simp add: expect_u32_def)

lemma slice_end:
  assumes "length xs < 2 ^ 32" "length ys \<le> 65535"
  shows "arena_slice (xs @ ys) (of_nat (length xs)) (of_nat (length ys)) = Some ys"
proof -
  have "unat (of_nat (length xs) :: u32) = length xs" using assms(1) by (rule index32)
  moreover have "unat (of_nat (length ys) :: u16) = length ys"
    using assms(2) by (intro unat_of_nat_small) simp
  ultimately show ?thesis by (simp add: arena_slice_def slice_def)
qed

lemma arena_slice_append: "arena_slice xs off len = Some zs \<Longrightarrow> arena_slice (xs @ ys) off len = Some zs"
  unfolding arena_slice_def by (rule slice_append)

lemma url_push_inv:
  assumes inv: "ub_inv self A" and room: "url_room self" and acc: "url_accepted rule"
    and new: "sem_of_rule rule \<notin> fst ` set A" and scope: "compile_scope (ur_client rule) = Some scope"
  shows "\<exists>self'. url_push self list_id rule m scope = Some self' \<and> ub_inv self' (A @ [(sem_of_rule rule, m)])
    \<and> ub_list_ids self' = ub_list_ids self @ [list_id] \<and> ub_duplicates_removed self' = ub_duplicates_removed self
    \<and> length (ub_patterns self') = length (ub_patterns self) + length (ur_pattern rule)
    \<and> length (ub_domains self') = length (ub_domains self) + length (rule_domains rule)"
proof -
  let ?n = "length A"
  let ?i = "of_nat ?n :: u32"
  let ?A = "A @ [(sem_of_rule rule, m)]"
  let ?h = "sem_hash (sem_of_rule rule)"
  have len: "length (ub_records self) = ?n" using inv by (simp add: ub_inv_def)
  have n: "?n < 2 ^ 32" using room len by (simp add: url_room_def)
  have ui: "unat ?i = ?n" using n by (rule index32)
  define self' where "self' = self\<lparr>
          ub_patterns := ub_patterns self @ ur_pattern rule,
          ub_domains := ub_domains self @ rule_domains rule,
          ub_methods := (case ur_methods rule of
             Some raw \<Rightarrow> (ub_methods self)(?i \<mapsto> raw) | None \<Rightarrow> ub_methods self),
          ub_named_client_scopes := (case scope of
             Some scope \<Rightarrow> ub_named_client_scopes self \<or> names_a_client scope
           | None \<Rightarrow> ub_named_client_scopes self),
          ub_clients := (case scope of
             Some scope \<Rightarrow> (ub_clients self)(?i \<mapsto> scope) | None \<Rightarrow> ub_clients self),
          ub_records := ub_records self @
            [\<lparr> uc_pat_off = of_nat (length (ub_patterns self)), uc_dom_off = of_nat (length (ub_domains self)),
               uc_pat_len = of_nat (length (ur_pattern rule)),
               uc_dom_len = of_nat (length (rule_domains rule)), uc_types = ur_resource_types rule,
               uc_flags = flags_of rule \<rparr>],
          ub_list_ids := ub_list_ids self @ [list_id],
          ub_policy_mask := ub_policy_mask self @ [m],
          ub_dedup := (ub_dedup self)(?h \<mapsto>
             (case ub_dedup self ?h of Some is \<Rightarrow> is | None \<Rightarrow> []) @ [?i]) \<rparr>"
  have push: "url_push self list_id rule m scope = Some self'"
    using room n len
    by (simp add: url_push_def url_room_def expect_u32_Some self'_def rule_domains_def [symmetric] sem_hash_rule Let_def)
  have fresh: "ub_methods self ?i = None" "ub_clients self ?i = None"
    using inv ui by (simp_all add: ub_inv_def)
  have meth: "ub_methods self' idx = (if idx = ?i then ur_methods rule else ub_methods self idx)" for idx
    using fresh by (simp add: self'_def split: option.splits)
  have cl: "ub_clients self' idx = (if idx = ?i then scope else ub_clients self idx)" for idx
    using fresh by (simp add: self'_def split: option.splits)
  have old: "record_sem self' i = Some (fst (A ! i))" if i: "i < ?n" for i
  proof -
    have ne: "of_nat i \<noteq> ?i" using i n index32 [of i] ui by (metis less_trans nat_neq_iff)
    have "record_sem self i = Some (fst (A ! i))" using inv i by (simp add: ub_inv_def)
    then obtain r p d where r: "index_at (ub_records self) i = Some r" "ub_pattern_of self r = Some p"
      "ub_domains_of self r = Some d" "fst (A ! i) = (uc_flags r, uc_types r, p, d, ub_methods self (of_nat i),
         map_option cs_raw (ub_clients self (of_nat i)))"
      by (auto simp: record_sem_def split: Option.bind_splits)
    have "ub_pattern_of self' r = Some p" "ub_domains_of self' r = Some d"
      using r(2,3) arena_slice_append by (auto simp: ub_pattern_of_def ub_domains_of_def self'_def)
    moreover have "index_at (ub_records self') i = Some r"
      using r(1) by (auto simp: self'_def index_at_eq_Some nth_append)
    ultimately show ?thesis using r(4) ne by (simp add: record_sem_def meth cl)
  qed
  have last: "record_sem self' ?n = Some (sem_of_rule rule)"
  proof -
    have "length (ur_pattern rule) \<le> 65535" "length (rule_domains rule) \<le> 65535"
      using acc by (simp_all add: url_accepted_def)
    with slice_end [of "ub_patterns self" "ur_pattern rule"] slice_end [of "ub_domains self" "rule_domains rule"]
      room len compile_scope_raw [OF scope] show ?thesis
      by (simp add: record_sem_def self'_def [THEN arg_cong, of ub_records] self'_def [THEN arg_cong, of ub_patterns]
          self'_def [THEN arg_cong, of ub_domains] ub_pattern_of_def ub_domains_of_def meth cl url_room_def
          sem_of_rule_def index_at_def nth_append)
  qed
  have "ub_inv self' ?A"
    unfolding ub_inv_def
  proof (intro conjI allI impI)
    show "record_sem self' i = Some (fst (?A ! i))" if "i < length ?A" for i
      using that old last by (cases "i = ?n") (auto simp: nth_append)
    show "\<exists>rule. url_accepted rule \<and> fst (?A ! i) = sem_of_rule rule" if "i < length ?A" for i
      using that inv acc by (cases "i = ?n") (auto simp: nth_append ub_inv_def)
    show "\<exists>is. ub_dedup self' (sem_hash (fst (?A ! i))) = Some is \<and> of_nat i \<in> set is" if "i < length ?A" for i
    proof (cases "i = ?n")
      case True
      then show ?thesis by (simp add: self'_def nth_append)
    next
      case False
      then have "i < ?n" using that by simp
      then obtain is' where "ub_dedup self (sem_hash (fst (A ! i))) = Some is'" "of_nat i \<in> set is'"
        using inv unfolding ub_inv_def by blast
      then show ?thesis using \<open>i < ?n\<close> by (auto simp: self'_def nth_append)
    qed
    show "unat idx < length ?A" if d: "ub_dedup self' h = Some is'" "idx \<in> set is'" for h is' idx
    proof (cases "idx = ?i")
      case True
      then show ?thesis using ui by simp
    next
      case False
      then obtain is'' where "ub_dedup self h = Some is''" "idx \<in> set is''"
        using d by (auto simp: self'_def split: if_splits option.splits)
      then have "unat idx < ?n" using inv unfolding ub_inv_def by blast
      then show ?thesis by simp
    qed
    show "ub_methods self' idx = None" "ub_clients self' idx = None" if "length ?A \<le> unat idx" for idx
      using that ui inv by (auto simp: meth cl ub_inv_def)
    show "client_scope_parse (cs_raw sc) = Some sc" if "ub_clients self' idx = Some sc" for idx sc
      using that scope inv client_scope_raw
      by (auto simp: cl ub_inv_def compile_scope_def split: if_splits option.splits)
    show "distinct (map fst ?A)" using inv new by (simp add: ub_inv_def)
  qed (use inv n in \<open>simp_all add: self'_def ub_inv_def\<close>)
  with push show ?thesis by (simp add: self'_def)
qed

lemma url_add_dup_inv:
  fixes m :: u16
  assumes inv: "ub_inv self A" and idx: "unat idx < length A" and key: "fst (A ! unat idx) = sem_of_rule rule"
  defines "self' \<equiv> self\<lparr> ub_policy_mask := (ub_policy_mask self)[unat idx := ub_policy_mask self ! unat idx OR m],
       ub_duplicates_removed := ub_duplicates_removed self + 1 \<rparr>"
  shows "ub_inv self' (merge_one (sem_of_rule rule, m) A)"
proof -
  let ?i = "unat idx"
  have dist: "distinct (map fst A)" using inv by (simp add: ub_inv_def)
  have merged: "merge_one (sem_of_rule rule, m) A = A[?i := (sem_of_rule rule, snd (A ! ?i) OR m)]"
    using dist idx key by (rule merge_one_at)
  note keys = fst_mask_update [OF key]
  have mask: "ub_policy_mask self' = map snd (A[?i := (sem_of_rule rule, snd (A ! ?i) OR m)])"
    using inv idx by (simp add: self'_def ub_inv_def map_update)
  note fsts = keys_mask_update [OF key]
  have same: "record_sem self' j = record_sem self j" for j
    by (simp add: record_sem_def self'_def ub_pattern_of_def ub_domains_of_def)
  have fields: "ub_records self' = ub_records self" "ub_list_ids self' = ub_list_ids self"
    "ub_dedup self' = ub_dedup self" "ub_methods self' = ub_methods self" "ub_clients self' = ub_clients self"
    by (simp_all add: self'_def)
  show ?thesis
    unfolding merged ub_inv_def same fields fsts mask using inv keys by (simp add: ub_inv_def)
qed

lemma url_add_merge:
  assumes inv: "ub_inv self A" and room: "url_room self"
  shows "\<exists>self'. url_add self list_id rule m = Some self'
    \<and> (if url_accepted rule then ub_inv self' (merge_one (sem_of_rule rule, m) A) else self' = self)
    \<and> length (ub_patterns self') \<le> length (ub_patterns self) + length (ur_pattern rule)
    \<and> length (ub_domains self') \<le> length (ub_domains self) + length (rule_domains rule)"
proof (cases "url_accepted rule")
  case False
  then show ?thesis
    by (cases "compile_scope (ur_client rule)")
       (auto simp: url_add_def url_accepted_def rule_domains_def Let_def)
next
  case acc: True
  then obtain scope where scope: "compile_scope (ur_client rule) = Some scope"
    by (auto simp: url_accepted_def)
  let ?dup = "\<lambda>idx. fst (A ! unat idx) = sem_of_rule rule"
  have add: "url_add self list_id rule m =
      (case ub_dedup self (sem_hash (sem_of_rule rule)) of
         None \<Rightarrow> url_push self list_id rule m scope
       | Some existing \<Rightarrow>
           (case find ?dup existing of
              None \<Rightarrow> url_push self list_id rule m scope
            | Some idx \<Rightarrow>
                (case index_at (ub_policy_mask self) (unat idx) of
                   None \<Rightarrow> None
                 | Some m' \<Rightarrow>
                     Some (self\<lparr> ub_policy_mask := (ub_policy_mask self)[unat idx := m' OR m],
                                 ub_duplicates_removed := ub_duplicates_removed self + 1 \<rparr>))))"
    using acc scope url_dedup_find [OF inv]
    by (auto simp: url_add_def url_accepted_def rule_domains_def [symmetric] sem_hash_rule Let_def
        split: option.splits)
  from url_dedup_cases [OF inv, of rule] show ?thesis
  proof
    assume new: "sem_of_rule rule \<notin> fst ` set A
      \<and> (case ub_dedup self (sem_hash (sem_of_rule rule)) of None \<Rightarrow> True
         | Some existing \<Rightarrow> find ?dup existing = None)"
    then have n: "sem_of_rule rule \<notin> fst ` set A"
      and push: "url_add self list_id rule m = url_push self list_id rule m scope"
      unfolding add by (auto split: option.splits)
    obtain self' where "url_push self list_id rule m scope = Some self'"
      "ub_inv self' (A @ [(sem_of_rule rule, m)])"
      "length (ub_patterns self') = length (ub_patterns self) + length (ur_pattern rule)"
      "length (ub_domains self') = length (ub_domains self) + length (rule_domains rule)"
      using url_push_inv [OF inv room acc n scope, of list_id m] by blast
    with merge_one_new [OF n, of m] acc push show ?thesis by simp
  next
    assume "\<exists>existing idx. ub_dedup self (sem_hash (sem_of_rule rule)) = Some existing
       \<and> find ?dup existing = Some idx \<and> unat idx < length A \<and> ?dup idx"
    then obtain existing idx where f: "ub_dedup self (sem_hash (sem_of_rule rule)) = Some existing"
      "find ?dup existing = Some idx" "unat idx < length A" "?dup idx" by blast
    have "index_at (ub_policy_mask self) (unat idx) = Some (ub_policy_mask self ! unat idx)"
      using inv f(3) by (simp add: ub_inv_def)
    with f url_add_dup_inv [OF inv f(3,4), of m] acc show ?thesis unfolding add by simp
  qed
qed

text \<open>C26: Adding a URL rule refines the deduplication contract. A rule that is too long, empty, or
  whose \<open>$client\<close> does not compile changes nothing. Any other rule is merged: if its full identity
  is already compiled, only the visibility mask of that record grows; otherwise exactly one record
  carrying the rule is appended. A hash collision never merges two different rules, and within the
  4 GiB arena limits nothing panics.\<close>

theorem url_add_refines_merge:
  assumes "ub_inv self A" "url_room self"
  shows "\<exists>self'. url_add self list_id rule m = Some self'
    \<and> (if url_accepted rule then ub_inv self' (merge_one (sem_of_rule rule, m) A) else self' = self)"
  using url_add_merge [OF assms] by blast

theorem url_add_refines_merge_witness:
  "let rule = \<lparr> ur_pattern = ''ads/'', ur_action = BlockRule, ur_anchor = AnchorAnywhere,
       ur_end_anchored = False, ur_match_case = False, ur_party = PartyAny, ur_resource_types = 0,
       ur_domains = None, ur_methods = None, ur_client = Some ''laptop'' \<rparr>
   in url_accepted rule
     \<and> (\<exists>self'. url_add url_builder_default 0 rule 3 = Some self' \<and> ub_inv self' [(sem_of_rule rule, 3)])"
proof -
  define rule where "rule = \<lparr> ur_pattern = ''ads/'', ur_action = BlockRule, ur_anchor = AnchorAnywhere,
       ur_end_anchored = False, ur_match_case = False, ur_party = PartyAny, ur_resource_types = 0,
       ur_domains = None, ur_methods = None, ur_client = Some ''laptop'' \<rparr>"
  have acc: "url_accepted rule"
  proof -
    have "compile_scope (ur_client rule) \<noteq> None" unfolding rule_def by code_simp
    then show ?thesis by (simp add: url_accepted_def rule_domains_def rule_def)
  qed
  have "url_room url_builder_default" by (simp add: url_room_def url_builder_default_def)
  from url_add_refines_merge [OF ub_inv_default this, of 0 rule 3] acc
  show ?thesis unfolding rule_def [symmetric] by auto
qed

lemma url_add_all_merge:
  assumes "ub_inv self A"
    and "length A + length rules < 2 ^ 32"
    and "length (ub_patterns self) + sum_list (map (\<lambda>(_, r, _). length (ur_pattern r)) rules) < 2 ^ 32"
    and "length (ub_domains self) + sum_list (map (\<lambda>(_, r, _). length (rule_domains r)) rules) < 2 ^ 32"
  shows "\<exists>self'. try_fold (\<lambda>(list_id, rule, m) self. url_add self list_id rule m) rules self = Some self'
    \<and> ub_inv self' (fold merge_one
        (map (\<lambda>(_, rule, m). (sem_of_rule rule, m)) (filter (\<lambda>(_, rule, _). url_accepted rule) rules)) A)"
  using assms
proof (induction rules arbitrary: self A)
  case (Cons x rules)
  obtain list_id rule m where x: "x = (list_id, rule, m)" by (cases x)
  have "length (ub_records self) = length A" using Cons.prems by (simp add: ub_inv_def)
  then have "url_room self" using Cons.prems by (simp add: url_room_def)
  from url_add_merge [OF Cons.prems(1) this, of list_id rule m] obtain self1
    where s1: "url_add self list_id rule m = Some self1"
      "if url_accepted rule then ub_inv self1 (merge_one (sem_of_rule rule, m) A) else self1 = self"
      "length (ub_patterns self1) \<le> length (ub_patterns self) + length (ur_pattern rule)"
      "length (ub_domains self1) \<le> length (ub_domains self) + length (rule_domains rule)" by blast
  show ?case
  proof (cases "url_accepted rule")
    case True
    with s1 have "ub_inv self1 (merge_one (sem_of_rule rule, m) A)" by simp
    from Cons.IH [OF this] s1 True x Cons.prems length_merge_one [of "sem_of_rule rule" m A] show ?thesis
      by simp
  next
    case False
    with s1 have "self1 = self" by simp
    with Cons.IH [OF Cons.prems(1)] s1 False x Cons.prems show ?thesis by simp
  qed
qed simp

end
