(* ===== verification/Url_Build.thy ===== *)
theory Url_Build
  imports Url_Builder
begin

text \<open>
  \<open>UrlIndexBuilder::build\<close> of \<open>fah-rules/src/url_matcher.rs\<close>: key frequencies, filing every rule
  under its rarest key, the n-gram tier with its bucket limit and Bloom prefilter, the bucket
  arrays and the open-addressing table over them. The main lemma says every compiled rule can be
  reached: it is in the scan list, or in the bucket of a key its pattern offers.
\<close>

section \<open>Filing rules under keys\<close>

definition NGRAM_BUCKET_CAP :: int where
  "NGRAM_BUCKET_CAP = 1024"

type_synonym filed = "bool \<times> u64 \<times> u32"

text \<open>\<open>*map.entry(k).or_insert(0) += 1\<close>, and a lookup with the default the code uses.\<close>

definition bump :: "('k \<Rightarrow> u32 option) \<Rightarrow> 'k \<Rightarrow> 'k \<Rightarrow> u32 option" where
  "bump f k = f(k \<mapsto> (case f k of Some n \<Rightarrow> n | None \<Rightarrow> 0) + 1)"

definition count_of :: "('k \<Rightarrow> u32 option) \<Rightarrow> 'k \<Rightarrow> u32" where
  "count_of f k = (case f k of Some n \<Rightarrow> n | None \<Rightarrow> - 1)"

text \<open>The running best of both rarest-key loops: fewer occurrences, then longer source.\<close>

definition rarer :: "(u32 \<times> nat \<times> 'h) option \<Rightarrow> u32 \<times> nat \<times> 'h \<Rightarrow> (u32 \<times> nat \<times> 'h) option" where
  "rarer best new =
     (case best of
        None \<Rightarrow> Some new
      | Some (best_count, best_len, _) \<Rightarrow>
          (case new of (occurs, len, _) \<Rightarrow>
             if occurs < best_count \<or> (occurs = best_count \<and> best_len < len) then Some new else best))"

definition record_keys :: "url_record \<Rightarrow> string \<Rightarrow> (key_kind \<times> string \<times> nat) list" where
  "record_keys record pattern = index_keys pattern (uc_anchor record) (uc_end_anchored record)"

definition key_frequency :: "url_builder \<Rightarrow> (u64 \<Rightarrow> u32 option) option" where
  "key_frequency self =
     try_fold (\<lambda>record frequency. do {
         pattern \<leftarrow> ub_pattern_of self record;
         Some (foldl (\<lambda>f (kind, key, _). bump f (hash_key kind key)) frequency (record_keys record pattern))
       }) (ub_records self) Map.empty"

definition best_key ::
  "(u64 \<Rightarrow> u32 option) \<Rightarrow> (key_kind \<times> string \<times> nat) list \<Rightarrow> (u32 \<times> nat \<times> u64) option" where
  "best_key frequency keys =
     foldl (\<lambda>best (kind, key, token_len).
         let hash = hash_key kind key in rarer best (count_of frequency hash, token_len, hash))
       None keys"

definition file_rules :: "url_builder \<Rightarrow> (u64 \<Rightarrow> u32 option) \<Rightarrow> (filed list \<times> u32 list) option" where
  "file_rules self frequency =
     try_fold (\<lambda>(index, record) (filed, needs_ngram). do {
         pattern \<leftarrow> ub_pattern_of self record;
         Some (case best_key frequency (record_keys record pattern) of
                 Some (_, _, hash) \<Rightarrow> (filed @ [(False, hash, of_nat index)], needs_ngram)
               | None \<Rightarrow> (filed, needs_ngram @ [of_nat index]))
       }) (enumerate 0 (ub_records self)) ([], [])"

definition ub_pattern_at :: "url_builder \<Rightarrow> u32 \<Rightarrow> string option" where
  "ub_pattern_at self index = do {
     record \<leftarrow> index_at (ub_records self) (unat index);
     ub_pattern_of self record
   }"

definition ngram_frequency :: "url_builder \<Rightarrow> u32 list \<Rightarrow> (u32 \<Rightarrow> u32 option) option" where
  "ngram_frequency self needs_ngram =
     try_fold (\<lambda>index frequency. do {
         pattern \<leftarrow> ub_pattern_at self index;
         Some (foldl (\<lambda>f (word, _). bump f word) frequency (ngram_keys pattern))
       }) needs_ngram Map.empty"

definition best_word ::
  "(u32 \<Rightarrow> u32 option) \<Rightarrow> (u32 \<times> nat) list \<Rightarrow> (u32 \<times> nat \<times> u32) option" where
  "best_word frequency keys =
     foldl (\<lambda>best (word, run). rarer best (count_of frequency word, run, word)) None keys"

definition file_ngram ::
  "url_builder \<Rightarrow> (u32 \<Rightarrow> u32 option) \<Rightarrow> u32 \<Rightarrow> filed list \<times> (u64 \<Rightarrow> u32 option) \<times> u32 list
   \<Rightarrow> (filed list \<times> (u64 \<Rightarrow> u32 option) \<times> u32 list) option" where
  "file_ngram self frequency index state =
     (case state of (filed, words, unindexed) \<Rightarrow> do {
        pattern \<leftarrow> ub_pattern_at self index;
        Some (case best_word frequency (ngram_keys pattern) of
                Some (_, _, word) \<Rightarrow>
                  (filed @ [(True, ngram_hash word, index)], words(ngram_hash word \<mapsto> word), unindexed)
              | None \<Rightarrow> (filed, words, unindexed @ [index]))
      })"

definition file_ngrams ::
  "url_builder \<Rightarrow> (u32 \<Rightarrow> u32 option) \<Rightarrow> u32 list \<Rightarrow> filed list
   \<Rightarrow> (filed list \<times> (u64 \<Rightarrow> u32 option) \<times> u32 list) option" where
  "file_ngrams self frequency needs_ngram filed =
     try_fold (file_ngram self frequency) needs_ngram (filed, Map.empty, [])"

text \<open>Where the n-gram entries exceed the bucket limit, as an offset from the first of them.\<close>

fun ngram_cut :: "nat \<Rightarrow> int \<Rightarrow> u64 option \<Rightarrow> filed list \<Rightarrow> nat option" where
  "ngram_cut offset buckets previous [] = None"
| "ngram_cut offset buckets previous ((_, hash, _) # rest) =
     (if previous = Some hash then ngram_cut (offset + 1) buckets previous rest
      else if buckets = NGRAM_BUCKET_CAP then Some offset
      else ngram_cut (offset + 1) (buckets + 1) (Some hash) rest)"

section \<open>Buckets\<close>

record csr =
  bk_hash :: "u64 list"
  bk_start :: "u32 list"
  bk_rules :: "u32 list"
  bk_ngram :: "nat option"

definition csr_push :: "csr \<Rightarrow> filed \<Rightarrow> csr" where
  "csr_push c entry =
     (case entry of (ngram, hash, rule) \<Rightarrow>
        let c = (if bk_hash c = [] \<or> last (bk_hash c) \<noteq> hash then
                   c\<lparr> bk_ngram := (if ngram \<and> bk_ngram c = None then Some (length (bk_hash c)) else bk_ngram c),
                      bk_hash := bk_hash c @ [hash],
                      bk_start := bk_start c @ [of_nat (length (bk_rules c))] \<rparr>
                 else c)
        in c\<lparr> bk_rules := bk_rules c @ [rule] \<rparr>)"

definition csr_empty :: csr where
  "csr_empty = \<lparr> bk_hash = [], bk_start = [], bk_rules = [], bk_ngram = None \<rparr>"

function next_power_of_two_from :: "nat \<Rightarrow> nat \<Rightarrow> nat" where
  "next_power_of_two_from p n = (if n \<le> p \<or> p = 0 then p else next_power_of_two_from (2 * p) n)"
  by pat_completeness auto
termination
  by (relation "measure (\<lambda>(p, n). n - p)") auto

declare next_power_of_two_from.simps [simp del]

text \<open>The word and the bit a packed window occupies in the Bloom filter.\<close>

definition bloom_at :: "u64 list \<Rightarrow> u32 \<Rightarrow> nat \<times> nat" where
  "bloom_at bits word =
     (let b = ngram_fold word AND of_nat (length bits * 64 - 1)
      in (unat (drop_bit 6 b), unat (b AND 63)))"

definition bloom_set :: "u32 \<Rightarrow> u64 list \<Rightarrow> u64 list option" where
  "bloom_set word bits =
     (case bloom_at bits word of (w, k) \<Rightarrow>
        map_option (\<lambda>x. bits[w := x OR push_bit k 1]) (index_at bits w))"

definition bloom_build :: "u64 list \<Rightarrow> (u64 \<Rightarrow> u32 option) \<Rightarrow> u64 list option" where
  "bloom_build hashes words =
     (if hashes = [] then Some []
      else try_fold (\<lambda>hash bits. words hash \<bind> (\<lambda>word. bloom_set word bits)) hashes
             (replicate (max (next_power_of_two_from 1 (length hashes)) 8) 0))"

definition bucket_table :: "u64 list \<Rightarrow> nat \<Rightarrow> u32 list option" where
  "bucket_table hashes slot_cap =
     try_fold (\<lambda>(bucket, hash) slots. insert_probe EMPTY slots (fastrange hash slot_cap) (of_nat bucket))
       (enumerate 0 hashes) (replicate slot_cap EMPTY)"

section \<open>The compiled index\<close>

record url_index =
  ui_patterns :: string
  ui_domains :: string
  ui_records :: "url_record list"
  ui_list_ids :: "u16 list"
  ui_policy_mask :: "u16 list"
  ui_methods :: "u32 \<Rightarrow> string option"
  ui_clients :: "u32 \<Rightarrow> client_scope option"
  ui_named_client_scopes :: bool
  ui_slots :: "u32 list"
  ui_slot_cap :: nat
  ui_bucket_hash :: "u64 list"
  ui_bucket_start :: "u32 list"
  ui_bucket_rules :: "u32 list"
  ui_ngram_bucket_start :: nat
  ui_ngram_bits :: "u64 list"
  ui_unindexed :: "u32 list"
  ui_duplicates_removed :: nat
  ui_budget_exhausted :: u64

definition url_build :: "url_builder \<Rightarrow> u16 \<Rightarrow> url_index option" where
  "url_build self full = do {
     frequency \<leftarrow> key_frequency self;
     (filed, needs_ngram) \<leftarrow> file_rules self frequency;
     word_frequency \<leftarrow> ngram_frequency self needs_ngram;
     (filed, words, unindexed) \<leftarrow> file_ngrams self word_frequency needs_ngram filed;
     let filed = sort filed;
     let first_ngram = length (takeWhile (\<lambda>(ngram, _, _). \<not> ngram) filed);
     let kept = (case ngram_cut 0 0 None (drop first_ngram filed) of
                   Some offset \<Rightarrow> first_ngram + offset | None \<Rightarrow> length filed);
     let unindexed = sort (unindexed @ map (\<lambda>(_, _, rule). rule) (drop kept filed));
     let c = foldl csr_push csr_empty (take kept filed);
     let bucket_start = bk_start c @ [of_nat (length (bk_rules c))];
     let ngram_bucket_start =
       (case bk_ngram c of Some n \<Rightarrow> min n (length (bk_hash c)) | None \<Rightarrow> length (bk_hash c));
     ngram_bits \<leftarrow> bloom_build (drop ngram_bucket_start (bk_hash c)) words;
     let slot_cap = max (saturating_mul (length (bk_hash c)) 10 div 7) 8;
     slots \<leftarrow> bucket_table (bk_hash c) slot_cap;
     let policy_mask = (if list_all (\<lambda>m. m = full) (ub_policy_mask self) then [] else ub_policy_mask self);
     Some \<lparr> ui_patterns = ub_patterns self, ui_domains = ub_domains self, ui_records = ub_records self,
            ui_list_ids = ub_list_ids self, ui_policy_mask = policy_mask, ui_methods = ub_methods self,
            ui_clients = ub_clients self, ui_named_client_scopes = ub_named_client_scopes self,
            ui_slots = slots, ui_slot_cap = slot_cap, ui_bucket_hash = bk_hash c,
            ui_bucket_start = bucket_start, ui_bucket_rules = bk_rules c,
            ui_ngram_bucket_start = ngram_bucket_start, ui_ngram_bits = ngram_bits,
            ui_unindexed = unindexed, ui_duplicates_removed = ub_duplicates_removed self,
            ui_budget_exhausted = 0 \<rparr>
   }"

section \<open>Every rule is filed under a key it offers\<close>

definition sem_pattern :: "url_sem \<Rightarrow> string" where
  "sem_pattern sem = fst (snd (snd sem))"

definition sem_record :: "url_sem \<Rightarrow> url_record" where
  "sem_record sem = \<lparr> uc_pat_off = 0, uc_dom_off = 0, uc_pat_len = 0, uc_dom_len = 0,
     uc_types = fst (snd sem), uc_flags = fst sem \<rparr>"

definition sem_keys :: "url_sem \<Rightarrow> (key_kind \<times> string \<times> nat) list" where
  "sem_keys sem = record_keys (sem_record sem) (sem_pattern sem)"

definition key_hashes :: "url_sem \<Rightarrow> u64 set" where
  "key_hashes sem = (\<lambda>(kind, key, _). hash_key kind key) ` set (sem_keys sem)"

definition gram_words :: "url_sem \<Rightarrow> u32 set" where
  "gram_words sem = fst ` set (ngram_keys (sem_pattern sem))"

lemma record_keys_flags:
  "uc_flags r = uc_flags r' \<Longrightarrow> record_keys r p = record_keys r' p"
  by (simp add: record_keys_def uc_anchor_def uc_end_anchored_def)

lemma ub_inv_record:
  assumes "ub_inv self A" "i < length A"
  obtains r where "index_at (ub_records self) i = Some r" "ub_records self ! i = r"
    "ub_pattern_of self r = Some (sem_pattern (fst (A ! i)))"
    "record_keys r (sem_pattern (fst (A ! i))) = sem_keys (fst (A ! i))"
proof -
  have "record_sem self i = Some (fst (A ! i))" using assms by (simp add: ub_inv_def)
  then obtain r p d where r: "index_at (ub_records self) i = Some r" "ub_pattern_of self r = Some p"
      "ub_domains_of self r = Some d" "fst (A ! i) = (uc_flags r, uc_types r, p, d, ub_methods self (of_nat i),
         map_option cs_raw (ub_clients self (of_nat i)))"
    by (auto simp: record_sem_def split: Option.bind_splits)
  have "record_keys r (sem_pattern (fst (A ! i))) = sem_keys (fst (A ! i))"
    unfolding sem_keys_def by (rule record_keys_flags) (simp add: sem_record_def r(4))
  moreover have "ub_records self ! i = r" using r(1) by (simp add: index_at_eq_Some)
  ultimately show ?thesis using that r by (simp add: sem_pattern_def)
qed

lemma foldl_rarer:
  "foldl (\<lambda>best x. rarer best (g x)) b xs = b \<or> (\<exists>x\<in>set xs. foldl (\<lambda>best x. rarer best (g x)) b xs = Some (g x))"
proof (induction xs arbitrary: b)
  case (Cons x xs)
  have "rarer b (g x) = b \<or> rarer b (g x) = Some (g x)"
    by (cases b; cases "g x") (auto simp: rarer_def)
  with Cons.IH [of "rarer b (g x)"] show ?case by auto
qed simp

lemma foldl_rarer_None:
  "foldl (\<lambda>best x. rarer best (g x)) b xs = None \<longleftrightarrow> b = None \<and> xs = []"
proof (induction xs arbitrary: b)
  case (Cons x xs)
  have "rarer b (g x) \<noteq> None" by (cases b; cases "g x") (auto simp: rarer_def)
  with Cons show ?case by simp
qed simp

lemma best_key_fold:
  "best_key f keys = foldl (\<lambda>best x. rarer best
     ((\<lambda>(kind, key, n). (count_of f (hash_key kind key), n, hash_key kind key)) x)) None keys"
  unfolding best_key_def by (intro foldl_cong) (auto simp: Let_def)

lemma best_word_fold:
  "best_word f keys = foldl (\<lambda>best x. rarer best ((\<lambda>(word, run). (count_of f word, run, word)) x)) None keys"
  unfolding best_word_def by (intro foldl_cong) auto

lemma best_key_Some:
  assumes "best_key f (sem_keys sem) = Some (c, n, h)"
  shows "h \<in> key_hashes sem"
  using foldl_rarer [of "\<lambda>(kind, key, n). (count_of f (hash_key kind key), n, hash_key kind key)" None "sem_keys sem"]
    assms unfolding best_key_fold by (force simp: key_hashes_def)

lemma best_word_Some:
  assumes "best_word f (ngram_keys (sem_pattern sem)) = Some (c, n, w)"
  shows "w \<in> gram_words sem"
  using foldl_rarer [of "\<lambda>(word, run). (count_of f word, run, word)" None "ngram_keys (sem_pattern sem)"]
    assms unfolding best_word_fold by (force simp: gram_words_def)

lemma key_frequency_total:
  assumes inv: "ub_inv self A"
  shows "\<exists>f. key_frequency self = Some f"
proof -
  have "\<exists>p. ub_pattern_of self r = Some p" if r: "r \<in> set (ub_records self)" for r
  proof -
    have len: "length (ub_records self) = length A" using inv by (simp add: ub_inv_def)
    obtain i where i: "i < length A" "r = ub_records self ! i"
      using r [unfolded in_set_conv_nth len] by blast
    show ?thesis using ub_inv_record [OF inv i(1)] i(2) by blast
  qed
  then have "try_fold (\<lambda>record frequency. do {
         pattern \<leftarrow> ub_pattern_of self record;
         Some (foldl (\<lambda>f (kind, key, _). bump f (hash_key kind key)) frequency (record_keys record pattern))
       }) (ub_records self) Map.empty
    = Some (fold (\<lambda>record frequency. foldl (\<lambda>f (kind, key, _). bump f (hash_key kind key)) frequency
        (record_keys record (the (ub_pattern_of self record)))) (ub_records self) Map.empty)"
    by (intro try_fold_total) fastforce
  then show ?thesis by (simp add: key_frequency_def)
qed

lemma fold_append2:
  "fold (\<lambda>x (a, b). (a @ f x, b @ g x)) xs (a, b) = (a @ concat (map f xs), b @ concat (map g xs))"
  by (induction xs arbitrary: a b) auto

lemma file_rules_ok:
  assumes inv: "ub_inv self A"
  obtains filed needs where "file_rules self f = Some (filed, needs)"
    "\<And>i. i < length A \<Longrightarrow> of_nat i \<in> set needs \<or> (\<exists>h. (False, h, of_nat i) \<in> set filed)"
    "\<And>ng h r. (ng, h, r) \<in> set filed \<Longrightarrow> \<not> ng \<and> unat r < length A \<and> h \<in> key_hashes (fst (A ! unat r))"
    "\<And>r. r \<in> set needs \<Longrightarrow> unat r < length A" "length filed + length needs = length A"
proof -
  define best where "best i = best_key f (sem_keys (fst (A ! i)))" for i
  define fl where "fl x = (case best (fst x) of Some (_, _, h) \<Rightarrow> [(False, h, of_nat (fst x) :: u32)] | None \<Rightarrow> [])"
    for x :: "nat \<times> url_record"
  define nd where "nd x = (case best (fst x) of Some _ \<Rightarrow> [] | None \<Rightarrow> [of_nat (fst x) :: u32])"
    for x :: "nat \<times> url_record"
  let ?xs = "enumerate 0 (ub_records self)"
  have n: "length (ub_records self) = length A" "length A \<le> 2 ^ 32" using inv by (simp_all add: ub_inv_def)
  have "file_rules self f = Some (fold (\<lambda>x (a, b). (a @ fl x, b @ nd x)) ?xs ([], []))"
    unfolding file_rules_def
  proof (rule try_fold_total)
    fix x and s :: "filed list \<times> u32 list" assume x: "x \<in> set ?xs"
    obtain i r where xi: "x = (i, r)" by (cases x)
    with x n have i: "i < length A" "ub_records self ! i = r" by (auto simp: in_set_enumerate_eq)
    obtain a b where s: "s = (a, b)" by (cases s)
    obtain r' where "ub_records self ! i = r'" "ub_pattern_of self r' = Some (sem_pattern (fst (A ! i)))"
      "record_keys r' (sem_pattern (fst (A ! i))) = sem_keys (fst (A ! i))"
      using ub_inv_record [OF inv i(1)] by blast
    with i show "(case x of (index, record) \<Rightarrow> \<lambda>(filed, needs_ngram). do {
         pattern \<leftarrow> ub_pattern_of self record;
         Some (case best_key f (record_keys record pattern) of
                 Some (_, _, hash) \<Rightarrow> (filed @ [(False, hash, of_nat index)], needs_ngram)
               | None \<Rightarrow> (filed, needs_ngram @ [of_nat index]))
       }) s = Some ((case s of (a, b) \<Rightarrow> (a @ fl x, b @ nd x)))"
      by (simp add: xi s fl_def nd_def best_def split: option.splits)
  qed
  then have fr: "file_rules self f = Some (concat (map fl ?xs), concat (map nd ?xs))"
    unfolding fold_append2 by simp
  have mem: "i < length A \<longleftrightarrow> (\<exists>r. (i, r) \<in> set ?xs)" for i
    using n by (auto simp: in_set_enumerate_eq)
  show ?thesis
  proof (rule that [OF fr])
    fix i assume "i < length A"
    then obtain r where x: "(i, r) \<in> set ?xs" using mem by blast
    show "of_nat i \<in> set (concat (map nd ?xs)) \<or> (\<exists>h. (False, h, of_nat i) \<in> set (concat (map fl ?xs)))"
    proof (cases "best i")
      case None
      then have "of_nat i \<in> set (nd (i, r))" by (simp add: nd_def)
      with x show ?thesis by auto
    next
      case (Some b)
      then obtain c l h where "best i = Some (c, l, h)" by (cases b) auto
      then have "(False, h, of_nat i) \<in> set (fl (i, r))" by (simp add: fl_def)
      with x show ?thesis by auto
    qed
  next
    fix ng h r assume "(ng, h, r) \<in> set (concat (map fl ?xs))"
    then obtain i rec where x: "(i, rec) \<in> set ?xs" "(ng, h, r) \<in> set (fl (i, rec))" by auto
    then have i: "i < length A" using mem by blast
    have "best i \<noteq> None" using x(2) by (cases "best i") (simp_all add: fl_def)
    then obtain c l h' where b': "best i = Some (c, l, h')" by (metis option.exhaust prod_cases3)
    with x(2) have b: "best i = Some (c, l, h)" "\<not> ng" "r = of_nat i" by (simp_all add: fl_def)
    moreover have "unat r = i" using b(3) i n index32 by simp
    moreover have "h \<in> key_hashes (fst (A ! i))" using b(1) unfolding best_def by (rule best_key_Some)
    ultimately show "\<not> ng \<and> unat r < length A \<and> h \<in> key_hashes (fst (A ! unat r))"
      using i by simp
  next
    fix r assume "r \<in> set (concat (map nd ?xs))"
    then obtain i rec where "(i, rec) \<in> set ?xs" "r = of_nat i"
      by (auto simp: nd_def split: option.splits)
    moreover from this have "i < length A" using mem by blast
    ultimately show "unat r < length A" using n index32 by simp
  next
    have "length (concat (map fl xs)) + length (concat (map nd xs)) = length xs" for xs
      by (induction xs) (auto simp: fl_def nd_def split: option.splits)
    from this [of ?xs] show "length (concat (map fl ?xs)) + length (concat (map nd ?xs)) = length A"
      using n by simp
  qed
qed

lemma ub_pattern_at_inv:
  assumes "ub_inv self A" "unat r < length A"
  shows "ub_pattern_at self r = Some (sem_pattern (fst (A ! unat r)))"
proof -
  obtain rec where "index_at (ub_records self) (unat r) = Some rec"
    "ub_pattern_of self rec = Some (sem_pattern (fst (A ! unat r)))"
    using ub_inv_record [OF assms] by blast
  then show ?thesis by (simp add: ub_pattern_at_def)
qed

lemma ngram_frequency_total:
  assumes inv: "ub_inv self A" and needs: "\<And>r. r \<in> set needs \<Longrightarrow> unat r < length A"
  shows "\<exists>f. ngram_frequency self needs = Some f"
proof -
  have "ngram_frequency self needs = Some (fold (\<lambda>r f. foldl (\<lambda>f (word, _). bump f word) f
      (ngram_keys (sem_pattern (fst (A ! unat r))))) needs Map.empty)"
    unfolding ngram_frequency_def
    by (rule try_fold_total) (simp add: ub_pattern_at_inv [OF inv needs])
  then show ?thesis by simp
qed

text \<open>The window a hash stands for: exact, because the hash is injective.\<close>

definition words_ok :: "(u64 \<Rightarrow> u32 option) \<Rightarrow> bool" where
  "words_ok words \<longleftrightarrow> (\<forall>h w. words h = Some w \<longrightarrow> h = ngram_hash w)"

lemma file_ngrams_step:
  assumes inv: "ub_inv self A" and "\<And>r. r \<in> set needs \<Longrightarrow> unat r < length A" and "words_ok words"
  shows "\<exists>new words' un'. try_fold (file_ngram self f) needs (filed, words, un) = Some (filed @ new, words', un @ un')
    \<and> words_ok words' \<and> dom words \<subseteq> dom words' \<and> length new + length un' = length needs
    \<and> (\<forall>r\<in>set needs. r \<in> set un' \<or> (\<exists>h. (True, h, r) \<in> set new)) \<and> set un' \<subseteq> set needs
    \<and> (\<forall>(ng, h, r)\<in>set new. ng \<and> r \<in> set needs \<and> h \<in> dom words'
         \<and> h \<in> ngram_hash ` gram_words (fst (A ! unat r)))"
  using assms(2,3)
proof (induction needs arbitrary: filed words un)
  case (Cons r needs)
  have pat: "ub_pattern_at self r = Some (sem_pattern (fst (A ! unat r)))"
    using Cons.prems(1) by (intro ub_pattern_at_inv [OF inv]) simp
  let ?best = "best_word f (ngram_keys (sem_pattern (fst (A ! unat r))))"
  show ?case
  proof (cases ?best)
    case None
    from Cons.IH [of words filed "un @ [r]"] Cons.prems obtain new words' un'
      where IH: "try_fold (file_ngram self f) needs (filed, words, un @ [r]) = Some (filed @ new, words', (un @ [r]) @ un')"
      "words_ok words'" "dom words \<subseteq> dom words'"
      "\<forall>r\<in>set needs. r \<in> set un' \<or> (\<exists>h. (True, h, r) \<in> set new)" "set un' \<subseteq> set needs"
      "\<forall>(ng, h, r)\<in>set new. ng \<and> r \<in> set needs \<and> h \<in> dom words'
         \<and> h \<in> ngram_hash ` gram_words (fst (A ! unat r))" "length new + length un' = length needs"
      by fastforce
    have "file_ngram self f r (filed, words, un) = Some (filed, words, un @ [r])"
      by (simp add: file_ngram_def pat None)
    then have "try_fold (file_ngram self f) (r # needs) (filed, words, un) = Some (filed @ new, words', un @ r # un')"
      using IH(1) by simp
    moreover have "\<forall>q\<in>set (r # needs). q \<in> set (r # un') \<or> (\<exists>h. (True, h, q) \<in> set new)"
      using IH(4) by auto
    moreover have "set (r # un') \<subseteq> set (r # needs)" using IH(5) by auto
    moreover have "length new + length (r # un') = length (r # needs)" using IH(7) by simp
    moreover have "\<forall>(ng, h, q)\<in>set new. ng \<and> q \<in> set (r # needs) \<and> h \<in> dom words'
         \<and> h \<in> ngram_hash ` gram_words (fst (A ! unat q))" using IH(6) by fastforce
    ultimately show ?thesis using IH(2,3) by blast
  next
    case (Some b)
    obtain c l w where b: "?best = Some (c, l, w)" using Some by (cases b) auto
    have w: "w \<in> gram_words (fst (A ! unat r))" using b by (rule best_word_Some)
    have wok: "words_ok (words(ngram_hash w \<mapsto> w))" using Cons.prems(2) by (auto simp: words_ok_def)
    from Cons.IH [OF _ wok, of "filed @ [(True, ngram_hash w, r)]" un] Cons.prems obtain new words' un'
      where IH: "try_fold (file_ngram self f) needs (filed @ [(True, ngram_hash w, r)], words(ngram_hash w \<mapsto> w), un)
         = Some ((filed @ [(True, ngram_hash w, r)]) @ new, words', un @ un')"
      "words_ok words'" "dom (words(ngram_hash w \<mapsto> w)) \<subseteq> dom words'"
      "\<forall>r\<in>set needs. r \<in> set un' \<or> (\<exists>h. (True, h, r) \<in> set new)" "set un' \<subseteq> set needs"
      "\<forall>(ng, h, r)\<in>set new. ng \<and> r \<in> set needs \<and> h \<in> dom words'
         \<and> h \<in> ngram_hash ` gram_words (fst (A ! unat r))" "length new + length un' = length needs"
      by fastforce
    let ?new = "(True, ngram_hash w, r) # new"
    have "file_ngram self f r (filed, words, un)
        = Some (filed @ [(True, ngram_hash w, r)], words(ngram_hash w \<mapsto> w), un)"
      by (simp add: file_ngram_def pat b)
    then have "try_fold (file_ngram self f) (r # needs) (filed, words, un) = Some (filed @ ?new, words', un @ un')"
      using IH(1) by simp
    moreover have "\<forall>q\<in>set (r # needs). q \<in> set un' \<or> (\<exists>h. (True, h, q) \<in> set ?new)"
      using IH(4) by auto
    moreover have "set un' \<subseteq> set (r # needs)" using IH(5) by auto
    moreover have "length ?new + length un' = length (r # needs)" using IH(7) by simp
    moreover have dom: "dom words \<subseteq> dom words'" "ngram_hash w \<in> dom words'" using IH(3) by auto
    moreover have "\<forall>(ng, h, q)\<in>set ?new. ng \<and> q \<in> set (r # needs) \<and> h \<in> dom words'
         \<and> h \<in> ngram_hash ` gram_words (fst (A ! unat q))"
    proof -
      have "\<forall>(ng, h, q)\<in>set new. ng \<and> q \<in> set (r # needs) \<and> h \<in> dom words'
         \<and> h \<in> ngram_hash ` gram_words (fst (A ! unat q))" using IH(6) by fastforce
      with dom(2) w show ?thesis by simp
    qed
    ultimately show ?thesis using IH(2) by blast
  qed
qed simp

section \<open>Bucket arrays\<close>

text \<open>Bucket \<open>b\<close> covers the entries from its start to the next bucket's.\<close>

definition bucket_end :: "nat list \<Rightarrow> nat \<Rightarrow> nat \<Rightarrow> nat" where
  "bucket_end ps n b = (if Suc b < length ps then ps ! Suc b else n)"

definition csr_inv :: "csr \<Rightarrow> nat list \<Rightarrow> filed list \<Rightarrow> bool" where
  "csr_inv c ps E \<longleftrightarrow>
     bk_rules c = map (\<lambda>(_, _, r). r) E \<and> bk_start c = map of_nat ps \<and> length (bk_hash c) = length ps \<and>
     (\<forall>b<length ps. ps ! b \<le> bucket_end ps (length E) b \<and> bucket_end ps (length E) b \<le> length E) \<and>
     (E = [] \<longleftrightarrow> bk_hash c = []) \<and>
     (E \<noteq> [] \<longrightarrow> last (bk_hash c) = fst (snd (last E))) \<and>
     length ps \<le> length E \<and>
     (\<forall>k<length E. \<exists>b<length ps. ps ! b \<le> k \<and> k < bucket_end ps (length E) b
         \<and> bk_hash c ! b = fst (snd (E ! k))) \<and>
     (\<forall>h\<in>set (bk_hash c). \<exists>(_, h', _)\<in>set E. h' = h)"

lemma csr_inv_empty: "csr_inv csr_empty [] []"
  by (simp add: csr_inv_def csr_empty_def)

lemma csr_push_fields:
  "bk_rules (csr_push c (ng, h, r)) = bk_rules c @ [r]"
  "bk_hash (csr_push c (ng, h, r)) =
     (if bk_hash c = [] \<or> last (bk_hash c) \<noteq> h then bk_hash c @ [h] else bk_hash c)"
  "bk_start (csr_push c (ng, h, r)) =
     (if bk_hash c = [] \<or> last (bk_hash c) \<noteq> h then bk_start c @ [of_nat (length (bk_rules c))] else bk_start c)"
  "bk_ngram (csr_push c (ng, h, r)) =
     (if (bk_hash c = [] \<or> last (bk_hash c) \<noteq> h) \<and> ng \<and> bk_ngram c = None
      then Some (length (bk_hash c)) else bk_ngram c)"
  by (simp_all add: csr_push_def Let_def)

lemma csr_push_new:
  assumes inv: "csr_inv c ps E" and new: "bk_hash c = [] \<or> last (bk_hash c) \<noteq> h"
  shows "csr_inv (csr_push c (ng, h, r)) (ps @ [length E]) (E @ [(ng, h, r)])"
proof -
  let ?ps = "ps @ [length E]" and ?E = "E @ [(ng, h, r)]" and ?n = "length ps"
  have old: "bucket_end ?ps (length ?E) b = bucket_end ps (length E) b" if "b < ?n" for b
    using that by (auto simp: bucket_end_def nth_append)
  have fresh: "bucket_end ?ps (length ?E) ?n = Suc (length E)" by (simp add: bucket_end_def)
  have len: "length (bk_hash c) = ?n" using inv by (simp add: csr_inv_def)
  have "?ps ! b \<le> bucket_end ?ps (length ?E) b \<and> bucket_end ?ps (length ?E) b \<le> length ?E" if "b < length ?ps" for b
  proof (cases "b = ?n")
    case True
    then show ?thesis unfolding True fresh by simp
  next
    case False
    then have b: "b < ?n" using that by simp
    then have "ps ! b \<le> bucket_end ps (length E) b \<and> bucket_end ps (length E) b \<le> length E"
      using inv by (simp add: csr_inv_def)
    then show ?thesis unfolding old [OF b] using b by (simp add: nth_append)
  qed
  moreover have "\<exists>b<length ?ps. ?ps ! b \<le> k \<and> k < bucket_end ?ps (length ?E) b
      \<and> bk_hash (csr_push c (ng, h, r)) ! b = fst (snd (?E ! k))" if "k < length ?E" for k
  proof (cases "k = length E")
    case True
    then show ?thesis using fresh len new
      by (intro exI [of _ ?n]) (simp add: csr_push_fields nth_append)
  next
    case False
    then have k: "k < length E" using that by simp
    then obtain b where b: "b < ?n" "ps ! b \<le> k" "k < bucket_end ps (length E) b"
      "bk_hash c ! b = fst (snd (E ! k))" using inv unfolding csr_inv_def by blast
    then have "?ps ! b \<le> k" "k < bucket_end ?ps (length ?E) b"
      "bk_hash (csr_push c (ng, h, r)) ! b = fst (snd (?E ! k))"
      unfolding old [OF b(1)] using k len new by (simp_all add: csr_push_fields nth_append)
    then show ?thesis using b(1) by (intro exI [of _ b]) simp
  qed
  moreover have "\<forall>h'\<in>set (bk_hash (csr_push c (ng, h, r))). \<exists>(_, h'', _)\<in>set ?E. h'' = h'"
    using inv new by (auto simp: csr_push_fields csr_inv_def)
  ultimately show ?thesis
    using inv new unfolding csr_inv_def by (auto simp: csr_push_fields)
qed

lemma csr_push_same:
  assumes inv: "csr_inv c ps E" and same: "\<not> (bk_hash c = [] \<or> last (bk_hash c) \<noteq> h)"
  shows "csr_inv (csr_push c (ng, h, r)) ps (E @ [(ng, h, r)])"
proof -
  let ?E = "E @ [(ng, h, r)]" and ?n = "length ps"
  have len: "length (bk_hash c) = ?n" "0 < ?n" using inv same by (auto simp: csr_inv_def)
  have grow: "bucket_end ps (length E) b \<le> bucket_end ps (length ?E) b"
    "bucket_end ps (length ?E) b \<le> Suc (bucket_end ps (length E) b)" for b
    by (auto simp: bucket_end_def)
  have lst: "bucket_end ps (length ?E) (?n - 1) = Suc (length E)" using len(2) by (simp add: bucket_end_def)
  have bnd: "ps ! b \<le> bucket_end ps (length E) b \<and> bucket_end ps (length E) b \<le> length E" if "b < ?n" for b
    using inv that by (simp add: csr_inv_def)
  have "ps ! b \<le> bucket_end ps (length ?E) b \<and> bucket_end ps (length ?E) b \<le> length ?E" if "b < ?n" for b
    using bnd [OF that] grow [of b] by simp
  moreover have "\<exists>b<?n. ps ! b \<le> k \<and> k < bucket_end ps (length ?E) b
      \<and> bk_hash (csr_push c (ng, h, r)) ! b = fst (snd (?E ! k))" if "k < length ?E" for k
  proof (cases "k = length E")
    case True
    have "ps ! (?n - 1) \<le> length E" using bnd [of "?n - 1"] len(2) by simp
    moreover have "bk_hash c ! (?n - 1) = h" using same len by (metis last_conv_nth)
    ultimately show ?thesis using True lst len(2) same
      by (intro exI [of _ "?n - 1"]) (simp add: csr_push_fields)
  next
    case False
    then have k: "k < length E" using that by simp
    then obtain b where b: "b < ?n" "ps ! b \<le> k" "k < bucket_end ps (length E) b"
      "bk_hash c ! b = fst (snd (E ! k))" using inv unfolding csr_inv_def by blast
    then show ?thesis using grow(1) [of b] k same
      by (intro exI [of _ b]) (simp add: csr_push_fields nth_append)
  qed
  moreover have "\<forall>h'\<in>set (bk_hash (csr_push c (ng, h, r))). \<exists>(_, h'', _)\<in>set ?E. h'' = h'"
    using inv same by (auto simp: csr_push_fields csr_inv_def)
  ultimately show ?thesis
    using inv same unfolding csr_inv_def by (auto simp: csr_push_fields)
qed

text \<open>No n-gram key shares its 64-bit hash with a token key.\<close>

definition no_clash :: "filed list \<Rightarrow> bool" where
  "no_clash F \<longleftrightarrow> (\<forall>h h' r r'. (False, h, r) \<in> set F \<longrightarrow> (True, h', r') \<in> set F \<longrightarrow> h \<noteq> h')"

lemma no_clashD: "no_clash F \<Longrightarrow> (False, h, r) \<in> set F \<Longrightarrow> (True, h', r') \<in> set F \<Longrightarrow> h \<noteq> h'"
  unfolding no_clash_def by blast

definition gram_inv :: "csr \<Rightarrow> filed list \<Rightarrow> bool" where
  "gram_inv c E \<longleftrightarrow>
     (case bk_ngram c of
        None \<Rightarrow> (\<forall>(ng, h, r)\<in>set E. \<not> ng)
      | Some s \<Rightarrow> s < length (bk_hash c) \<and> (\<exists>h r. (True, h, r) \<in> set E)
          \<and> (\<forall>(ng, h, r)\<in>set E. ng \<longrightarrow> h \<in> set (drop s (bk_hash c)))
          \<and> (\<forall>h\<in>set (drop s (bk_hash c)). \<exists>r. (True, h, r) \<in> set E))"

lemma gram_invI:
  assumes "bk_ngram c = Some s" "bk_hash c = H" "s < length H" "(True, h0, r0) \<in> set E"
    "\<forall>(ng, h, r)\<in>set E. ng \<longrightarrow> h \<in> set (drop s H)" "\<forall>h\<in>set (drop s H). \<exists>r. (True, h, r) \<in> set E"
  shows "gram_inv c E"
  unfolding gram_inv_def assms(1,2) option.case using assms(3-6) by blast

lemma gram_inv_push:
  assumes inv: "csr_inv c ps E" and gram: "gram_inv c E"
    and clash: "no_clash (E @ [(ng, h, r)])" and order: "\<not> ng \<Longrightarrow> \<forall>(ng', h', r')\<in>set E. \<not> ng'"
  shows "gram_inv (csr_push c (ng, h, r)) (E @ [(ng, h, r)])"
proof (cases "bk_ngram c")
  case None
  then have plain: "\<forall>(ng', h', r')\<in>set E. \<not> ng'" using gram by (simp add: gram_inv_def)
  show ?thesis
  proof (cases ng)
    case False
    with None plain show ?thesis by (simp add: gram_inv_def csr_push_fields)
  next
    case True
    have new: "bk_hash c = [] \<or> last (bk_hash c) \<noteq> h"
    proof (cases "E = []")
      case True
      then show ?thesis using inv by (simp add: csr_inv_def)
    next
      case False
      obtain ng' h' r' where l: "last E = (ng', h', r')" by (cases "last E")
      have mem: "(ng', h', r') \<in> set E" using False l by (metis last_in_set)
      then have "(False, h', r') \<in> set E" using plain by auto
      then have "h' \<noteq> h" using no_clashD [OF clash, of h' r' h r] True by simp
      then show ?thesis using inv False l by (simp add: csr_inv_def)
    qed
    have "\<forall>(ng', h', r')\<in>set (E @ [(ng, h, r)]). ng' \<longrightarrow> h' \<in> {h}" using plain by auto
    then show ?thesis using new True None by (auto simp: gram_inv_def csr_push_fields)
  qed
next
  case (Some s)
  then have g: "s < length (bk_hash c)" "\<exists>h r. (True, h, r) \<in> set E"
    "\<forall>(ng, h, r)\<in>set E. ng \<longrightarrow> h \<in> set (drop s (bk_hash c))"
    "\<forall>h\<in>set (drop s (bk_hash c)). \<exists>r. (True, h, r) \<in> set E"
    using gram by (simp_all add: gram_inv_def)
  have ng: ng using g(2) order by fastforce
  have last: "last (bk_hash c) \<in> set (drop s (bk_hash c))"
    using g(1) by (metis drop_eq_Nil last_drop last_in_set not_le)
  have top: "(True, h, r) \<in> set (E @ [(ng, h, r)])" using ng by simp
  show ?thesis
  proof (cases "bk_hash c = [] \<or> last (bk_hash c) \<noteq> h")
    case True
    show ?thesis
    proof (rule gram_invI [OF _ _ _ top])
      show "bk_ngram (csr_push c (ng, h, r)) = Some s" using Some by (simp add: csr_push_fields)
      show "bk_hash (csr_push c (ng, h, r)) = bk_hash c @ [h]" using True by (simp add: csr_push_fields)
      show "\<forall>(ng', h', r')\<in>set (E @ [(ng, h, r)]). ng' \<longrightarrow> h' \<in> set (drop s (bk_hash c @ [h]))"
        using g(1,3) by auto
      show "\<forall>h'\<in>set (drop s (bk_hash c @ [h])). \<exists>r'. (True, h', r') \<in> set (E @ [(ng, h, r)])"
        using g(1,4) ng by auto
    qed (use g(1) in simp)
  next
    case False
    show ?thesis
    proof (rule gram_invI [OF _ _ _ top])
      show "bk_ngram (csr_push c (ng, h, r)) = Some s" using Some by (simp add: csr_push_fields)
      show "bk_hash (csr_push c (ng, h, r)) = bk_hash c" using False by (simp add: csr_push_fields)
      show "\<forall>(ng', h', r')\<in>set (E @ [(ng, h, r)]). ng' \<longrightarrow> h' \<in> set (drop s (bk_hash c))"
        using g(3) last False by auto
      show "\<forall>h'\<in>set (drop s (bk_hash c)). \<exists>r'. (True, h', r') \<in> set (E @ [(ng, h, r)])"
        using g(4) by auto
    qed (rule g(1))
  qed
qed

lemma csr_push_distinct:
  assumes inv: "csr_inv c ps E" and dist: "distinct (bk_hash c)"
    and clash: "no_clash (E @ [(ng, h, r)])" and sorted: "sorted (E @ [(ng, h, r)])"
  shows "distinct (bk_hash (csr_push c (ng, h, r)))"
proof (cases "bk_hash c = [] \<or> last (bk_hash c) \<noteq> h")
  case True
  have "h \<notin> set (bk_hash c)"
  proof
    assume "h \<in> set (bk_hash c)"
    then obtain ng' r' where e: "(ng', h, r') \<in> set E" using inv by (force simp: csr_inv_def)
    then have "E \<noteq> []" by auto
    obtain nl hl rl where l: "last E = (nl, hl, rl)" by (cases "last E")
    have "ng' = ng"
      using e no_clashD [OF clash, of h r' h r] no_clashD [OF clash, of h r h r'] by (cases ng; cases ng') auto
    moreover have "last E \<le> (ng, h, r)" using sorted \<open>E \<noteq> []\<close> by (simp add: sorted_append)
    moreover have "(ng', h, r') \<le> last E"
    proof -
      have "sorted (butlast E @ [last E])" using sorted \<open>E \<noteq> []\<close> by (simp add: sorted_append)
      moreover have "(ng', h, r') \<in> set (butlast E) \<or> (ng', h, r') = last E"
        using e \<open>E \<noteq> []\<close> by (metis append_butlast_last_id in_set_conv_decomp in_set_butlast_appendI set_ConsD
            append_Nil2 empty_iff empty_set rotate1.simps(2) set_rotate1 Un_iff set_append list.set(1))
      ultimately show ?thesis by (auto simp: sorted_append)
    qed
    ultimately have "hl = h" using l by (auto simp: less_eq_prod_def less_le split: if_splits)
    with l inv \<open>E \<noteq> []\<close> have "last (bk_hash c) = h" "bk_hash c \<noteq> []" by (simp_all add: csr_inv_def)
    with True show False by simp
  qed
  with True dist show ?thesis by (simp add: csr_push_fields)
next
  case False
  with dist show ?thesis by (simp add: csr_push_fields)
qed

lemma no_clash_append: "no_clash (E @ F) \<Longrightarrow> no_clash E"
  by (auto simp: no_clash_def)

lemma csr_build_ok:
  assumes "sorted F" "no_clash F"
  shows "\<exists>ps. csr_inv (foldl csr_push csr_empty F) ps F \<and> gram_inv (foldl csr_push csr_empty F) F
    \<and> distinct (bk_hash (foldl csr_push csr_empty F))"
  using assms
proof (induction F rule: rev_induct)
  case Nil
  have "gram_inv csr_empty [] \<and> distinct (bk_hash csr_empty)"
    by (simp add: gram_inv_def csr_empty_def)
  with csr_inv_empty have "csr_inv csr_empty [] [] \<and> gram_inv csr_empty [] \<and> distinct (bk_hash csr_empty)"
    by blast
  then show ?case by (simp only: foldl.simps) blast
next
  case (snoc e E)
  obtain ng h r where e: "e = (ng, h, r)" by (cases e)
  let ?c = "foldl csr_push csr_empty E"
  obtain ps where IH: "csr_inv ?c ps E" "gram_inv ?c E" "distinct (bk_hash ?c)"
    using snoc.IH snoc.prems no_clash_append by (auto simp: sorted_append)
  have order: "\<forall>(ng', h', r')\<in>set E. \<not> ng'" if "\<not> ng"
  proof -
    have "\<forall>x\<in>set E. x \<le> (ng, h, r)" using snoc.prems(1) e by (simp add: sorted_append)
    with that show ?thesis by (auto simp: less_eq_prod_def less_le)
  qed
  have clash: "no_clash (E @ [(ng, h, r)])" and sorted: "sorted (E @ [(ng, h, r)])"
    using snoc.prems e by simp_all
  have "\<exists>ps'. csr_inv (csr_push ?c (ng, h, r)) ps' (E @ [(ng, h, r)])"
    using csr_push_new [OF IH(1)] csr_push_same [OF IH(1)] by blast
  with gram_inv_push [OF IH(1,2) clash order] csr_push_distinct [OF IH(1,3) clash sorted] e
  show ?case by simp
qed

section \<open>Prefilter and table\<close>

definition bloom_test :: "u64 list \<Rightarrow> u32 \<Rightarrow> bool option" where
  "bloom_test bits word =
     (case bloom_at bits word of (w, k) \<Rightarrow> map_option (\<lambda>x. x AND push_bit k 1 \<noteq> 0) (index_at bits w))"

lemma next_power_of_two_bound: "0 < p \<Longrightarrow> next_power_of_two_from p n \<le> max p (2 * n)"
proof (induction p n rule: next_power_of_two_from.induct)
  case (1 p n)
  show ?case
  proof (cases "n \<le> p")
    case True
    then show ?thesis by (subst next_power_of_two_from.simps) simp
  next
    case False
    with 1 have "next_power_of_two_from (2 * p) n \<le> max (2 * p) (2 * n)" by simp
    with False 1 show ?thesis by (subst next_power_of_two_from.simps) simp
  qed
qed

lemma bloom_at_bounds:
  assumes "bits \<noteq> []" "length bits * 64 < 2 ^ 64"
  shows "fst (bloom_at bits word) < length bits" "snd (bloom_at bits word) < 64"
proof -
  let ?n = "length bits * 64 - 1" and ?b = "ngram_fold word AND of_nat (length bits * 64 - 1)"
  have n: "unat (of_nat ?n :: u64) = ?n" using assms(2) by (intro unat_of_nat_small) simp
  have "?b \<le> of_nat ?n" by (rule word_and_le1)
  then have "unat ?b \<le> ?n" using n by (simp add: word_le_nat_alt)
  then have "unat ?b div 64 < length bits" using assms(1) by (cases bits) auto
  moreover have "unat (drop_bit 6 b) = unat b div 64" for b :: u64
  proof -
    have "unat (drop_bit 6 b) = drop_bit 6 (unat b)" by (rule unat_drop_bit_eq)
    then show ?thesis unfolding drop_bit_eq_div by simp
  qed
  ultimately show "fst (bloom_at bits word) < length bits"
    by (simp only: bloom_at_def Let_def fst_conv)
  have "?b AND 63 \<le> 63" by (rule word_and_le1)
  then have "unat (?b AND 63) \<le> 63" unfolding word_le_nat_alt by simp
  then show "snd (bloom_at bits word) < 64" unfolding bloom_at_def Let_def snd_conv by simp
qed

lemma bloom_set_ok:
  assumes "bits \<noteq> []" "length bits * 64 < 2 ^ 64"
  shows "\<exists>bits'. bloom_set word bits = Some bits' \<and> length bits' = length bits
    \<and> bloom_test bits' word = Some True
    \<and> (\<forall>w. bloom_test bits w = Some True \<longrightarrow> bloom_test bits' w = Some True)"
proof -
  obtain i k where at: "bloom_at bits word = (i, k)" by (cases "bloom_at bits word")
  have i: "i < length bits" "k < 64" using bloom_at_bounds [OF assms, of word] at by simp_all
  define bits' where "bits' = bits[i := bits ! i OR push_bit k 1]"
  have same: "bloom_at bits' w = bloom_at bits w" for w by (simp add: bloom_at_def bits'_def)
  have set: "bloom_set word bits = Some bits'" using at i by (simp add: bloom_set_def bits'_def)
  have "bit ((bits ! i OR push_bit k 1) AND push_bit k 1) k" using i(2) by (simp add: bit_simps)
  then have "(bits ! i OR push_bit k 1) AND push_bit k 1 \<noteq> 0" by (metis bit_0_eq bot_apply bot_bool_def)
  then have own: "bloom_test bits' word = Some True"
    using at i by (simp add: bloom_test_def same) (simp add: bits'_def)
  have keep: "bloom_test bits' w = Some True" if t: "bloom_test bits w = Some True" for w
  proof -
    obtain i' k' where at': "bloom_at bits w = (i', k')" by (cases "bloom_at bits w")
    have i': "i' < length bits" using bloom_at_bounds [OF assms, of w] at' by simp
    have "bits ! i' AND push_bit k' 1 \<noteq> 0" using t at' i' by (simp add: bloom_test_def)
    then obtain n where n: "bit (bits ! i' AND push_bit k' 1) n" by (auto simp: bit_eq_iff)
    then have "bit (bits' ! i' AND push_bit k' 1) n"
      using i i' by (cases "i' = i") (auto simp: bits'_def bit_simps)
    then have "bits' ! i' AND push_bit k' 1 \<noteq> 0" by (metis bit_0_eq bot_apply bot_bool_def)
    then show ?thesis using at' i' by (simp add: bloom_test_def same) (simp add: bits'_def)
  qed
  have "length bits' = length bits" by (simp add: bits'_def)
  with set own keep show ?thesis by blast
qed

lemma bloom_fold_ok:
  assumes "bits \<noteq> []" "length bits * 64 < 2 ^ 64" "set hashes \<subseteq> dom words"
  shows "\<exists>bits'. try_fold (\<lambda>hash bits. words hash \<bind> (\<lambda>word. bloom_set word bits)) hashes bits = Some bits'
    \<and> length bits' = length bits
    \<and> (\<forall>h\<in>set hashes. \<forall>w. words h = Some w \<longrightarrow> bloom_test bits' w = Some True)
    \<and> (\<forall>w. bloom_test bits w = Some True \<longrightarrow> bloom_test bits' w = Some True)"
  using assms
proof (induction hashes arbitrary: bits)
  case (Cons h hashes)
  obtain w where w: "words h = Some w" using Cons.prems by auto
  obtain b1 where b1: "bloom_set w bits = Some b1" "length b1 = length bits" "bloom_test b1 w = Some True"
    "\<forall>w. bloom_test bits w = Some True \<longrightarrow> bloom_test b1 w = Some True"
    using bloom_set_ok [OF Cons.prems(1,2), of w] by blast
  have ne: "b1 \<noteq> []" using b1(2) Cons.prems(1) by auto
  obtain b2 where b2: "try_fold (\<lambda>hash bits. words hash \<bind> (\<lambda>word. bloom_set word bits)) hashes b1 = Some b2"
    "length b2 = length b1"
    "\<forall>h\<in>set hashes. \<forall>w. words h = Some w \<longrightarrow> bloom_test b2 w = Some True"
    "\<forall>w. bloom_test b1 w = Some True \<longrightarrow> bloom_test b2 w = Some True"
    using Cons.IH [OF ne] b1(2) Cons.prems by auto
  have "try_fold (\<lambda>hash bits. words hash \<bind> (\<lambda>word. bloom_set word bits)) (h # hashes) bits = Some b2"
    using w b1(1) b2(1) by simp
  moreover have "\<forall>h'\<in>set (h # hashes). \<forall>w. words h' = Some w \<longrightarrow> bloom_test b2 w = Some True"
    using b2(3,4) b1(3) w by auto
  moreover have "length b2 = length bits" using b1(2) b2(2) by simp
  ultimately show ?case using b1(4) b2(4) by blast
qed auto

lemma bloom_build_ok:
  assumes "length hashes < 2 ^ 32" "set hashes \<subseteq> dom words"
  shows "\<exists>bits. bloom_build hashes words = Some bits \<and> (bits = [] \<longleftrightarrow> hashes = [])
    \<and> length bits * 64 < 2 ^ 64
    \<and> (\<forall>h\<in>set hashes. \<forall>w. words h = Some w \<longrightarrow> bloom_test bits w = Some True)"
proof (cases "hashes = []")
  case True
  then show ?thesis by (simp add: bloom_build_def)
next
  case False
  let ?n = "max (next_power_of_two_from 1 (length hashes)) 8"
  have "next_power_of_two_from 1 (length hashes) \<le> max 1 (2 * length hashes)"
    by (rule next_power_of_two_bound) simp
  then have n: "?n * 64 < 2 ^ 64" using assms(1) by simp
  obtain bits where b: "try_fold (\<lambda>hash bits. words hash \<bind> (\<lambda>word. bloom_set word bits)) hashes (replicate ?n 0) = Some bits"
    "length bits = length (replicate ?n (0 :: u64))"
    "\<forall>h\<in>set hashes. \<forall>w. words h = Some w \<longrightarrow> bloom_test bits w = Some True"
    using bloom_fold_ok [OF _ _ assms(2), of "replicate ?n 0"] n by auto
  have "bits \<noteq> []" using b(2) by auto
  with b n False show ?thesis by (simp add: bloom_build_def)
qed

lemma insert_probe_length: "insert_probe blank T slot e = Some T' \<Longrightarrow> length T' = length T"
  by (auto simp: insert_probe_def)

lemma bucket_table_fold:
  assumes "length T = cap" "\<And>b h. (b, h) \<in> set xs \<Longrightarrow> key (of_nat b) = h"
  shows "try_fold (\<lambda>(bucket, hash) slots. insert_probe EMPTY slots (fastrange hash cap) (of_nat bucket)) xs T
    = try_fold (\<lambda>e T. insert_probe EMPTY T (fastrange (key e) (length T)) e) (map (\<lambda>(b, _). of_nat b) xs) T"
  using assms
proof (induction xs arbitrary: T)
  case (Cons x xs)
  obtain b h where x: "x = (b, h)" by (cases x)
  have k: "key (of_nat b) = h" using Cons.prems(2) x by simp
  show ?case
  proof (cases "insert_probe EMPTY T (fastrange h cap) (of_nat b)")
    case None
    with x k Cons.prems(1) show ?thesis by simp
  next
    case (Some T')
    then have "length T' = cap" using insert_probe_length Cons.prems(1) by metis
    note IH = Cons.IH [OF this Cons.prems(2) [OF list.set_intros(2)]]
    show ?thesis using x k Some Cons.prems(1) by (simp add: IH)
  qed
qed simp

lemma of_nat_not_EMPTY:
  assumes "n < 2 ^ 32 - 1"
  shows "(of_nat n :: u32) \<noteq> EMPTY"
proof
  assume "(of_nat n :: u32) = EMPTY"
  then have "unat (of_nat n :: u32) = unat EMPTY" by simp
  moreover have "unat (of_nat n :: u32) = n" using assms by (intro index32) simp
  moreover have "unat EMPTY = 2 ^ 32 - 1" by (simp add: EMPTY_def unsigned_minus_1_eq_mask mask_eq_exp_minus_1)
  ultimately show False using assms by simp
qed

lemma bucket_table_ok:
  assumes "length hashes < 2 ^ 32 - 1"
  defines "cap \<equiv> max (saturating_mul (length hashes) 10 div 7) 8"
  shows "\<exists>T. bucket_table hashes cap = Some T \<and> length T = cap \<and> length hashes < cap
    \<and> table_inv EMPTY (\<lambda>cap e. fastrange (hashes ! unat e) cap) T (map of_nat [0..<length hashes])"
proof -
  let ?key = "\<lambda>e :: u32. hashes ! unat e" and ?es = "map of_nat [0..<length hashes] :: u32 list"
  have room: "length hashes < cap"
    using table_slots_room [of "length hashes"] assms(1)
    by (simp add: cap_def table_slots_def USIZE_MAX_def)
  have keys: "?key (of_nat b) = h" if "(b, h) \<in> set (enumerate 0 hashes)" for b h
    using that assms(1) by (auto simp: in_set_enumerate_eq index32)
  have "map (\<lambda>(b, _). of_nat b) (enumerate 0 hashes) = ?es"
    by (rule nth_equalityI) (simp_all add: nth_enumerate_eq)
  then have fold: "bucket_table hashes cap =
      try_fold (\<lambda>e T. insert_probe EMPTY T (fastrange (?key e) (length T)) e) ?es (replicate cap EMPTY)"
    unfolding bucket_table_def using bucket_table_fold [of "replicate cap EMPTY" cap "enumerate 0 hashes" ?key] keys
    by simp
  have ne: "\<forall>e\<in>set ?es. e \<noteq> EMPTY" using of_nat_not_EMPTY assms(1) by auto
  have "length ([] :: u32 list) + length ?es < length (replicate cap EMPTY)" using room by simp
  from probing.inv_insert_all [OF ne probing.inv_empty [of ?key cap] this] fold room show ?thesis by auto
qed

section \<open>The compiled index reaches every rule\<close>

definition bucket_rules_of :: "url_index \<Rightarrow> nat \<Rightarrow> u32 list option" where
  "bucket_rules_of self bucket = do {
     from \<leftarrow> index_at (ui_bucket_start self) bucket;
     to \<leftarrow> index_at (ui_bucket_start self) (bucket + 1);
     slice (ui_bucket_rules self) (unat from) (unat to)
   }"

definition reaches :: "url_index \<Rightarrow> url_sem \<Rightarrow> u32 \<Rightarrow> bool" where
  "reaches self sem r \<longleftrightarrow>
     r \<in> set (ui_unindexed self)
   \<or> (\<exists>b rs. b < length (ui_bucket_hash self) \<and> bucket_rules_of self b = Some rs \<and> r \<in> set rs
        \<and> (ui_bucket_hash self ! b \<in> key_hashes sem
         \<or> (\<exists>w\<in>gram_words sem. ui_bucket_hash self ! b = ngram_hash w \<and> ui_ngram_bits self \<noteq> []
              \<and> bloom_test (ui_ngram_bits self) w = Some True)))"

text \<open>The structural half: what a lookup needs in order not to panic.\<close>

definition index_shape :: "url_index \<Rightarrow> nat \<Rightarrow> bool" where
  "index_shape self n \<longleftrightarrow>
     (\<forall>r\<in>set (ui_unindexed self). unat r < n) \<and>
     (\<forall>b<length (ui_bucket_hash self). \<exists>rs. bucket_rules_of self b = Some rs \<and> (\<forall>r\<in>set rs. unat r < n)) \<and>
     length (ui_bucket_hash self) < 2 ^ 32 - 1 \<and> distinct (ui_bucket_hash self) \<and>
     length (ui_slots self) = ui_slot_cap self \<and> length (ui_bucket_hash self) < ui_slot_cap self \<and>
     table_inv EMPTY (\<lambda>cap e. fastrange (ui_bucket_hash self ! unat e) cap) (ui_slots self)
       (map of_nat [0..<length (ui_bucket_hash self)]) \<and>
     length (ui_ngram_bits self) * 64 < 2 ^ 64"

definition index_of :: "url_builder \<Rightarrow> u16 \<Rightarrow> url_index \<Rightarrow> bool" where
  "index_of self full idx \<longleftrightarrow>
     ui_patterns idx = ub_patterns self \<and> ui_domains idx = ub_domains self \<and>
     ui_records idx = ub_records self \<and> ui_list_ids idx = ub_list_ids self \<and>
     ui_policy_mask idx = (if list_all (\<lambda>m. m = full) (ub_policy_mask self) then [] else ub_policy_mask self) \<and>
     ui_methods idx = ub_methods self \<and> ui_clients idx = ub_clients self \<and>
     ui_named_client_scopes idx = ub_named_client_scopes self \<and>
     ui_duplicates_removed idx = ub_duplicates_removed self \<and> ui_budget_exhausted idx = 0"

text \<open>The n-gram entries follow the others in a sorted list.\<close>

lemma sorted_ngrams_last:
  assumes "sorted (F :: filed list)" "x \<in> set (drop (length (takeWhile (\<lambda>(ngram, _, _). \<not> ngram) F)) F)"
  shows "fst x"
proof -
  let ?P = "\<lambda>(ngram, _, _). \<not> ngram" and ?D = "dropWhile (\<lambda>(ngram, _, _). \<not> ngram) F"
  have x: "x \<in> set ?D" using assms(2) by (simp add: dropWhile_eq_drop)
  then obtain y ys where D: "?D = y # ys" by (cases ?D) auto
  then have y: "fst y" by (simp add: dropWhile_eq_Cons_conv split_beta)
  have "sorted (y # ys)" using assms(1) D by (metis sorted_dropWhile)
  then have "y \<le> x" using x D by auto
  with y show ?thesis by (cases x; cases y) (auto simp: less_eq_prod_def less_le)
qed

text \<open>The start positions fit their 32 bits, so the arrays say what the invariant says.\<close>

lemma bucket_rules_csr:
  assumes inv: "csr_inv c ps E" and len: "length E < 2 ^ 32"
    and f: "ui_bucket_start idx = bk_start c @ [of_nat (length (bk_rules c))]" "ui_bucket_rules idx = bk_rules c"
    and b: "b < length ps"
  shows "bucket_rules_of idx b
    = Some (take (bucket_end ps (length E) b - ps ! b) (drop (ps ! b) (map (\<lambda>(_, _, r). r) E)))"
proof -
  have bnd: "ps ! b \<le> bucket_end ps (length E) b \<and> bucket_end ps (length E) b \<le> length E"
    using inv b by (simp add: csr_inv_def)
  have rules: "bk_rules c = map (\<lambda>(_, _, r). r) E" and start: "bk_start c = map of_nat ps"
    using inv by (simp_all add: csr_inv_def)
  have "index_at (ui_bucket_start idx) b = Some (of_nat (ps ! b))"
    using b by (simp add: f start nth_append)
  moreover have "index_at (ui_bucket_start idx) (b + 1) = Some (of_nat (bucket_end ps (length E) b))"
    using b by (auto simp: f start rules nth_append bucket_end_def index_at_def)
  moreover have "unat (of_nat (ps ! b) :: u32) = ps ! b"
    "unat (of_nat (bucket_end ps (length E) b) :: u32) = bucket_end ps (length E) b"
    using bnd len by (auto intro!: index32)
  ultimately show ?thesis
    using bnd by (simp add: bucket_rules_of_def f rules slice_def)
qed

definition keys_disjoint :: "url_sem set \<Rightarrow> bool" where
  "keys_disjoint S \<longleftrightarrow> (\<forall>a\<in>S. \<forall>b\<in>S. key_hashes a \<inter> ngram_hash ` gram_words b = {})"

lemma file_all_ok:
  assumes inv: "ub_inv self A"
  obtains freq filed0 needs wfreq filed words un where "key_frequency self = Some freq"
    "file_rules self freq = Some (filed0, needs)" "ngram_frequency self needs = Some wfreq"
    "file_ngrams self wfreq needs filed0 = Some (filed, words, un)"
    "words_ok words" "length filed \<le> length A" "\<And>r. r \<in> set un \<Longrightarrow> unat r < length A"
    "\<And>i. i < length A \<Longrightarrow> of_nat i \<in> set un \<or> (\<exists>ng h. (ng, h, of_nat i) \<in> set filed)"
    "\<And>ng h r. (ng, h, r) \<in> set filed \<Longrightarrow> unat r < length A
       \<and> (if ng then h \<in> dom words \<and> h \<in> ngram_hash ` gram_words (fst (A ! unat r))
          else h \<in> key_hashes (fst (A ! unat r)))"
proof -
  obtain freq where freq: "key_frequency self = Some freq" using key_frequency_total [OF inv] by blast
  obtain filed0 needs where f: "file_rules self freq = Some (filed0, needs)"
    "\<And>i. i < length A \<Longrightarrow> of_nat i \<in> set needs \<or> (\<exists>h. (False, h, of_nat i) \<in> set filed0)"
    "\<And>ng h r. (ng, h, r) \<in> set filed0 \<Longrightarrow> \<not> ng \<and> unat r < length A \<and> h \<in> key_hashes (fst (A ! unat r))"
    "\<And>r. r \<in> set needs \<Longrightarrow> unat r < length A" "length filed0 + length needs = length A"
    using file_rules_ok [OF inv, of freq] by metis
  obtain wfreq where w: "ngram_frequency self needs = Some wfreq"
    using ngram_frequency_total [OF inv f(4)] by blast
  have e: "words_ok Map.empty" by (simp add: words_ok_def)
  obtain new words un where g: "try_fold (file_ngram self wfreq) needs (filed0, Map.empty, [])
      = Some (filed0 @ new, words, un)" "words_ok words" "length new + length un = length needs"
    "\<forall>r\<in>set needs. r \<in> set un \<or> (\<exists>h. (True, h, r) \<in> set new)" "set un \<subseteq> set needs"
    "\<forall>(ng, h, r)\<in>set new. ng \<and> r \<in> set needs \<and> h \<in> dom words
         \<and> h \<in> ngram_hash ` gram_words (fst (A ! unat r))"
    using file_ngrams_step [OF inv f(4) e, where f = wfreq and filed = filed0 and un = "[]"] unfolding append_Nil by blast
  show ?thesis
  proof (rule that [OF freq f(1) w _ g(2)])
    show "file_ngrams self wfreq needs filed0 = Some (filed0 @ new, words, un)"
      using g(1) by (simp add: file_ngrams_def)
    show "length (filed0 @ new) \<le> length A" using f(5) g(3) by simp
    show "unat r < length A" if "r \<in> set un" for r using that g(5) f(4) by blast
    show "of_nat i \<in> set un \<or> (\<exists>ng h. (ng, h, of_nat i) \<in> set (filed0 @ new))" if "i < length A" for i
      using f(2) [OF that] g(4) by auto
    show "unat r < length A \<and> (if ng then h \<in> dom words \<and> h \<in> ngram_hash ` gram_words (fst (A ! unat r))
          else h \<in> key_hashes (fst (A ! unat r)))" if m: "(ng, h, r) \<in> set (filed0 @ new)" for ng h r
    proof (cases "(ng, h, r) \<in> set filed0")
      case True
      then show ?thesis using f(3) by auto
    next
      case False
      then have "(ng, h, r) \<in> set new" using m by simp
      then show ?thesis using g(6) f(4) by auto
    qed
  qed
qed

lemma url_build_ok:
  assumes inv: "ub_inv self A" and len: "length A < 2 ^ 32 - 1" and keys: "keys_disjoint (fst ` set A)"
  shows "\<exists>idx. url_build self full = Some idx \<and> index_of self full idx \<and> index_shape idx (length A)
    \<and> (\<forall>i<length A. reaches idx (fst (A ! i)) (of_nat i))"
proof -
  obtain freq filed0 needs wfreq filed words un where steps: "key_frequency self = Some freq"
    "file_rules self freq = Some (filed0, needs)" "ngram_frequency self needs = Some wfreq"
    "file_ngrams self wfreq needs filed0 = Some (filed, words, un)"
    and wok: "words_ok words" and lenf: "length filed \<le> length A" and un: "\<And>r. r \<in> set un \<Longrightarrow> unat r < length A"
    and all: "\<And>i. i < length A \<Longrightarrow> of_nat i \<in> set un \<or> (\<exists>ng h. (ng, h, of_nat i) \<in> set filed)"
    and ent: "\<And>ng h r. (ng, h, r) \<in> set filed \<Longrightarrow> unat r < length A
       \<and> (if ng then h \<in> dom words \<and> h \<in> ngram_hash ` gram_words (fst (A ! unat r))
          else h \<in> key_hashes (fst (A ! unat r)))"
    using file_all_ok [OF inv] by metis
  define F where "F = sort filed"
  define first where "first = length (takeWhile (\<lambda>(ngram, _, _). \<not> ngram) F)"
  define kept where "kept = (case ngram_cut 0 0 None (drop first F) of
      Some offset \<Rightarrow> first + offset | None \<Rightarrow> length F)"
  define E where "E = take kept F"
  define unindexed where "unindexed = sort (un @ map (\<lambda>(_, _, rule). rule) (drop kept F))"
  define c where "c = foldl csr_push csr_empty E"
  define ng where "ng = (case bk_ngram c of Some n \<Rightarrow> min n (length (bk_hash c)) | None \<Rightarrow> length (bk_hash c))"
  have setF: "set F = set filed" by (simp add: F_def)
  have subE: "set E \<subseteq> set filed" unfolding E_def setF [symmetric] by (rule set_take_subset)
  have clash: "no_clash E"
    unfolding no_clash_def
  proof (intro allI impI)
    fix h h' r r' assume e: "(False, h, r) \<in> set E" "(True, h', r') \<in> set E"
    then have "h \<in> key_hashes (fst (A ! unat r))" "h' \<in> ngram_hash ` gram_words (fst (A ! unat r'))"
      "unat r < length A" "unat r' < length A" using ent subE by fastforce+
    then show "h \<noteq> h'" using keys unfolding keys_disjoint_def
      by (metis (no_types, lifting) disjoint_iff imageI nth_mem)
  qed
  have "sorted E" unfolding E_def F_def by (simp add: sorted_wrt_take)
  then obtain ps where ci: "csr_inv c ps E" and gi: "gram_inv c E" and di: "distinct (bk_hash c)"
    using csr_build_ok [OF _ clash] unfolding c_def by blast
  have lenE: "length E \<le> length A" using lenf by (simp add: E_def F_def)
  have nb: "length (bk_hash c) = length ps" "length ps \<le> length E" using ci by (simp_all add: csr_inv_def)
  have grams: "set (drop ng (bk_hash c)) \<subseteq> dom words"
    "\<And>h r. (True, h, r) \<in> set E \<Longrightarrow> h \<in> set (drop ng (bk_hash c))"
  proof -
    show "set (drop ng (bk_hash c)) \<subseteq> dom words"
    proof
      fix h assume "h \<in> set (drop ng (bk_hash c))"
      then obtain r where "(True, h, r) \<in> set E"
        using gi by (auto simp: ng_def gram_inv_def split: option.splits)
      then show "h \<in> dom words" using ent subE by fastforce
    qed
    show "h \<in> set (drop ng (bk_hash c))" if "(True, h, r) \<in> set E" for h r
      using that gi by (auto simp: ng_def gram_inv_def split: option.splits)
  qed
  have "length (drop ng (bk_hash c)) < 2 ^ 32" using nb lenE len by simp
  from bloom_build_ok [OF this grams(1)] obtain bits
    where bits: "bloom_build (drop ng (bk_hash c)) words = Some bits" "bits = [] \<longleftrightarrow> drop ng (bk_hash c) = []"
      "length bits * 64 < 2 ^ 64"
      "\<forall>h\<in>set (drop ng (bk_hash c)). \<forall>w. words h = Some w \<longrightarrow> bloom_test bits w = Some True" by blast
  have nb32: "length (bk_hash c) < 2 ^ 32 - 1" using nb lenE len by simp
  define cap where "cap = max (saturating_mul (length (bk_hash c)) 10 div 7) 8"
  obtain T where T: "bucket_table (bk_hash c) cap = Some T" "length T = cap" "length (bk_hash c) < cap"
    "table_inv EMPTY (\<lambda>cap e. fastrange (bk_hash c ! unat e) cap) T (map of_nat [0..<length (bk_hash c)])"
    using bucket_table_ok [OF nb32] unfolding cap_def by blast
  define idx where "idx = \<lparr> ui_patterns = ub_patterns self, ui_domains = ub_domains self,
            ui_records = ub_records self, ui_list_ids = ub_list_ids self,
            ui_policy_mask = (if list_all (\<lambda>m. m = full) (ub_policy_mask self) then [] else ub_policy_mask self),
            ui_methods = ub_methods self,
            ui_clients = ub_clients self, ui_named_client_scopes = ub_named_client_scopes self,
            ui_slots = T, ui_slot_cap = cap, ui_bucket_hash = bk_hash c,
            ui_bucket_start = bk_start c @ [of_nat (length (bk_rules c))], ui_bucket_rules = bk_rules c,
            ui_ngram_bucket_start = ng, ui_ngram_bits = bits,
            ui_unindexed = unindexed, ui_duplicates_removed = ub_duplicates_removed self,
            ui_budget_exhausted = 0 \<rparr>"
  have build: "url_build self full = Some idx"
    using steps bits(1) T(1)
    unfolding url_build_def idx_def F_def first_def kept_def E_def unindexed_def c_def ng_def cap_def
    by (simp add: Let_def)
  have lenE32: "length E < 2 ^ 32" using lenE len by simp
  note rules = bucket_rules_csr [OF ci lenE32, of idx]
  have br: "bucket_rules_of idx b
      = Some (take (bucket_end ps (length E) b - ps ! b) (drop (ps ! b) (map (\<lambda>(_, _, r). r) E)))"
    if "b < length ps" for b using rules that by (simp add: idx_def)
  have "\<exists>rs. bucket_rules_of idx b = Some rs \<and> (\<forall>r\<in>set rs. unat r < length A)" if "b < length (bk_hash c)" for b
  proof -
    have "set (take (bucket_end ps (length E) b - ps ! b) (drop (ps ! b) (map (\<lambda>(_, _, r). r) E)))
        \<subseteq> (\<lambda>(_, _, r). r) ` set E"
      by (metis (no_types, lifting) list.set_map set_drop_subset set_take_subset subset_trans)
    moreover have "\<forall>r\<in>(\<lambda>(_, _, r). r) ` set E. unat r < length A" using ent subE by fastforce
    ultimately show ?thesis using br that nb by auto
  qed
  moreover have "\<forall>r\<in>set unindexed. unat r < length A"
  proof
    fix r assume "r \<in> set unindexed"
    then consider "r \<in> set un" | x where "x \<in> set (drop kept F)" "r = (\<lambda>(_, _, rule). rule) x"
      by (auto simp: unindexed_def)
    then show "unat r < length A"
    proof cases
      case 2
      obtain n h q where x: "x = (n, h, q)" using prod_cases3 by blast
      have "(n, h, q) \<in> set filed" using 2(1) x in_set_dropD setF by metis
      from ent [OF this] show ?thesis using 2(2) x by simp
    qed (rule un)
  qed
  ultimately have shape: "index_shape idx (length A)"
    using T bits nb32 di unfolding index_shape_def by (simp add: idx_def)
  have reach: "reaches idx (fst (A ! i)) (of_nat i)" if i: "i < length A" for i
  proof (cases "\<exists>n h. (n, h, of_nat i) \<in> set E")
    case False
    have "of_nat i \<in> set unindexed"
      using all [OF i]
    proof
      assume "\<exists>n h. (n, h, of_nat i) \<in> set filed"
      then obtain n h where "(n, h, of_nat i) \<in> set F" using setF by blast
      with False have "(n, h, of_nat i) \<in> set (drop kept F)"
        unfolding E_def by (metis Un_iff append_take_drop_id set_append)
      then show ?thesis by (force simp: unindexed_def)
    qed (simp add: unindexed_def)
    then show ?thesis by (simp add: reaches_def idx_def)
  next
    case True
    then obtain n h where e: "(n, h, of_nat i) \<in> set E" by blast
    then obtain k where k: "k < length E" "E ! k = (n, h, of_nat i)" by (auto simp: in_set_conv_nth)
    obtain b where b: "b < length ps" "ps ! b \<le> k" "k < bucket_end ps (length E) b" "bk_hash c ! b = h"
      using ci k unfolding csr_inv_def by (metis fst_conv snd_conv)
    let ?rs = "take (bucket_end ps (length E) b - ps ! b) (drop (ps ! b) (map (\<lambda>(_, _, r). r) E))"
    have "?rs ! (k - ps ! b) = of_nat i" "k - ps ! b < length ?rs" using b k by auto
    then have mem: "of_nat i \<in> set ?rs" by (metis nth_mem)
    have ui: "unat (of_nat i :: u32) = i" using i len by (intro index32) simp
    have "h \<in> key_hashes (fst (A ! i)) \<or> (\<exists>w\<in>gram_words (fst (A ! i)). h = ngram_hash w \<and> bits \<noteq> []
        \<and> bloom_test bits w = Some True)"
    proof (cases n)
      case False
      then show ?thesis using ent [of n h "of_nat i"] e subE ui by auto
    next
      case True
      then obtain w where w: "w \<in> gram_words (fst (A ! i))" "h = ngram_hash w" "h \<in> dom words"
        using ent [of n h "of_nat i"] e subE ui by auto
      have hd: "h \<in> set (drop ng (bk_hash c))" using grams(2) e True by simp
      obtain w' where "words h = Some w'" using w(3) by blast
      moreover have "w' = w" using calculation wok w(2) ngram_hash_inj unfolding words_ok_def by blast
      ultimately have "bloom_test bits w = Some True" using bits(4) hd by blast
      moreover have "bits \<noteq> []" using bits(2) hd by auto
      ultimately show ?thesis using w by blast
    qed
    then show ?thesis
      unfolding reaches_def using br [OF b(1)] b(1,4) mem nb by (auto simp: idx_def)
  qed
  have "index_of self full idx" by (simp add: index_of_def idx_def)
  with build shape reach show ?thesis by blast
qed

end
