(* ===== verification/Url_Lookup.thy ===== *)
theory Url_Lookup
  imports Url_Build
begin

text \<open>
  Answering a request from the compiled URL tier (\<open>UrlIndex\<close> of \<open>fah-rules/src/url_matcher.rs\<close>):
  \<open>check\<close> decides one rule, \<open>url_lookup\<close> runs the scan list, the token probes and the n-gram sweep
  and folds their outcomes with allow before block. The work allowance is the only state a lookup
  threads through; whether it ran out is counted on the index.
\<close>

section \<open>One rule\<close>

datatype url_decision = UAllow u32 | UBlock u32 | UPass

record url_probe =
  pb_request :: http_request
  pb_url :: string
  pb_host_start :: nat
  pb_host_end :: nat
  pb_type_bit :: u16
  pb_third_party :: bool
  pb_ctx :: client_context
  pb_budget :: budget

definition probe_new :: "http_request \<Rightarrow> client_context \<Rightarrow> url_probe" where
  "probe_new request ctx =
     (let url = req_url request; (host_start, host_end) = host_span url
      in \<lparr> pb_request = request, pb_url = url, pb_host_start = host_start, pb_host_end = host_end,
           pb_type_bit = bit_for_request (req_resource_type request),
           pb_third_party = is_third_party request, pb_ctx = ctx, pb_budget = budget_new \<rparr>)"

definition ui_list_id :: "url_index \<Rightarrow> u32 \<Rightarrow> u16 option" where
  "ui_list_id self index = index_at (ui_list_ids self) (unat index)"

definition ui_pattern_of :: "url_index \<Rightarrow> u32 \<Rightarrow> string option" where
  "ui_pattern_of self index = do {
     record \<leftarrow> index_at (ui_records self) (unat index);
     arena_slice (ui_patterns self) (uc_pat_off record) (uc_pat_len record)
   }"

definition ui_domains_of :: "url_index \<Rightarrow> u32 \<Rightarrow> string option" where
  "ui_domains_of self index = do {
     record \<leftarrow> index_at (ui_records self) (unat index);
     arena_slice (ui_domains self) (uc_dom_off record) (uc_dom_len record)
   }"

text \<open>The loop of a domain anchor: the host, then every label boundary inside it.\<close>

function domain_tries ::
  "memchr_lib \<Rightarrow> string \<Rightarrow> string \<Rightarrow> nat \<Rightarrow> bool \<Rightarrow> bool \<Rightarrow> nat \<Rightarrow> budget \<Rightarrow> (bool \<times> budget) option" where
  "domain_tries lib pattern url host_end end_anchored match_case at b =
     (case match_from lib pattern url at end_anchored match_case b of
        None \<Rightarrow> None
      | Some (matched, b) \<Rightarrow>
          if matched then Some (True, b)
          else case slice url at host_end of
            None \<Rightarrow> None
          | Some rest \<Rightarrow>
              (case position (\<lambda>c. c = CHR ''.'') rest of
                 Some offset \<Rightarrow>
                   domain_tries lib pattern url host_end end_anchored match_case (at + offset + 1) b
               | None \<Rightarrow> Some (False, b)))"
  by pat_completeness auto
termination
  by (relation "measure (\<lambda>(_, _, _, host_end, _, _, at, _). host_end - at)")
     (auto simp: slice_def split: if_splits dest!: position_less)

text \<open>The separator-led pattern: every separator and the end of the URL.\<close>

fun separator_tries ::
  "memchr_lib \<Rightarrow> string \<Rightarrow> string \<Rightarrow> bool \<Rightarrow> bool \<Rightarrow> nat list \<Rightarrow> budget \<Rightarrow> (bool \<times> budget) option" where
  "separator_tries lib pattern url end_anchored match_case [] b = Some (False, b)"
| "separator_tries lib pattern url end_anchored match_case (at # ats) b =
     (if at = length url \<or> is_separator (url ! at) then
        (case match_from lib pattern url at end_anchored match_case b of
           None \<Rightarrow> None
         | Some (matched, b) \<Rightarrow>
             if matched then Some (True, b)
             else separator_tries lib pattern url end_anchored match_case ats b)
      else separator_tries lib pattern url end_anchored match_case ats b)"

text \<open>The literal-led pattern: every position its first byte occupies.\<close>

function literal_tries ::
  "memchr_lib \<Rightarrow> string \<Rightarrow> string \<Rightarrow> char \<Rightarrow> bool \<Rightarrow> bool \<Rightarrow> nat \<Rightarrow> budget \<Rightarrow> (bool \<times> budget) option" where
  "literal_tries lib pattern url first end_anchored match_case at b =
     (case find_byte lib url at first match_case of
        None \<Rightarrow> Some (False, b)
      | Some found \<Rightarrow>
          (case match_from lib pattern url found end_anchored match_case b of
             None \<Rightarrow> None
           | Some (matched, b) \<Rightarrow>
               if matched then Some (True, b)
               else literal_tries lib pattern url first end_anchored match_case (found + 1) b))"
  by pat_completeness auto
termination
  by (relation "measure (\<lambda>(_, _, url, _, _, _, at, _). Suc (length url) - at)")
     (auto simp: find_byte_def Let_def split: if_splits)

declare domain_tries.simps [simp del] literal_tries.simps [simp del]

definition anchored_match ::
  "memchr_lib \<Rightarrow> u16 \<Rightarrow> string \<Rightarrow> string \<Rightarrow> nat \<Rightarrow> nat \<Rightarrow> bool \<Rightarrow> bool \<Rightarrow> budget \<Rightarrow> (bool \<times> budget) option" where
  "anchored_match lib anchor pattern url host_start host_end end_anchored match_case b =
     (if anchor = ANCHOR_START then match_from lib pattern url 0 end_anchored match_case b
      else if anchor = ANCHOR_DOMAIN then
        domain_tries lib pattern url host_end end_anchored match_case host_start b
      else case pattern of
        [] \<Rightarrow> Some (True, b)
      | first # _ \<Rightarrow>
          if first = CHR ''*'' then match_from lib pattern url 0 end_anchored match_case b
          else if first = CHR ''^'' then
            separator_tries lib pattern url end_anchored match_case [0..<length url + 1] b
          else literal_tries lib pattern url first end_anchored match_case 0 b)"

text \<open>Everything \<open>check\<close> tests before the pattern, in its order; a side-map or arena access may
  panic.\<close>

definition admissible :: "url_index \<Rightarrow> u32 \<Rightarrow> url_record \<Rightarrow> url_probe \<Rightarrow> bool option" where
  "admissible self index record pr =
     (case (if ui_policy_mask self = [] then Some True
            else map_option (\<lambda>m. m AND policy_bit (ctx_policy (pb_ctx pr)) \<noteq> 0)
                   (index_at (ui_policy_mask self) (unat index))) of
        None \<Rightarrow> None
      | Some False \<Rightarrow> Some False
      | Some True \<Rightarrow>
     (case (if uc_has_client record
            then map_option (\<lambda>scope. admits scope (ctx_ip (pb_ctx pr)) (ctx_name (pb_ctx pr)))
                   (ui_clients self index)
            else Some True) of
        None \<Rightarrow> None
      | Some False \<Rightarrow> Some False
      | Some True \<Rightarrow>
          if uc_types record \<noteq> 0 \<and> uc_types record AND pb_type_bit pr = 0
             \<and> (pb_type_bit pr \<noteq> 0 \<or> \<not> uc_is_allow record) then Some False
          else if uc_party record = PARTY_THIRD \<and> \<not> pb_third_party pr then Some False
          else if uc_party record = PARTY_FIRST \<and> pb_third_party pr then Some False
          else if uc_has_methods record
             \<and> \<not> methods_apply (case ui_methods self index of Some raw \<Rightarrow> raw | None \<Rightarrow> [])
                   (req_method (pb_request pr)) then Some False
          else if uc_dom_len record \<noteq> 0 then
            map_option (\<lambda>raw. domains_apply raw (req_document_host (pb_request pr))) (ui_domains_of self index)
          else Some True))"

definition check :: "memchr_lib \<Rightarrow> url_index \<Rightarrow> u32 \<Rightarrow> url_probe \<Rightarrow> (bool option \<times> url_probe) option" where
  "check lib self index pr =
     (case index_at (ui_records self) (unat index) of
        None \<Rightarrow> None
      | Some record \<Rightarrow>
          (case admissible self index record pr of
             None \<Rightarrow> None
           | Some False \<Rightarrow> Some (None, pr)
           | Some True \<Rightarrow>
               (case ui_pattern_of self index of
                  None \<Rightarrow> None
                | Some pattern \<Rightarrow>
                    (case anchored_match lib (uc_anchor record) pattern (pb_url pr) (pb_host_start pr)
                            (pb_host_end pr) (uc_end_anchored record) (uc_match_case record)
                            (budget_open (pb_budget pr) (length (pb_url pr))) of
                       None \<Rightarrow> None
                     | Some (matched, b) \<Rightarrow>
                         Some (if matched then Some (uc_is_allow record) else None,
                               pr\<lparr> pb_budget := b \<rparr>)))))"

section \<open>The lookup\<close>

record lookup_state =
  lk_probe :: url_probe
  lk_found :: "u32 option"
  lk_blocked :: "u32 option"

text \<open>The loop over rules that the scan list and every bucket share.\<close>

fun check_rules :: "memchr_lib \<Rightarrow> url_index \<Rightarrow> u32 list \<Rightarrow> lookup_state \<Rightarrow> lookup_state option" where
  "check_rules lib self [] st = Some st"
| "check_rules lib self (index # rest) st =
     (case check lib self index (lk_probe st) of
        None \<Rightarrow> None
      | Some (r, pr) \<Rightarrow>
          (let st = st\<lparr> lk_probe := pr \<rparr>
           in case r of
                Some True \<Rightarrow> Some (st\<lparr> lk_found := Some index \<rparr>)
              | Some False \<Rightarrow>
                  check_rules lib self rest
                    (st\<lparr> lk_blocked := (case lk_blocked st of Some i \<Rightarrow> Some i | None \<Rightarrow> Some index) \<rparr>)
              | None \<Rightarrow> check_rules lib self rest st))"

definition check_bucket :: "memchr_lib \<Rightarrow> url_index \<Rightarrow> nat \<Rightarrow> lookup_state \<Rightarrow> lookup_state option" where
  "check_bucket lib self bucket st =
     (case bucket_rules_of self bucket of None \<Rightarrow> None | Some rules \<Rightarrow> check_rules lib self rules st)"

definition ngram_may_hold :: "url_index \<Rightarrow> u32 \<Rightarrow> bool option" where
  "ngram_may_hold self word = bloom_test (ui_ngram_bits self) word"

definition bucket_of :: "url_index \<Rightarrow> u64 \<Rightarrow> nat option option" where
  "bucket_of self hash =
     (if ui_bucket_hash self = [] then Some None
      else case probe (length (ui_slots self)) EMPTY (ui_slots self)
             (\<lambda>e _. case index_at (ui_bucket_hash self) (unat e) of
                      None \<Rightarrow> None
                    | Some h \<Rightarrow> if h = hash then Some (Inl (unat e)) else Some (Inr ()))
             (fastrange hash (ui_slot_cap self)) () of
        None \<Rightarrow> None
      | Some (Inl bucket) \<Rightarrow> Some (Some bucket)
      | Some (Inr _) \<Rightarrow> Some None)"

definition NGRAM_SEEN_WORDS :: nat where
  "NGRAM_SEEN_WORDS = 16"

definition visit_once :: "u64 list \<Rightarrow> nat \<Rightarrow> nat \<Rightarrow> (bool \<times> u64 list) option" where
  "visit_once visited bucket ngram_start =
     (if bucket < ngram_start then Some (True, visited)
      else let slot = bucket - ngram_start
        in if int NGRAM_SEEN_WORDS * 64 \<le> int slot then Some (True, visited)
           else let b = push_bit (slot mod 64) 1
             in map_option (\<lambda>x. if x AND b \<noteq> 0 then (False, visited)
                                else (True, visited[slot div 64 := x OR b]))
                  (index_at visited (slot div 64)))"

text \<open>The three probes of one URL token.\<close>

fun probe_keys :: "memchr_lib \<Rightarrow> url_index \<Rightarrow> (key_kind \<times> string) list \<Rightarrow> lookup_state \<Rightarrow> (bool \<times> lookup_state) option"
where
  "probe_keys lib self [] st = Some (True, st)"
| "probe_keys lib self ((kind, key) # keys) st =
     (case bucket_of self (hash_key kind key) of
        None \<Rightarrow> None
      | Some None \<Rightarrow> probe_keys lib self keys st
      | Some (Some bucket) \<Rightarrow>
          (case check_bucket lib self bucket st of
             None \<Rightarrow> None
           | Some st \<Rightarrow> if lk_found st \<noteq> None then Some (False, st) else probe_keys lib self keys st))"

definition visit_token ::
  "memchr_lib \<Rightarrow> url_index \<Rightarrow> string \<Rightarrow> nat \<Rightarrow> nat \<Rightarrow> lookup_state \<Rightarrow> (bool \<times> lookup_state) option" where
  "visit_token lib self url start end st =
     (case slice url start end of
        None \<Rightarrow> None
      | Some token \<Rightarrow>
          if length token < MIN_TOKEN_LEN then Some (True, st)
          else probe_keys lib self (url_keys token) st)"

fun ngram_sweep ::
  "memchr_lib \<Rightarrow> url_index \<Rightarrow> u32 \<Rightarrow> u64 list \<Rightarrow> string \<Rightarrow> lookup_state \<Rightarrow> lookup_state option" where
  "ngram_sweep lib self word visited [] st = Some st"
| "ngram_sweep lib self word visited (b # bytes) st =
     (let word = ngram_push word b AND NGRAM_WORD_MASK
      in case ngram_may_hold self word of
           None \<Rightarrow> None
         | Some False \<Rightarrow> ngram_sweep lib self word visited bytes st
         | Some True \<Rightarrow>
             (case bucket_of self (ngram_hash word) of
                None \<Rightarrow> None
              | Some None \<Rightarrow> ngram_sweep lib self word visited bytes st
              | Some (Some bucket) \<Rightarrow>
                  (case visit_once visited bucket (ui_ngram_bucket_start self) of
                     None \<Rightarrow> None
                   | Some (False, visited) \<Rightarrow> ngram_sweep lib self word visited bytes st
                   | Some (True, visited) \<Rightarrow>
                       (case check_bucket lib self bucket st of
                          None \<Rightarrow> None
                        | Some st \<Rightarrow>
                            if lk_found st \<noteq> None then Some st
                            else ngram_sweep lib self word visited bytes st))))"

definition url_lookup_state ::
  "memchr_lib \<Rightarrow> url_index \<Rightarrow> http_request \<Rightarrow> client_context \<Rightarrow> lookup_state option" where
  "url_lookup_state lib self request ctx = do {
     let url = req_url request;
     st \<leftarrow> check_rules lib self (ui_unindexed self)
            \<lparr> lk_probe = probe_new request ctx, lk_found = None, lk_blocked = None \<rparr>;
     st \<leftarrow> (if lk_found st = None then for_each_token url (visit_token lib self url) st else Some st);
     (if lk_found st = None \<and> ui_ngram_bits self \<noteq> [] \<and> MIN_TOKEN_LEN \<le> length url
      then ngram_sweep lib self (foldl ngram_push 0 (take (MIN_TOKEN_LEN - 1) url))
             (replicate NGRAM_SEEN_WORDS 0) (drop (MIN_TOKEN_LEN - 1) url) st
      else Some st)
   }"

text \<open>The decision, and the index with its counter of exhausted lookups.\<close>

definition url_lookup ::
  "memchr_lib \<Rightarrow> url_index \<Rightarrow> http_request \<Rightarrow> client_context \<Rightarrow> (url_decision \<times> url_index) option" where
  "url_lookup lib self request ctx = do {
     st \<leftarrow> url_lookup_state lib self request ctx;
     let self = (if bu_exhausted (pb_budget (lk_probe st))
                 then self\<lparr> ui_budget_exhausted := ui_budget_exhausted self + 1 \<rparr> else self);
     Some (case lk_found st of
             Some index \<Rightarrow> UAllow index
           | None \<Rightarrow> (case lk_blocked st of Some index \<Rightarrow> UBlock index | None \<Rightarrow> UPass), self)
   }"

section \<open>Accessors and reporting\<close>

definition ui_len :: "url_index \<Rightarrow> nat" where
  "ui_len self = length (ui_records self)"
definition ui_unindexed_len :: "url_index \<Rightarrow> nat" where
  "ui_unindexed_len self = length (ui_unindexed self)"
definition ui_ngram_keys :: "url_index \<Rightarrow> nat" where
  "ui_ngram_keys self = length (ui_bucket_hash self) - ui_ngram_bucket_start self"

text \<open>The text of a rule being rebuilt, with the separator its next option starts with. Arena slices
  are the bytes of a whole \<open>str\<close>, which the conversions back to a string leave as they are.\<close>

definition push_option :: "string \<times> char \<Rightarrow> string \<Rightarrow> string \<times> char" where
  "push_option self body = (case self of (text, separator) \<Rightarrow> (text @ separator # body, CHR '',''))"

definition TYPE_NAMES :: "string list" where
  "TYPE_NAMES =
     [''document'', ''subdocument'', ''script'', ''stylesheet'', ''image'', ''font'', ''media'',
      ''xmlhttprequest'', ''websocket'', ''ping'', ''object'', ''other'']"

definition append_types :: "u16 \<Rightarrow> string \<times> char \<Rightarrow> string \<times> char" where
  "append_types types self =
     (let negate = length TYPE_NAMES div 2 < length (filter (bit types) [0..<16])
      in fold (\<lambda>(index, name) self.
                 let present = types AND push_bit index 1 \<noteq> 0
                 in if present = negate then self
                    else if negate then push_option self (''~'' @ name) else push_option self name)
           (enumerate 0 TYPE_NAMES) self)"

definition rule_text :: "url_index \<Rightarrow> u32 \<Rightarrow> string option" where
  "rule_text self index = do {
     record \<leftarrow> index_at (ui_records self) (unat index);
     pattern \<leftarrow> ui_pattern_of self index;
     let text = (if uc_is_allow record then ''@@'' else [])
       @ (if uc_anchor record = ANCHOR_DOMAIN then ''||''
          else if uc_anchor record = ANCHOR_START then ''|'' else [])
       @ pattern @ (if uc_end_anchored record then ''|'' else []);
     let st = (text, CHR ''$'');
     let st = (if uc_types record \<noteq> 0 then append_types (uc_types record) st else st);
     let st = (if uc_party record = PARTY_THIRD then push_option st ''third-party''
               else if uc_party record = PARTY_FIRST then push_option st ''first-party'' else st);
     let st = (if uc_match_case record then push_option st ''match-case'' else st);
     st \<leftarrow> (if uc_dom_len record \<noteq> 0
            then map_option (\<lambda>domains. push_option st (''domain='' @ domains)) (ui_domains_of self index)
            else Some st);
     let st = (case ui_methods self index of Some raw \<Rightarrow> push_option st (''method='' @ raw) | None \<Rightarrow> st);
     Some (fst st)
   }"

section \<open>What one rule means\<close>

text \<open>Where a pattern may start: the start of the URL, the host or a label boundary inside it, or
  anywhere.\<close>

definition may_start :: "u16 \<Rightarrow> string \<Rightarrow> nat \<Rightarrow> nat \<Rightarrow> nat \<Rightarrow> bool" where
  "may_start anchor url host_start host_end at \<longleftrightarrow>
     (if anchor = ANCHOR_START then at = 0
      else if anchor = ANCHOR_DOMAIN then
        at = host_start \<or> (host_start < at \<and> at \<le> host_end \<and> url ! (at - 1) = CHR ''.'')
      else True)"

definition pattern_applies :: "u16 \<Rightarrow> bool \<Rightarrow> bool \<Rightarrow> string \<Rightarrow> string \<Rightarrow> bool" where
  "pattern_applies anchor ea mc pattern url =
     (case host_span url of (host_start, host_end) \<Rightarrow>
        list_ex (\<lambda>at. may_start anchor url host_start host_end at \<and> wild ea mc pattern (drop at url))
          [0..<length url + 1])"

lemma pattern_applies_iff:
  assumes "host_span url = (hs, he)"
  shows "pattern_applies anchor ea mc pattern url \<longleftrightarrow>
    (\<exists>at\<le>length url. may_start anchor url hs he at \<and> wild ea mc pattern (drop at url))"
  using assms by (auto simp: pattern_applies_def list_ex_iff less_Suc_eq_le simp del: upt_Suc)

text \<open>A matcher run: it returns, finds only matches, and misses one only when the allowance ran
  out, which it never takes back.\<close>

definition decides :: "budget \<Rightarrow> (bool \<times> budget) option \<Rightarrow> bool \<Rightarrow> bool" where
  "decides b r holds \<longleftrightarrow>
     (\<exists>v b'. r = Some (v, b') \<and> (v \<longrightarrow> holds) \<and> (holds \<longrightarrow> v \<or> bu_exhausted b')
        \<and> (bu_exhausted b \<longrightarrow> bu_exhausted b'))"

lemma decidesE:
  assumes "decides b r holds"
  obtains v b' where "r = Some (v, b')" "v \<Longrightarrow> holds" "holds \<Longrightarrow> \<not> v \<Longrightarrow> bu_exhausted b'"
    "bu_exhausted b \<Longrightarrow> bu_exhausted b'"
  using assms by (auto simp: decides_def)

lemma decides_known [intro]:
  "\<not> holds \<Longrightarrow> decides b (Some (False, b)) holds"
  "holds \<Longrightarrow> (bu_exhausted b \<Longrightarrow> bu_exhausted b') \<Longrightarrow> decides b (Some (True, b')) holds"
  by (auto simp: decides_def)

lemma decides_match_from:
  assumes "memchr_ok lib" "start \<le> length text"
  shows "decides b (match_from lib pattern text start ea mc b) (wild ea mc pattern (drop start text))"
  using match_from_total [OF assms, of pattern ea mc b] by (auto simp: decides_def spent_def)

text \<open>Trying one start and then the others.\<close>

lemma decides_or:
  assumes "decides b r P" "\<And>b'. decides b' (rest b') Q"
  shows "decides b (case r of None \<Rightarrow> None | Some (m, b') \<Rightarrow> if m then Some (True, b') else rest b') (P \<or> Q)"
proof (rule decidesE [OF assms(1)])
  fix v b1
  assume a: "r = Some (v, b1)" "v \<Longrightarrow> P" "P \<Longrightarrow> \<not> v \<Longrightarrow> bu_exhausted b1"
    "bu_exhausted b \<Longrightarrow> bu_exhausted b1"
  show ?thesis
  proof (cases v)
    case True
    with a show ?thesis by (auto intro: decides_known(2))
  next
    case False
    from assms(2) [of b1] obtain v2 b2 where "rest b1 = Some (v2, b2)" "v2 \<Longrightarrow> Q"
      "Q \<Longrightarrow> \<not> v2 \<Longrightarrow> bu_exhausted b2" "bu_exhausted b1 \<Longrightarrow> bu_exhausted b2" by (auto simp: decides_def)
    with a False show ?thesis by (auto simp: decides_def)
  qed
qed

lemma separator_tries_ok:
  assumes "memchr_ok lib" "\<forall>at\<in>set ats. at \<le> length url"
  shows "decides b (separator_tries lib pattern url ea mc ats b)
    (\<exists>at\<in>set ats. (at = length url \<or> is_separator (url ! at)) \<and> wild ea mc pattern (drop at url))"
  using assms(2)
proof (induction ats arbitrary: b)
  case (Cons at ats)
  note IH = Cons.IH [of b for b]
  have rest: "decides b (separator_tries lib pattern url ea mc ats b)
      (\<exists>at\<in>set ats. (at = length url \<or> is_separator (url ! at)) \<and> wild ea mc pattern (drop at url))" for b
    using Cons by simp
  show ?case
  proof (cases "at = length url \<or> is_separator (url ! at)")
    case True
    have "decides b (match_from lib pattern url at ea mc b) (wild ea mc pattern (drop at url))"
      using Cons.prems by (intro decides_match_from assms(1)) simp
    from decides_or [OF this rest] True show ?thesis by simp
  next
    case False
    with rest [of b] show ?thesis by simp
  qed
qed (simp add: decides_known)

lemma literal_tries_ok:
  assumes lib: "memchr_ok lib" and c: "c \<noteq> CHR ''*''" "c \<noteq> CHR ''^''" and p: "pattern = c # ps"
  shows "decides b (literal_tries lib pattern url c ea mc at b)
    (\<exists>k\<le>length url. at \<le> k \<and> wild ea mc pattern (drop k url))"
proof (induction "Suc (length url) - at" arbitrary: at b rule: less_induct)
  case less
  have lit: "k < length url \<and> byte_matches c (url ! k) mc" if "wild ea mc pattern (drop k url)" for k
    using that c by (cases "drop k url") (auto simp: p nth_via_drop drop_eq_Nil linorder_not_le [symmetric])
  show ?case
  proof (cases "find_byte lib url at c mc")
    case None
    have "\<not> (at \<le> k \<and> wild ea mc pattern (drop k url))" for k
      using find_byte_skips [OF lib, of at k url c mc] None lit [of k] by auto
    then show ?thesis
      using None by (subst literal_tries.simps) (auto intro: decides_known)
  next
    case (Some found)
    have f: "at \<le> found" "found < length url" using find_byte_range [OF lib Some] by auto
    have skip: "\<not> wild ea mc pattern (drop k url)" if "at \<le> k" "k < found" for k
      using find_byte_skips [OF lib, of at k url c mc] Some lit [of k] that by auto
    have "(\<exists>k\<le>length url. at \<le> k \<and> wild ea mc pattern (drop k url)) \<longleftrightarrow>
        wild ea mc pattern (drop found url)
        \<or> (\<exists>k\<le>length url. found + 1 \<le> k \<and> wild ea mc pattern (drop k url))"
    proof -
      have "k = found \<or> found + 1 \<le> k" if "at \<le> k" "wild ea mc pattern (drop k url)" for k
        using skip [of k] that by linarith
      moreover have "found \<le> length url" "found + 1 \<le> k \<Longrightarrow> at \<le> k" for k using f by auto
      ultimately show ?thesis using f(1) by blast
    qed
    moreover have "decides b' (literal_tries lib pattern url c ea mc (found + 1) b')
        (\<exists>k\<le>length url. found + 1 \<le> k \<and> wild ea mc pattern (drop k url))" for b'
      using f by (intro less) simp
    ultimately show ?thesis
      using decides_or [OF decides_match_from [OF lib, of found url b pattern ea mc]] f Some
      by (subst literal_tries.simps) simp
  qed
qed

lemma domain_tries_ok:
  assumes lib: "memchr_ok lib" and "at \<le> he" "he \<le> length url"
  shows "decides b (domain_tries lib pattern url he ea mc at b)
    (\<exists>k\<le>length url. (k = at \<or> at < k \<and> k \<le> he \<and> url ! (k - 1) = CHR ''.'') \<and> wild ea mc pattern (drop k url))"
  using assms(2)
proof (induction "he - at" arbitrary: at b rule: less_induct)
  case less
  let ?W = "\<lambda>k. wild ea mc pattern (drop k url)"
  let ?B = "\<lambda>a k. a < k \<and> k \<le> he \<and> url ! (k - 1) = CHR ''.''"
  let ?rest = "take (he - at) (drop at url)"
  have rest: "slice url at he = Some ?rest" using less.prems assms(3) by (simp add: slice_Some)
  have len: "length ?rest = he - at" using less.prems assms(3) by simp
  have nth: "?rest ! i = url ! (at + i)" if "i < he - at" for i using that less.prems assms(3) by simp
  have m: "decides b (match_from lib pattern url at ea mc b) (?W at)"
    using less.prems assms(3) by (intro decides_match_from lib) simp
  show ?case
  proof (cases "position (\<lambda>c. c = CHR ''.'') ?rest")
    case None
    have "\<not> ?B at k" for k
    proof
      assume k: "?B at k"
      then have "?rest ! (k - 1 - at) = CHR ''.''" "k - 1 - at < length ?rest" using nth [of "k - 1 - at"] len by auto
      with None show False unfolding position_None by (metis nth_mem)
    qed
    moreover have "decides b' (Some (False, b')) False" for b' by (simp add: decides_known)
    from decides_or [OF m this] have "decides b (domain_tries lib pattern url he ea mc at b) (?W at \<or> False)"
      using None rest by (subst domain_tries.simps) (simp cong: option.case_cong prod.case_cong if_cong)
    moreover have "at \<le> length url" using less.prems assms(3) by simp
    ultimately show ?thesis by (simp cong: conj_cong)
  next
    case (Some off)
    have off: "off < he - at" "url ! (at + off) = CHR ''.''" "\<And>i. i < off \<Longrightarrow> url ! (at + i) \<noteq> CHR ''.''"
      using Some len nth unfolding position_Some by (auto simp del: length_take length_drop)
    let ?n = "at + off + 1"
    have B: "?B at k \<longleftrightarrow> k = ?n \<or> ?B ?n k" for k
    proof (cases "k \<le> at + off")
      case True
      with off(3) [of "k - 1 - at"] show ?thesis by (cases "at < k") auto
    next
      case False
      with off show ?thesis by (cases "k = ?n") auto
    qed
    have al: "at \<le> length url" using less.prems assms(3) by simp
    have iff: "(\<exists>k\<le>length url. (k = at \<or> ?B at k) \<and> ?W k) \<longleftrightarrow>
        ?W at \<or> (\<exists>k\<le>length url. (k = ?n \<or> ?B ?n k) \<and> ?W k)"
      unfolding B using al by blast
    have "decides b' (domain_tries lib pattern url he ea mc ?n b')
        (\<exists>k\<le>length url. (k = ?n \<or> ?B ?n k) \<and> ?W k)" for b'
      using off by (intro less) auto
    from decides_or [OF m this] Some rest show ?thesis
      unfolding iff by (subst domain_tries.simps) (simp cong: option.case_cong prod.case_cong if_cong)
  qed
qed

lemma anchored_match_ok:
  assumes lib: "memchr_ok lib" and host: "host_span url = (hs, he)"
  shows "decides b (anchored_match lib anchor pattern url hs he ea mc b)
    (pattern_applies anchor ea mc pattern url)"
proof -
  note iff = pattern_applies_iff [OF host] may_start_def
  have d: "ANCHOR_DOMAIN \<noteq> ANCHOR_START" by (simp add: ANCHOR_DOMAIN_def ANCHOR_START_def)
  consider (start) "anchor = ANCHOR_START" | (domain) "anchor = ANCHOR_DOMAIN"
    | (anywhere) "anchor \<noteq> ANCHOR_START" "anchor \<noteq> ANCHOR_DOMAIN" by blast
  then show ?thesis
  proof cases
    case start
    with decides_match_from [OF lib, of 0 url b pattern ea mc] show ?thesis
      by (simp add: iff anchored_match_def cong: conj_cong)
  next
    case domain
    with domain_tries_ok [OF lib, of hs he url b pattern ea mc] host_span_bounds [OF host] d show ?thesis
      by (simp add: iff anchored_match_def)
  next
    case anywhere
    then have any: "pattern_applies anchor ea mc pattern url \<longleftrightarrow>
        (\<exists>at\<le>length url. wild ea mc pattern (drop at url))" by (simp add: iff)
    show ?thesis
    proof (cases pattern)
      case Nil
      then have "wild ea mc pattern (drop (length url) url)" by simp
      with anywhere any Nil show ?thesis by (auto simp: anchored_match_def intro!: decides_known(2))
    next
      case (Cons c ps)
      consider (star) "c = CHR ''*''" | (sep) "c = CHR ''^''" | (lit) "c \<noteq> CHR ''*''" "c \<noteq> CHR ''^''" by blast
      then show ?thesis
      proof cases
        case star
        have "(\<exists>at\<le>length url. wild ea mc pattern (drop at url)) \<longleftrightarrow> wild ea mc pattern (drop 0 url)"
        proof
          assume "\<exists>at\<le>length url. wild ea mc pattern (drop at url)"
          then obtain at k where k: "at \<le> length url" "k \<le> length (drop at url)" "wild ea mc ps (drop k (drop at url))"
            unfolding Cons star wild_star by blast
          then have "k + at \<le> length url" "wild ea mc ps (drop (k + at) url)" by simp_all
          then show "wild ea mc pattern (drop 0 url)" unfolding Cons star wild_star by auto
        qed blast
        with decides_match_from [OF lib, of 0 url b pattern ea mc] anywhere any Cons star show ?thesis
          by (simp add: anchored_match_def)
      next
        case sep
        have "at = length url \<or> is_separator (url ! at)"
          if "at \<le> length url" "wild ea mc pattern (drop at url)" for at
        proof (cases "at = length url")
          case False
          then have "drop at url = url ! at # drop (Suc at) url" using that(1) by (simp add: Cons_nth_drop_Suc)
          with that(2) sep Cons show ?thesis by simp
        qed simp
        moreover have mem: "at \<in> set [0..<length url + 1] \<longleftrightarrow> at \<le> length url" for at by auto
        ultimately have "(\<exists>at\<le>length url. wild ea mc pattern (drop at url)) \<longleftrightarrow>
            (\<exists>at\<in>set [0..<length url + 1]. (at = length url \<or> is_separator (url ! at))
               \<and> wild ea mc pattern (drop at url))"
          unfolding Bex_def mem by blast
        with separator_tries_ok [OF lib, of "[0..<length url + 1]" url b pattern ea mc] anywhere any Cons sep
        show ?thesis by (simp add: anchored_match_def less_Suc_eq_le del: upt_Suc)
      next
        case lit
        from literal_tries_ok [OF lib lit Cons, of b url ea mc 0] anywhere any Cons lit show ?thesis
          by (simp add: anchored_match_def)
      qed
    qed
  qed
qed

text \<open>When a rule of a list applies to a request, whatever was compiled from it. The type of a request
  may be unknown, which no option names: then a type restriction rules a block out and leaves an
  exception in. (The description of \<open>ResourceType::Unknown\<close> in \<open>fah-model/src/http.rs\<close> says that no
  type-restricted rule matches it at all; the matcher, its comments and its tests do this.)\<close>

definition rule_admits :: "url_rule \<Rightarrow> http_request \<Rightarrow> client_context \<Rightarrow> bool" where
  "rule_admits rule request ctx \<longleftrightarrow>
     (case ur_client rule of
        None \<Rightarrow> True
      | Some raw \<Rightarrow> (case client_scope_parse raw of
                       None \<Rightarrow> False | Some scope \<Rightarrow> admits scope (ctx_ip ctx) (ctx_name ctx))) \<and>
     (let bit = bit_for_request (req_resource_type request)
      in ur_resource_types rule = 0 \<or> ur_resource_types rule AND bit \<noteq> 0
         \<or> bit = 0 \<and> ur_action rule = AllowRule) \<and>
     (case ur_party rule of
        PartyAny \<Rightarrow> True | PartyThird \<Rightarrow> is_third_party request | PartyFirst \<Rightarrow> \<not> is_third_party request) \<and>
     (case ur_methods rule of None \<Rightarrow> True | Some raw \<Rightarrow> methods_apply raw (req_method request)) \<and>
     (rule_domains rule = [] \<or> domains_apply (rule_domains rule) (req_document_host request))"

definition rule_applies :: "url_rule \<Rightarrow> http_request \<Rightarrow> client_context \<Rightarrow> bool" where
  "rule_applies rule request ctx \<longleftrightarrow>
     rule_admits rule request ctx \<and>
     pattern_applies (anchor_bits (ur_anchor rule)) (ur_end_anchored rule) (ur_match_case rule)
       (ur_pattern rule) (req_url request)"

text \<open>Reading a packed flag word back gives the rule's fields.\<close>

lemma flags_of_fields:
  assumes "uc_flags r = flags_of rule"
  shows "uc_is_allow r \<longleftrightarrow> ur_action rule = AllowRule"
    and "uc_end_anchored r \<longleftrightarrow> ur_end_anchored rule"
    and "uc_match_case r \<longleftrightarrow> ur_match_case rule"
    and "uc_has_methods r \<longleftrightarrow> ur_methods rule \<noteq> None"
    and "uc_has_client r \<longleftrightarrow> ur_client rule \<noteq> None"
    and "uc_anchor r = anchor_bits (ur_anchor rule)"
    and "uc_party r = party_bits (ur_party rule)"
proof -
  define f where "f a e m h c an p =
     (let flags = 0;
          flags = (if a then flags OR U_FLAG_ALLOW else flags);
          flags = (if e then flags OR FLAG_END_ANCHORED else flags);
          flags = (if m then flags OR FLAG_MATCH_CASE else flags);
          flags = (if h then flags OR FLAG_METHODS else flags);
          flags = (if c then flags OR U_FLAG_CLIENT else flags)
      in flags OR push_bit ANCHOR_SHIFT (anchor_bits an) OR push_bit PARTY_SHIFT (party_bits p))" for a e m h c an p
  have *: "(f a e m h c an p AND U_FLAG_ALLOW \<noteq> 0 \<longleftrightarrow> a) \<and> (f a e m h c an p AND FLAG_END_ANCHORED \<noteq> 0 \<longleftrightarrow> e)
     \<and> (f a e m h c an p AND FLAG_MATCH_CASE \<noteq> 0 \<longleftrightarrow> m) \<and> (f a e m h c an p AND FLAG_METHODS \<noteq> 0 \<longleftrightarrow> h)
     \<and> (f a e m h c an p AND U_FLAG_CLIENT \<noteq> 0 \<longleftrightarrow> c)
     \<and> drop_bit ANCHOR_SHIFT (f a e m h c an p AND ANCHOR_MASK) = anchor_bits an
     \<and> drop_bit PARTY_SHIFT (f a e m h c an p AND PARTY_MASK) = party_bits p" for a e m h c an p
    by (cases a; cases e; cases m; cases h; cases c; cases an; cases p)
       (simp_all add: f_def U_FLAG_ALLOW_def FLAG_END_ANCHORED_def FLAG_MATCH_CASE_def FLAG_METHODS_def
          U_FLAG_CLIENT_def ANCHOR_SHIFT_def PARTY_SHIFT_def ANCHOR_MASK_def PARTY_MASK_def anchor_bits_def
          party_bits_def ANCHOR_DOMAIN_def ANCHOR_START_def ANCHOR_ANYWHERE_def PARTY_ANY_def PARTY_THIRD_def
          PARTY_FIRST_def)
  have "uc_flags r = f (ur_action rule = AllowRule) (ur_end_anchored rule) (ur_match_case rule)
      (ur_methods rule \<noteq> None) (ur_client rule \<noteq> None) (ur_anchor rule) (ur_party rule)"
    unfolding assms flags_of_def f_def ..
  then show "uc_is_allow r \<longleftrightarrow> ur_action rule = AllowRule"
    and "uc_end_anchored r \<longleftrightarrow> ur_end_anchored rule"
    and "uc_match_case r \<longleftrightarrow> ur_match_case rule"
    and "uc_has_methods r \<longleftrightarrow> ur_methods rule \<noteq> None"
    and "uc_has_client r \<longleftrightarrow> ur_client rule \<noteq> None"
    and "uc_anchor r = anchor_bits (ur_anchor rule)"
    and "uc_party r = party_bits (ur_party rule)"
    unfolding uc_is_allow_def uc_end_anchored_def uc_match_case_def uc_has_methods_def uc_has_client_def
      uc_anchor_def uc_party_def by (simp_all only: *)
qed

text \<open>The record, arenas and side maps behind one compiled rule.\<close>

lemma compiled_rule:
  assumes inv: "ub_inv self A" and io: "index_of self full idx" and i: "unat index < length A"
    and rule: "fst (A ! unat index) = sem_of_rule rule"
    and r: "index_at (ui_records idx) (unat index) = Some r"
  shows "uc_flags r = flags_of rule"
    and "uc_types r = ur_resource_types rule"
    and "ui_pattern_of idx index = Some (ur_pattern rule)"
    and "ui_domains_of idx index = Some (rule_domains rule)"
    and "uc_dom_len r = 0 \<longleftrightarrow> rule_domains rule = []"
    and "ui_methods idx index = ur_methods rule"
    and "(case ur_client rule of None \<Rightarrow> None | Some raw \<Rightarrow> client_scope_parse raw) = ui_clients idx index"
    and "ur_client rule \<noteq> None \<Longrightarrow> ui_clients idx index \<noteq> None"
proof -
  have "record_sem self (unat index) = Some (sem_of_rule rule)" using inv i rule by (simp add: ub_inv_def)
  moreover have at: "index_at (ub_records self) (unat index) = Some r" using io r by (simp add: index_of_def)
  ultimately have f: "ub_pattern_of self r = Some (ur_pattern rule)" "ub_domains_of self r = Some (rule_domains rule)"
      "uc_flags r = flags_of rule" "uc_types r = ur_resource_types rule"
      "ub_methods self index = ur_methods rule" "map_option cs_raw (ub_clients self index) = ur_client rule"
    by (auto simp: record_sem_def sem_of_rule_def split: Option.bind_splits)
  have "arena_slice (ub_domains self) (uc_dom_off r) (uc_dom_len r) = Some (rule_domains rule)"
    using f(2) by (simp add: ub_domains_of_def)
  then have "length (rule_domains rule) = unat (uc_dom_len r)"
    by (auto simp: arena_slice_def slice_def split: if_splits dest!: sym [of _ "rule_domains rule"])
  then have len: "uc_dom_len r = 0 \<longleftrightarrow> rule_domains rule = []"
    by (metis length_0_conv unat_eq_zero)
  have parse: "client_scope_parse (cs_raw scope) = Some scope" if "ub_clients self index = Some scope" for scope
    using inv that by (simp add: ub_inv_def)
  have cl: "(case ur_client rule of None \<Rightarrow> None | Some raw \<Rightarrow> client_scope_parse raw) = ub_clients self index"
    using f(6) [symmetric] parse by (cases "ub_clients self index") simp_all
  note io = io [unfolded index_of_def]
  show "uc_flags r = flags_of rule" "uc_types r = ur_resource_types rule" "uc_dom_len r = 0 \<longleftrightarrow> rule_domains rule = []"
    using f len by simp_all
  show "ui_pattern_of idx index = Some (ur_pattern rule)" "ui_domains_of idx index = Some (rule_domains rule)"
    using f(1,2) io at by (simp_all add: ui_pattern_of_def ui_domains_of_def ub_pattern_of_def ub_domains_of_def)
  show "ui_methods idx index = ur_methods rule" using f(5) io by simp
  show "(case ur_client rule of None \<Rightarrow> None | Some raw \<Rightarrow> client_scope_parse raw) = ui_clients idx index"
    using cl io by simp
  show "ur_client rule \<noteq> None \<Longrightarrow> ui_clients idx index \<noteq> None" using f(6) io by auto
qed

lemma compiled_mask:
  assumes inv: "ub_inv self A" and io: "index_of self full idx" and i: "i < length A" and full: "full AND p \<noteq> 0"
  shows "(if ui_policy_mask idx = [] then Some True
          else map_option (\<lambda>m. m AND p \<noteq> 0) (index_at (ui_policy_mask idx) i)) = Some (snd (A ! i) AND p \<noteq> 0)"
proof (cases "list_all (\<lambda>m. m = full) (ub_policy_mask self)")
  case True
  then have "snd (A ! i) = full" using inv i by (auto simp: ub_inv_def list_all_iff)
  with True full io show ?thesis by (simp add: index_of_def)
next
  case False
  with io have "ui_policy_mask idx = ub_policy_mask self" by (simp add: index_of_def)
  with inv i show ?thesis by (auto simp: ub_inv_def index_at_def)
qed

definition visible_in :: "(url_sem \<times> u16) list \<Rightarrow> client_context \<Rightarrow> u32 \<Rightarrow> bool" where
  "visible_in A ctx index \<longleftrightarrow> snd (A ! unat index) AND policy_bit (ctx_policy ctx) \<noteq> 0"

lemma admissible_ok:
  assumes "ub_inv self A" "index_of self full idx" "unat index < length A"
    "fst (A ! unat index) = sem_of_rule rule" "full AND policy_bit (ctx_policy ctx) \<noteq> 0"
    "index_at (ui_records idx) (unat index) = Some r"
  shows "admissible idx index r ((probe_new request ctx)\<lparr> pb_budget := b \<rparr>)
    = Some (visible_in A ctx index \<and> rule_admits rule request ctx)"
proof -
  note f = compiled_rule [OF assms(1-4,6)]
  note flags = flags_of_fields [OF f(1)]
  let ?pr = "(probe_new request ctx)\<lparr> pb_budget := b \<rparr>"
  have pr: "pb_ctx ?pr = ctx" "pb_type_bit ?pr = bit_for_request (req_resource_type request)"
    "pb_third_party ?pr = is_third_party request" "pb_request ?pr = request"
    by (simp_all add: probe_new_def Let_def split: prod.split)
  have client: "(if uc_has_client r then map_option (\<lambda>scope. admits scope (ctx_ip ctx) (ctx_name ctx)) (ui_clients idx index)
        else Some True)
      = Some (case ur_client rule of None \<Rightarrow> True | Some raw \<Rightarrow> (case client_scope_parse raw of
                None \<Rightarrow> False | Some scope \<Rightarrow> admits scope (ctx_ip ctx) (ctx_name ctx)))"
    using f(7,8) flags(5) by (auto split: option.splits)
  have party: "uc_party r = PARTY_THIRD \<longleftrightarrow> ur_party rule = PartyThird" "uc_party r = PARTY_FIRST \<longleftrightarrow> ur_party rule = PartyFirst"
    unfolding flags(7) by (cases "ur_party rule"; simp add: party_bits_def PARTY_ANY_def PARTY_THIRD_def PARTY_FIRST_def)+
  define bit where "bit = bit_for_request (req_resource_type request)"
  define T where "T \<longleftrightarrow> ur_resource_types rule = 0 \<or> ur_resource_types rule AND bit \<noteq> 0
      \<or> bit = 0 \<and> ur_action rule = AllowRule"
  have types: "(ur_resource_types rule \<noteq> 0 \<and> ur_resource_types rule AND bit = 0
      \<and> (bit \<noteq> 0 \<or> \<not> ur_action rule = AllowRule)) \<longleftrightarrow> \<not> T" by (auto simp: T_def)
  have methods: "(ur_methods rule \<noteq> None
      \<and> \<not> methods_apply (case ur_methods rule of None \<Rightarrow> [] | Some raw \<Rightarrow> raw) (req_method request)) \<longleftrightarrow>
      \<not> (case ur_methods rule of None \<Rightarrow> True | Some raw \<Rightarrow> methods_apply raw (req_method request))"
    by (cases "ur_methods rule") simp_all
  have domains: "(if uc_dom_len r \<noteq> 0 then Some (domains_apply (rule_domains rule) h) else Some True)
      = Some (rule_domains rule = [] \<or> domains_apply (rule_domains rule) h)" for h
    using f(5) by simp
  show ?thesis
    unfolding admissible_def pr client compiled_mask [OF assms(1-3,5)]
    unfolding f(2,4,6) party flags(1-6) bit_def [symmetric] types methods option.map(2) domains
      visible_in_def rule_admits_def Let_def T_def [symmetric]
    by (cases "ur_party rule") (simp_all split: bool.split)
qed

lemma check_ok:
  assumes lib: "memchr_ok lib" and "ub_inv self A" "index_of self full idx" "unat index < length A"
    "fst (A ! unat index) = sem_of_rule rule" "full AND policy_bit (ctx_policy ctx) \<noteq> 0"
  shows "\<exists>r b'. check lib idx index ((probe_new request ctx)\<lparr> pb_budget := b \<rparr>)
      = Some (r, (probe_new request ctx)\<lparr> pb_budget := b' \<rparr>)
    \<and> (bu_exhausted b \<longrightarrow> bu_exhausted b')
    \<and> (\<forall>a. r = Some a \<longrightarrow> visible_in A ctx index \<and> rule_applies rule request ctx \<and> a = (ur_action rule = AllowRule))
    \<and> (visible_in A ctx index \<longrightarrow> rule_applies rule request ctx \<longrightarrow> r = None \<longrightarrow> bu_exhausted b')"
proof -
  let ?pr = "(probe_new request ctx)\<lparr> pb_budget := b \<rparr>"
  define r where "r = ui_records idx ! unat index"
  have r1: "index_at (ui_records idx) (unat index) = Some r"
    using assms(2-4) by (simp add: r_def ub_inv_def index_of_def index_at_def)
  note r = r1 compiled_rule(1,3) [OF assms(2-5) r1]
  note flags = flags_of_fields [OF r(2)]
  note adm = admissible_ok [OF assms(2-6) r1, where request = request and b = b]
  obtain hs he where h: "host_span (req_url request) = (hs, he)" by (cases "host_span (req_url request)")
  have pr: "pb_url ?pr = req_url request" "pb_host_start ?pr = hs" "pb_host_end ?pr = he" "pb_budget ?pr = b"
    using h by (simp_all add: probe_new_def Let_def)
  let ?ok = "visible_in A ctx index \<and> rule_admits rule request ctx"
  show ?thesis
  proof (cases ?ok)
    case False
    then have "admissible idx index r ?pr = Some False" unfolding adm by blast
    then have "check lib idx index ?pr = Some (None, ?pr)" using r(1) by (simp add: check_def)
    with False show ?thesis by (auto simp: rule_applies_def)
  next
    case True
    then have adm1: "admissible idx index r ?pr = Some True" unfolding adm by blast
    let ?b = "budget_open b (length (req_url request))"
    have ex: "bu_exhausted ?b = bu_exhausted b" by (simp add: budget_open_def)
    from anchored_match_ok [OF lib h, of ?b "anchor_bits (ur_anchor rule)" "ur_pattern rule" "ur_end_anchored rule" "ur_match_case rule"]
    obtain v b' where m: "anchored_match lib (anchor_bits (ur_anchor rule)) (ur_pattern rule) (req_url request) hs he
          (ur_end_anchored rule) (ur_match_case rule) ?b = Some (v, b')"
      "v \<Longrightarrow> rule_applies rule request ctx" "rule_applies rule request ctx \<Longrightarrow> \<not> v \<Longrightarrow> bu_exhausted b'"
      "bu_exhausted b \<Longrightarrow> bu_exhausted b'"
      using True unfolding decides_def ex rule_applies_def by blast
    have "check lib idx index ?pr
        = Some (if v then Some (ur_action rule = AllowRule) else None, (probe_new request ctx)\<lparr> pb_budget := b' \<rparr>)"
      using r adm1 m(1) by (simp add: check_def pr flags)
    with m True show ?thesis by (cases v) auto
  qed
qed
end
