(* ===== verification/Url_Walk.thy ===== *)
theory Url_Walk
  imports Url_Lookup
begin

text \<open>
  The whole URL tier against the lists it was compiled from: the scan list, the token probes and
  the n-gram sweep together check every rule that applies, so a lookup decides what scanning the
  original rules would decide, unless it reports that its work allowance ran out.
\<close>

section \<open>Walking the index\<close>

text \<open>What the walk relies on: one rule is decided as \<open>hit\<close> says (\<open>hit True\<close> for an exception that
  applies, \<open>hit False\<close> for a block), unless the allowance runs out.\<close>

definition session :: "memchr_lib \<Rightarrow> url_index \<Rightarrow> nat \<Rightarrow> url_probe \<Rightarrow> (bool \<Rightarrow> u32 \<Rightarrow> bool) \<Rightarrow> bool" where
  "session lib idx n pr hit \<longleftrightarrow>
     (\<forall>index b. unat index < n \<longrightarrow>
        (\<exists>r b'. check lib idx index (pr\<lparr> pb_budget := b \<rparr>) = Some (r, pr\<lparr> pb_budget := b' \<rparr>)
           \<and> (bu_exhausted b \<longrightarrow> bu_exhausted b') \<and> (\<forall>a. r = Some a \<longrightarrow> hit a index)
           \<and> (\<forall>a. hit a index \<longrightarrow> r = Some a \<or> bu_exhausted b')))"

text \<open>Rules \<open>X\<close> have been checked and no exception was found among them.\<close>

definition lk_inv :: "url_probe \<Rightarrow> (bool \<Rightarrow> u32 \<Rightarrow> bool) \<Rightarrow> u32 set \<Rightarrow> lookup_state \<Rightarrow> bool" where
  "lk_inv pr hit X st \<longleftrightarrow>
     (\<exists>b. lk_probe st = pr\<lparr> pb_budget := b \<rparr>) \<and>
     (\<forall>i. lk_found st = Some i \<longrightarrow> hit True i) \<and> (\<forall>i. lk_blocked st = Some i \<longrightarrow> hit False i) \<and>
     (lk_found st = None \<longrightarrow> bu_exhausted (pb_budget (lk_probe st))
        \<or> (\<forall>i\<in>X. \<not> hit True i \<and> (hit False i \<longrightarrow> lk_blocked st \<noteq> None)))"

lemma lk_inv_mono: "lk_inv pr hit X st \<Longrightarrow> Y \<subseteq> X \<Longrightarrow> lk_inv pr hit Y st"
  by (auto simp: lk_inv_def)

lemma lk_inv_found: "lk_inv pr hit X st \<Longrightarrow> lk_found st \<noteq> None \<Longrightarrow> lk_inv pr hit Y st"
  by (auto simp: lk_inv_def)

lemma check_rules_ok:
  assumes s: "session lib idx n pr hit"
  shows "\<forall>i\<in>set is. unat i < n \<Longrightarrow> lk_inv pr hit X st \<Longrightarrow> lk_found st = None \<Longrightarrow>
    \<exists>st'. check_rules lib idx is st = Some st' \<and> lk_inv pr hit (X \<union> set is) st'"
proof (induction "is" arbitrary: st X)
  case (Cons i rest)
  obtain b where b: "lk_probe st = pr\<lparr> pb_budget := b \<rparr>" using Cons.prems by (auto simp: lk_inv_def)
  have "unat i < n" using Cons.prems by simp
  with s obtain r b' where c: "check lib idx i (lk_probe st) = Some (r, pr\<lparr> pb_budget := b' \<rparr>)"
    "bu_exhausted b \<Longrightarrow> bu_exhausted b'" "\<And>a. r = Some a \<Longrightarrow> hit a i" "\<And>a. hit a i \<Longrightarrow> r = Some a \<or> bu_exhausted b'"
    unfolding session_def b by meson
  let ?st = "st\<lparr> lk_probe := pr\<lparr> pb_budget := b' \<rparr> \<rparr>"
  let ?bl = "?st\<lparr> lk_blocked := (case lk_blocked st of Some i \<Rightarrow> Some i | None \<Rightarrow> Some i) \<rparr>"
  note inv = Cons.prems(2) [unfolded lk_inv_def]
  consider (allow) "r = Some True" | (block) "r = Some False" | (none) "r = None" by (cases r) auto
  then show ?case
  proof cases
    case allow
    then have "lk_inv pr hit (X \<union> set (i # rest)) (?st\<lparr> lk_found := Some i \<rparr>)"
      using inv c by (auto simp: lk_inv_def)
    with c(1) allow show ?thesis by simp
  next
    case block
    have "lk_inv pr hit (X \<union> {i}) ?bl"
      using inv c block Cons.prems(3) b by (auto simp: lk_inv_def split: option.splits)
    from Cons.IH [OF _ this] Cons.prems block c(1) show ?thesis by (simp add: Un_assoc insert_commute cong: option.case_cong)
  next
    case none
    have "lk_inv pr hit (X \<union> {i}) ?st"
      using inv c none Cons.prems(3) b by (auto simp: lk_inv_def)
    from Cons.IH [OF _ this] Cons.prems none c(1) show ?thesis by (simp add: Un_assoc)
  qed
qed simp

lemma fold_exit_find:
  "(\<And>e. e \<in> set es \<Longrightarrow> step e () = Some (if P e then Inl (g e) else Inr ())) \<Longrightarrow>
   fold_exit step es () = Some (case filter P es of [] \<Rightarrow> Inr () | e # _ \<Rightarrow> Inl (g e))"
  by (induction es) auto

lemma bucket_of_ok:
  assumes shape: "index_shape idx n"
  shows "\<exists>r. bucket_of idx h = Some r
    \<and> (case r of None \<Rightarrow> h \<notin> set (ui_bucket_hash idx)
       | Some b \<Rightarrow> b < length (ui_bucket_hash idx) \<and> ui_bucket_hash idx ! b = h)"
proof (cases "ui_bucket_hash idx = []")
  case False
  let ?H = "ui_bucket_hash idx" and ?T = "ui_slots idx"
  let ?xs = "map of_nat [0..<length ?H] :: u32 list" and ?P = "\<lambda>e :: u32. ?H ! unat e = h"
  let ?home = "fastrange h (ui_slot_cap idx)"
  have tab: "table_inv EMPTY (\<lambda>cap e. fastrange (?H ! unat e) cap) ?T ?xs" and cap: "length ?T = ui_slot_cap idx"
    and room: "length ?H < length ?T" and small: "length ?H < 2 ^ 32 - 1"
    using shape by (auto simp: index_shape_def)
  have home: "?home < length ?T" using fastrange_less [of "ui_slot_cap idx" h] cap room by simp
  have blank: "EMPTY \<in> set ?T" using probing.has_blank [OF tab] room by simp
  have un: "unat (of_nat i :: u32) = i" if "i < length ?H" for i using that small by (intro unat_of_nat_small) simp
  have run: "unat e < length ?H" if "e \<in> set (run EMPTY ?T ?home)" for e
    using probing.run_subset [OF tab] that un by fastforce
  have sel: "filter ?P (run EMPTY ?T ?home) = filter ?P ?xs"
    using probing.run_select [OF tab home, of ?P] cap by auto
  have walk: "fold_exit (\<lambda>e _. case index_at ?H (unat e) of None \<Rightarrow> None
        | Some h' \<Rightarrow> if h' = h then Some (Inl (unat e)) else Some (Inr ())) (run EMPTY ?T ?home) ()
      = Some (case filter ?P ?xs of [] \<Rightarrow> Inr () | e # _ \<Rightarrow> Inl (unat e))"
    unfolding sel [symmetric] by (rule fold_exit_find) (use run in auto)
  have probe: "bucket_of idx h = Some (case filter ?P ?xs of [] \<Rightarrow> None | e # _ \<Rightarrow> Some (unat e))"
    unfolding bucket_of_def probe_total [OF home blank] walk using False by (auto split: list.splits)
  show ?thesis
  proof (cases "filter ?P ?xs")
    case Nil
    then have "h \<notin> set ?H" using un by (auto simp: filter_empty_conv in_set_conv_nth)
    with probe Nil show ?thesis by simp
  next
    case (Cons e es)
    then have "e \<in> set (filter ?P ?xs)" by simp
    then have "unat e < length ?H" "?H ! unat e = h" using un by auto
    with probe Cons show ?thesis by simp
  qed
qed (simp add: bucket_of_def)

text \<open>The rules filed under a key hash.\<close>

definition filed_under :: "url_index \<Rightarrow> u64 \<Rightarrow> u32 set" where
  "filed_under idx h =
     {r. \<exists>b<length (ui_bucket_hash idx). \<exists>rs. ui_bucket_hash idx ! b = h
           \<and> bucket_rules_of idx b = Some rs \<and> r \<in> set rs}"

lemma check_bucket_ok:
  assumes s: "session lib idx n pr hit" and shape: "index_shape idx n"
    and b: "b < length (ui_bucket_hash idx)" and inv: "lk_inv pr hit X st" "lk_found st = None"
  shows "\<exists>st'. check_bucket lib idx b st = Some st'
    \<and> lk_inv pr hit (X \<union> filed_under idx (ui_bucket_hash idx ! b)) st'"
proof -
  obtain rs where rs: "bucket_rules_of idx b = Some rs" "\<forall>r\<in>set rs. unat r < n"
    using shape b by (auto simp: index_shape_def)
  have "filed_under idx (ui_bucket_hash idx ! b) = set rs"
    using shape b rs(1) nth_eq_iff_index_eq [of "ui_bucket_hash idx"]
    by (auto simp: filed_under_def index_shape_def)
  with check_rules_ok [OF s rs(2) inv] rs(1) show ?thesis by (simp add: check_bucket_def)
qed

text \<open>Probing by hash covers what is filed under it.\<close>

lemma filed_under_none: "h \<notin> set (ui_bucket_hash idx) \<Longrightarrow> filed_under idx h = {}"
  by (auto simp: filed_under_def)

lemma probe_keys_ok:
  assumes s: "session lib idx n pr hit" and shape: "index_shape idx n"
  shows "lk_inv pr hit X st \<Longrightarrow> lk_found st = None \<Longrightarrow>
    \<exists>go st'. probe_keys lib idx keys st = Some (go, st') \<and> (go \<longleftrightarrow> lk_found st' = None)
      \<and> lk_inv pr hit (X \<union> (\<Union>(kind, key)\<in>set keys. filed_under idx (hash_key kind key))) st'"
proof (induction keys arbitrary: st X)
  case (Cons k keys)
  obtain kind key where k: "k = (kind, key)" by (cases k)
  let ?h = "hash_key kind key"
  let ?rest = "\<Union>(kind, key)\<in>set keys. filed_under idx (hash_key kind key)"
  have set: "X \<union> (\<Union>(kind, key)\<in>set (k # keys). filed_under idx (hash_key kind key))
      = X \<union> filed_under idx ?h \<union> ?rest" by (auto simp: k)
  obtain r where r: "bucket_of idx ?h = Some r" "case r of None \<Rightarrow> ?h \<notin> set (ui_bucket_hash idx)
       | Some b \<Rightarrow> b < length (ui_bucket_hash idx) \<and> ui_bucket_hash idx ! b = ?h"
    using bucket_of_ok [OF shape] by blast
  show ?case
  proof (cases r)
    case None
    with r Cons filed_under_none [of ?h idx] show ?thesis unfolding set by (simp add: k)
  next
    case (Some b)
    with r(2) have b: "b < length (ui_bucket_hash idx)" "ui_bucket_hash idx ! b = ?h" by simp_all
    from check_bucket_ok [OF s shape b(1) Cons.prems] obtain st1 where st1: "check_bucket lib idx b st = Some st1"
      "lk_inv pr hit (X \<union> filed_under idx ?h) st1" unfolding b(2) by blast
    show ?thesis
    proof (cases "lk_found st1 = None")
      case True
      from Cons.IH [OF st1(2) True] r(1) Some st1(1) True show ?thesis unfolding set by (simp add: k)
    next
      case False
      from lk_inv_found [OF st1(2) False] r(1) Some st1(1) False show ?thesis unfolding set by (auto simp: k)
    qed
  qed
qed auto

text \<open>The rules the token probes of a URL reach.\<close>

definition token_rules :: "url_index \<Rightarrow> string \<Rightarrow> (nat \<times> nat) list \<Rightarrow> u32 set" where
  "token_rules idx url spans =
     (\<Union>(a, b)\<in>set spans. if b - a < MIN_TOKEN_LEN then {}
        else \<Union>(kind, key)\<in>set (url_keys (take (b - a) (drop a url))). filed_under idx (hash_key kind key))"

lemma visit_token_ok:
  assumes "session lib idx n pr hit" "index_shape idx n" "a \<le> b" "b \<le> length url"
    "lk_inv pr hit X st" "lk_found st = None"
  shows "\<exists>go st'. visit_token lib idx url a b st = Some (go, st') \<and> (go \<longleftrightarrow> lk_found st' = None)
      \<and> lk_inv pr hit (X \<union> token_rules idx url [(a, b)]) st'"
proof (cases "b - a < MIN_TOKEN_LEN")
  case True
  with assms show ?thesis by (auto simp: visit_token_def slice_Some token_rules_def)
next
  case False
  with probe_keys_ok [OF assms(1,2,5,6), of "url_keys (take (b - a) (drop a url))"] assms(3,4)
  show ?thesis by (simp add: visit_token_def slice_Some token_rules_def)
qed

lemma visit_spans_ok:
  assumes s: "session lib idx n pr hit" and shape: "index_shape idx n"
  shows "\<forall>(a, b)\<in>set spans. a \<le> b \<and> b \<le> length url \<Longrightarrow> lk_inv pr hit X st \<Longrightarrow> lk_found st = None \<Longrightarrow>
    \<exists>st'. visit_spans (visit_token lib idx url) spans st = Some st'
      \<and> lk_inv pr hit (X \<union> token_rules idx url spans) st'"
proof (induction spans arbitrary: st X)
  case (Cons sp spans)
  obtain a b where ab: "sp = (a, b)" by (cases sp)
  have set: "X \<union> token_rules idx url (sp # spans) = X \<union> token_rules idx url [(a, b)] \<union> token_rules idx url spans"
    by (simp add: ab token_rules_def Un_assoc)
  obtain go st1 where v: "visit_token lib idx url a b st = Some (go, st1)" "go \<longleftrightarrow> lk_found st1 = None"
    "lk_inv pr hit (X \<union> token_rules idx url [(a, b)]) st1"
    using visit_token_ok [OF s shape _ _ Cons.prems(2,3), of a b url] Cons.prems(1) ab by auto
  show ?case
  proof (cases go)
    case True
    with v Cons.IH [OF _ v(3)] Cons.prems(1) show ?thesis unfolding set by (simp add: ab)
  next
    case False
    with v lk_inv_found [OF v(3)] show ?thesis unfolding set by (auto simp: ab)
  qed
qed (simp add: token_rules_def)

section \<open>The n-gram sweep\<close>

fun sweep_words :: "u32 \<Rightarrow> string \<Rightarrow> u32 list" where
  "sweep_words word [] = []"
| "sweep_words word (b # bytes) =
     (let word = ngram_push word b AND NGRAM_WORD_MASK in word # sweep_words word bytes)"

definition gram_rules :: "url_index \<Rightarrow> u32 list \<Rightarrow> u32 set" where
  "gram_rules idx words =
     (\<Union>w\<in>set words. if bloom_test (ui_ngram_bits idx) w = Some True then filed_under idx (ngram_hash w) else {})"

text \<open>A bucket marked as visited has been checked.\<close>

definition visited_ok :: "url_index \<Rightarrow> u32 set \<Rightarrow> u64 list \<Rightarrow> bool" where
  "visited_ok idx X visited \<longleftrightarrow>
     length visited = NGRAM_SEEN_WORDS \<and>
     (\<forall>b<length (ui_bucket_hash idx). ui_ngram_bucket_start idx \<le> b \<longrightarrow>
        b - ui_ngram_bucket_start idx < 1024 \<longrightarrow>
        bit (visited ! ((b - ui_ngram_bucket_start idx) div 64)) ((b - ui_ngram_bucket_start idx) mod 64) \<longrightarrow>
        filed_under idx (ui_bucket_hash idx ! b) \<subseteq> X)"

lemma visited_ok_mono: "visited_ok idx X visited \<Longrightarrow> X \<subseteq> Y \<Longrightarrow> visited_ok idx Y visited"
  unfolding visited_ok_def by (meson order.trans)

lemma visit_once_ok:
  assumes v: "visited_ok idx X visited" and b: "b < length (ui_bucket_hash idx)"
  shows "\<exists>new visited'. visit_once visited b (ui_ngram_bucket_start idx) = Some (new, visited')
    \<and> visited_ok idx (X \<union> filed_under idx (ui_bucket_hash idx ! b)) visited'
    \<and> (\<not> new \<longrightarrow> filed_under idx (ui_bucket_hash idx ! b) \<subseteq> X)"
proof -
  let ?s = "ui_ngram_bucket_start idx" and ?F = "filed_under idx (ui_bucket_hash idx ! b)"
  have keep: "visited_ok idx (X \<union> ?F) visited" using v by (rule visited_ok_mono) simp
  consider (out) "b < ?s \<or> 1024 \<le> b - ?s" | (inside) "?s \<le> b" "b - ?s < 1024" by linarith
  then show ?thesis
  proof cases
    case out
    then have "visit_once visited b ?s = Some (True, visited)"
      by (auto simp: visit_once_def NGRAM_SEEN_WORDS_def Let_def)
    with keep show ?thesis by auto
  next
    case inside
    let ?k = "b - ?s"
    have len: "?k div 64 < length visited" "length visited = NGRAM_SEEN_WORDS"
      using v inside by (auto simp: visited_ok_def NGRAM_SEEN_WORDS_def)
    have step: "visit_once visited b ?s =
        Some (if bit (visited ! (?k div 64)) (?k mod 64) then (False, visited)
              else (True, visited[?k div 64 := visited ! (?k div 64) OR push_bit (?k mod 64) 1]))"
      using inside len(1) by (simp add: visit_once_def Let_def NGRAM_SEEN_WORDS_def and_exp_eq_0_iff_not_bit)
    show ?thesis
    proof (cases "bit (visited ! (?k div 64)) (?k mod 64)")
      case True
      with v b inside have "?F \<subseteq> X" by (simp add: visited_ok_def)
      with True step keep show ?thesis by auto
    next
      case False
      let ?v = "visited[?k div 64 := visited ! (?k div 64) OR push_bit (?k mod 64) 1]"
      have "filed_under idx (ui_bucket_hash idx ! c) \<subseteq> X \<union> ?F"
        if c: "c < length (ui_bucket_hash idx)" "?s \<le> c" "c - ?s < 1024" "bit (?v ! ((c - ?s) div 64)) ((c - ?s) mod 64)" for c
      proof (cases "c = b")
        case False
        have "bit (visited ! ((c - ?s) div 64)) ((c - ?s) mod 64)"
        proof (cases "(c - ?s) div 64 = ?k div 64")
          case True
          have "(c - ?s) mod 64 \<noteq> ?k mod 64"
          proof
            assume "(c - ?s) mod 64 = ?k mod 64"
            with True have "c - ?s = ?k" by (metis div_mult_mod_eq)
            with False c(2) inside(1) show False by simp
          qed
          with c(4) True len(1) show ?thesis
            by (auto simp: bit_or_iff bit_exp_iff)
        qed (use c(4) in simp)
        with v c show ?thesis by (auto simp: visited_ok_def)
      qed simp
      then have "visited_ok idx (X \<union> ?F) ?v" using len(2) by (simp add: visited_ok_def)
      with False step show ?thesis by auto
    qed
  qed
qed

lemma bloom_test_total:
  assumes "index_shape idx n" "ui_ngram_bits idx \<noteq> []"
  obtains t where "bloom_test (ui_ngram_bits idx) w = Some t"
proof -
  have "fst (bloom_at (ui_ngram_bits idx) w) < length (ui_ngram_bits idx)"
    using bloom_at_bounds(1) assms by (simp add: index_shape_def)
  then show ?thesis using that by (auto simp: bloom_test_def case_prod_unfold)
qed

lemma ngram_sweep_ok:
  assumes s: "session lib idx n pr hit" and shape: "index_shape idx n" and bits: "ui_ngram_bits idx \<noteq> []"
  shows "lk_inv pr hit X st \<Longrightarrow> lk_found st = None \<Longrightarrow> visited_ok idx X visited \<Longrightarrow>
    \<exists>st'. ngram_sweep lib idx word visited bytes st = Some st'
      \<and> lk_inv pr hit (X \<union> gram_rules idx (sweep_words word bytes)) st'"
proof (induction bytes arbitrary: st X word visited)
  case (Cons c bytes)
  let ?w = "ngram_push word c AND NGRAM_WORD_MASK"
  let ?rest = "gram_rules idx (sweep_words ?w bytes)"
  have set: "X \<union> gram_rules idx (sweep_words word (c # bytes)) =
      X \<union> (if bloom_test (ui_ngram_bits idx) ?w = Some True then filed_under idx (ngram_hash ?w) else {}) \<union> ?rest"
    by (simp add: gram_rules_def Let_def Un_assoc)
  obtain t where t: "bloom_test (ui_ngram_bits idx) ?w = Some t" using bloom_test_total [OF shape bits] by blast
  obtain r where r: "bucket_of idx (ngram_hash ?w) = Some r" "case r of None \<Rightarrow> ngram_hash ?w \<notin> set (ui_bucket_hash idx)
       | Some b \<Rightarrow> b < length (ui_bucket_hash idx) \<and> ui_bucket_hash idx ! b = ngram_hash ?w"
    using bucket_of_ok [OF shape] by blast
  show ?case
  proof (cases "t \<and> r \<noteq> None")
    case False
    then have none: "t \<Longrightarrow> filed_under idx (ngram_hash ?w) = {}" using r filed_under_none by auto
    have "ngram_sweep lib idx word visited (c # bytes) st = ngram_sweep lib idx ?w visited bytes st"
      using False t r(1) by (cases t) (auto simp: ngram_may_hold_def Let_def)
    with Cons.IH [OF Cons.prems, of ?w] t none show ?thesis unfolding set by (cases t) simp_all
  next
    case True
    then obtain b where b: "r = Some b" "b < length (ui_bucket_hash idx)" "ui_bucket_hash idx ! b = ngram_hash ?w"
      using r(2) by auto
    let ?F = "filed_under idx (ngram_hash ?w)"
    from visit_once_ok [OF Cons.prems(3) b(2)] obtain new visited'
      where v: "visit_once visited b (ui_ngram_bucket_start idx) = Some (new, visited')"
        "visited_ok idx (X \<union> ?F) visited'" "\<not> new \<Longrightarrow> ?F \<subseteq> X" unfolding b(3) by blast
    show ?thesis
    proof (cases new)
      case False
      with v(3) have X: "X \<union> ?F = X" by blast
      from Cons.IH [OF Cons.prems(1,2) v(2) [unfolded X], of ?w] False t True r(1) b(1) v(1) X show ?thesis
        unfolding set by (simp add: ngram_may_hold_def Let_def)
    next
      case new: True
      from check_bucket_ok [OF s shape b(2) Cons.prems(1,2)] obtain st1 where st1: "check_bucket lib idx b st = Some st1"
        "lk_inv pr hit (X \<union> ?F) st1" unfolding b(3) by blast
      show ?thesis
      proof (cases "lk_found st1 = None")
        case found: True
        from Cons.IH [OF st1(2) found v(2), of ?w] new t True r(1) b(1) v(1) st1(1) found show ?thesis
          unfolding set by (simp add: ngram_may_hold_def Let_def)
      next
        case False
        from lk_inv_found [OF st1(2) False] new t True r(1) b(1) v(1) st1(1) False show ?thesis
          unfolding set by (auto simp: ngram_may_hold_def Let_def)
      qed
    qed
  qed
qed (simp add: gram_rules_def)

text \<open>The rolled word is the window's.\<close>

lemma byte32_bits: "bit (byte32 c) n \<Longrightarrow> n < 8"
proof -
  have "take_bit 8 (byte c) = byte c" using byte_less [of c] byte_nonneg [of c] by (intro take_bit_int_eq_self) auto
  then show "bit (byte32 c) n \<Longrightarrow> n < 8" unfolding byte32_def bit_word_of_int_iff by (metis bit_take_bit_iff)
qed

lemma ngram_word_simps:
  "ngram_word [a, b] = push_bit 8 (byte32 (to_ascii_lowercase a)) OR byte32 (to_ascii_lowercase b)"
  "ngram_word [a, b, c] = push_bit 8 (ngram_word [a, b]) OR byte32 (to_ascii_lowercase c)"
  by (simp_all add: ngram_word_def ngram_push_def)

lemma mask_take: "w AND NGRAM_WORD_MASK = take_bit 24 w"
proof -
  have "NGRAM_WORD_MASK = mask 24" by (simp add: NGRAM_WORD_MASK_def MIN_TOKEN_LEN_def mask_eq_exp_minus_1 drop_bit_eq_div)
  then show ?thesis by (simp add: take_bit_eq_mask)
qed

lemma ngram_roll:
  assumes "take_bit 16 word = ngram_word [a, b]"
  shows "ngram_push word c AND NGRAM_WORD_MASK = ngram_word [a, b, c]"
    and "take_bit 16 (ngram_word [a, b, c]) = ngram_word [b, c]"
proof -
  let ?C = "byte32 (to_ascii_lowercase c)"
  have "take_bit 24 (push_bit 8 word OR ?C) = push_bit 8 (take_bit 16 word) OR ?C"
    by (rule bit_eqI) (auto simp: bit_simps dest: byte32_bits)
  then show "ngram_push word c AND NGRAM_WORD_MASK = ngram_word [a, b, c]"
    unfolding mask_take ngram_push_def ngram_word_simps(2) assms .
  show "take_bit 16 (ngram_word [a, b, c]) = ngram_word [b, c]"
    unfolding ngram_word_simps by (rule bit_eqI) (auto simp: bit_simps dest: byte32_bits)
qed

lemma sweep_words_windows:
  "take_bit 16 word = ngram_word [a, b] \<Longrightarrow> i < length bytes \<Longrightarrow>
   ngram_word (take 3 (drop i (a # b # bytes))) \<in> set (sweep_words word bytes)"
proof (induction bytes arbitrary: word a b i)
  case (Cons c bytes)
  note roll = ngram_roll [OF Cons.prems(1), of c]
  show ?case
  proof (cases i)
    case 0
    then show ?thesis by (simp add: roll(1) Let_def numeral_3_eq_3)
  next
    case (Suc j)
    with Cons.IH [OF roll(2), of j] Cons.prems(2) show ?thesis by (simp add: roll(1) Let_def)
  qed
qed simp

lemma sweep_covers:
  assumes "i + MIN_TOKEN_LEN \<le> length url"
  shows "ngram_word (take MIN_TOKEN_LEN (drop i url))
    \<in> set (sweep_words (foldl ngram_push 0 (take (MIN_TOKEN_LEN - 1) url)) (drop (MIN_TOKEN_LEN - 1) url))"
proof -
  obtain a u where u: "url = a # u" using assms by (cases url) (auto simp: MIN_TOKEN_LEN_def)
  obtain b bytes where url: "url = a # b # bytes" using assms u by (cases u) (auto simp: MIN_TOKEN_LEN_def)
  have "take_bit 16 (ngram_word [a, b]) = ngram_word [a, b]"
    unfolding ngram_word_simps by (rule bit_eqI) (auto simp: bit_simps dest: byte32_bits)
  from sweep_words_windows [OF this, of i bytes] assms show ?thesis
    by (simp add: MIN_TOKEN_LEN_def url ngram_word_def)
qed

section \<open>No rule that applies is missed\<close>

definition hit_in :: "(url_sem \<times> u16) list \<Rightarrow> http_request \<Rightarrow> client_context \<Rightarrow> bool \<Rightarrow> u32 \<Rightarrow> bool" where
  "hit_in A request ctx a i \<longleftrightarrow>
     unat i < length A \<and> visible_in A ctx i \<and>
     (\<exists>rule. fst (A ! unat i) = sem_of_rule rule \<and> rule_applies rule request ctx
        \<and> a = (ur_action rule = AllowRule))"

lemma may_start_edge:
  assumes "host_span url = (hs, he)" "may_start anchor url hs he at" "anchor = ANCHOR_START \<or> anchor = ANCHOR_DOMAIN"
  shows "left_edge url at"
proof -
  have "\<not> is_token_byte CHR ''.''" by code_simp
  with assms host_span_bounds(3) [OF assms(1)] show ?thesis
    by (auto simp: may_start_def left_edge_def split: if_splits)
qed

lemma sem_keys_rule:
  "sem_keys (sem_of_rule rule) = index_keys (ur_pattern rule) (anchor_bits (ur_anchor rule)) (ur_end_anchored rule)"
proof -
  have "uc_flags (sem_record (sem_of_rule rule)) = flags_of rule" by (simp add: sem_record_def sem_of_rule_def)
  from flags_of_fields(2,6) [OF this] show ?thesis
    by (simp add: sem_keys_def record_keys_def sem_pattern_def sem_of_rule_def)
qed

text \<open>Where the walk looks.\<close>

definition walked :: "url_index \<Rightarrow> string \<Rightarrow> u32 set" where
  "walked idx url = set (ui_unindexed idx) \<union> token_rules idx url (token_spans 0 url) \<union>
     (if ui_ngram_bits idx \<noteq> [] \<and> MIN_TOKEN_LEN \<le> length url
      then gram_rules idx (sweep_words (foldl ngram_push 0 (take (MIN_TOKEN_LEN - 1) url))
                             (drop (MIN_TOKEN_LEN - 1) url))
      else {})"

lemma applies_walked:
  assumes applies: "rule_applies rule request ctx" and reach: "reaches idx (sem_of_rule rule) r"
  shows "r \<in> walked idx (req_url request)"
proof -
  let ?u = "req_url request" and ?p = "ur_pattern rule" and ?a = "anchor_bits (ur_anchor rule)"
    and ?e = "ur_end_anchored rule"
  obtain hs he where h: "host_span ?u = (hs, he)" by (cases "host_span ?u")
  obtain at where at: "wild ?e (ur_match_case rule) ?p (drop at ?u)" "at \<le> length ?u" "may_start ?a ?u hs he at"
    using applies unfolding rule_applies_def pattern_applies_iff [OF h] by blast
  have edge: "left_edge ?u at" if "?a \<noteq> ANCHOR_ANYWHERE"
    using may_start_edge [OF h at(3)] that by (cases "ur_anchor rule") (auto simp: anchor_bits_def)
  from reach [unfolded reaches_def] show ?thesis
  proof (elim disjE exE conjE)
    assume "r \<in> set (ui_unindexed idx)"
    then show ?thesis by (simp add: walked_def)
  next
    fix b rs
    assume b: "b < length (ui_bucket_hash idx)" "bucket_rules_of idx b = Some rs" "r \<in> set rs"
      "ui_bucket_hash idx ! b \<in> key_hashes (sem_of_rule rule)"
    then obtain kind key m where k: "(kind, key, m) \<in> set (index_keys ?p ?a ?e)" "ui_bucket_hash idx ! b = hash_key kind key"
      by (auto simp: key_hashes_def sem_keys_rule)
    then obtain s e where "(s, e) \<in> set (token_spans 0 ?p)" "token_key ?p ?a ?e (s, e) = Some (kind, key, m)"
      by (auto simp: index_keys_def List.map_filter_def)
    from token_key_offered [OF at(1,2) edge this] obtain x y key' where o: "(x, y) \<in> set (token_spans 0 ?u)"
      "MIN_TOKEN_LEN \<le> y - x" "(kind, key') \<in> set (url_keys (take (y - x) (drop x ?u)))" "lower key' = lower key"
      by (auto simp: offers_def)
    have "hash_key kind key' = hash_key kind key" using o(4) by (metis hash_key_lower)
    then have "r \<in> filed_under idx (hash_key kind key')" using b k(2) by (auto simp: filed_under_def)
    then have "r \<in> token_rules idx ?u (token_spans 0 ?u)"
      unfolding token_rules_def using o by (intro UN_I [OF o(1)]) auto
    then show ?thesis by (simp add: walked_def)
  next
    fix b rs
    assume b: "b < length (ui_bucket_hash idx)" "bucket_rules_of idx b = Some rs" "r \<in> set rs"
      and "\<exists>w\<in>gram_words (sem_of_rule rule). ui_bucket_hash idx ! b = ngram_hash w \<and> ui_ngram_bits idx \<noteq> []
        \<and> bloom_test (ui_ngram_bits idx) w = Some True"
    then obtain w where w: "w \<in> gram_words (sem_of_rule rule)" "ui_bucket_hash idx ! b = ngram_hash w"
      "ui_ngram_bits idx \<noteq> []" "bloom_test (ui_ngram_bits idx) w = Some True" by blast
    obtain m where m: "(w, m) \<in> set (ngram_keys ?p)"
      using w(1) by (auto simp: gram_words_def sem_pattern_def sem_of_rule_def)
    from ngram_key_offered [OF at(1,2) m] obtain i where
      i: "i + MIN_TOKEN_LEN \<le> length ?u" "ngram_word (take MIN_TOKEN_LEN (drop i ?u)) = w" by blast
    have "r \<in> filed_under idx (ngram_hash w)" using b w(2) by (auto simp: filed_under_def)
    with sweep_covers [OF i(1)] i w(3,4) show ?thesis
      unfolding walked_def gram_rules_def by auto
  qed
qed

lemma compiled_session:
  assumes "memchr_ok lib" "ub_inv self A" "index_of self full idx" "full AND policy_bit (ctx_policy ctx) \<noteq> 0"
  shows "session lib idx (length A) (probe_new request ctx) (hit_in A request ctx)"
  unfolding session_def
proof (intro allI impI)
  fix index :: u32 and b
  assume i: "unat index < length A"
  from assms(2) have "\<forall>i<length A. \<exists>rule. url_accepted rule \<and> fst (A ! i) = sem_of_rule rule"
    unfolding ub_inv_def by (elim conjE)
  with i obtain rule0 where rule0: "fst (A ! unat index) = sem_of_rule rule0" by blast
  let ?pr = "\<lambda>b. (probe_new request ctx)\<lparr> pb_budget := b \<rparr>"
  note chk = check_ok [OF assms(1-3) i _ assms(4), where request = request and b = b]
  from chk [OF rule0] obtain r b' where c: "check lib idx index (?pr b) = Some (r, ?pr b')"
    "bu_exhausted b \<Longrightarrow> bu_exhausted b'"
    "\<And>a. r = Some a \<Longrightarrow> visible_in A ctx index \<and> rule_applies rule0 request ctx \<and> a = (ur_action rule0 = AllowRule)"
    "visible_in A ctx index \<Longrightarrow> rule_applies rule0 request ctx \<Longrightarrow> r = None \<Longrightarrow> bu_exhausted b'"
    by blast
  have hit: "hit_in A request ctx a index" if "r = Some a" for a
    using c(3) [OF that] i rule0 by (auto simp: hit_in_def)
  have miss: "r = Some a \<or> bu_exhausted b'" if h: "hit_in A request ctx a index" for a
  proof -
    from h obtain rule where rule: "fst (A ! unat index) = sem_of_rule rule" "visible_in A ctx index"
      "rule_applies rule request ctx" "a = (ur_action rule = AllowRule)" by (auto simp: hit_in_def)
    from chk [OF rule(1)] obtain r1 b1 where c1: "check lib idx index (?pr b) = Some (r1, ?pr b1)" "bu_exhausted b \<Longrightarrow> bu_exhausted b1"
      "\<And>a. r1 = Some a \<Longrightarrow> visible_in A ctx index \<and> rule_applies rule request ctx \<and> a = (ur_action rule = AllowRule)"
      "visible_in A ctx index \<Longrightarrow> rule_applies rule request ctx \<Longrightarrow> r1 = None \<Longrightarrow> bu_exhausted b1"
      by blast
    have r1: "r1 = r" and "?pr b1 = ?pr b'" using c(1) c1(1) by auto
    from arg_cong [OF this(2), of pb_budget] have "b1 = b'" by simp
    with c1(3,4) rule r1 show ?thesis by (cases r) auto
  qed
  show "\<exists>r b'. check lib idx index (?pr b) = Some (r, ?pr b') \<and> (bu_exhausted b \<longrightarrow> bu_exhausted b')
      \<and> (\<forall>a. r = Some a \<longrightarrow> hit_in A request ctx a index)
      \<and> (\<forall>a. hit_in A request ctx a index \<longrightarrow> r = Some a \<or> bu_exhausted b')"
    using c(1,2) hit miss by blast
qed

text \<open>The walk returns, and decides every rule unless the allowance ran out.\<close>

lemma url_lookup_state_ok:
  assumes s: "session lib idx n (probe_new request ctx) hit" and shape: "index_shape idx n"
    and walked: "\<And>a i. hit a i \<Longrightarrow> i \<in> walked idx (req_url request)"
  shows "\<exists>st. url_lookup_state lib idx request ctx = Some st \<and> lk_inv (probe_new request ctx) hit UNIV st"
proof -
  let ?pr = "probe_new request ctx" and ?u = "req_url request"
  let ?st = "\<lparr> lk_probe = ?pr, lk_found = None, lk_blocked = None \<rparr>"
  let ?U = "set (ui_unindexed idx)" and ?T = "token_rules idx ?u (token_spans 0 ?u)"
  let ?words = "sweep_words (foldl ngram_push 0 (take (MIN_TOKEN_LEN - 1) ?u)) (drop (MIN_TOKEN_LEN - 1) ?u)"
  have "?pr = ?pr\<lparr> pb_budget := pb_budget ?pr \<rparr>" by simp
  then have "\<exists>b. lk_probe ?st = ?pr\<lparr> pb_budget := b \<rparr>" unfolding lookup_state.select_convs by (rule exI)
  then have start: "lk_inv ?pr hit {} ?st" by (simp add: lk_inv_def)
  have un: "\<forall>i\<in>?U. unat i < n" using shape by (simp add: index_shape_def)
  obtain st1 where st1: "check_rules lib idx (ui_unindexed idx) ?st = Some st1" "lk_inv ?pr hit ?U st1"
    using check_rules_ok [OF s un start] by auto
  have spans: "\<forall>(a, b)\<in>set (token_spans 0 ?u). a \<le> b \<and> b \<le> length ?u"
    using token_spans_token_at by (fastforce simp: token_at_def)
  obtain st2 where st2: "(if lk_found st1 = None then for_each_token ?u (visit_token lib idx ?u) st1 else Some st1) = Some st2"
    "lk_inv ?pr hit (?U \<union> ?T) st2"
  proof (cases "lk_found st1 = None")
    case True
    with visit_spans_ok [OF s shape spans st1(2)] that show ?thesis by (auto simp: for_each_token_def)
  next
    case False
    with lk_inv_found [OF st1(2) False] that show ?thesis by auto
  qed
  let ?c = "lk_found st2 = None \<and> ui_ngram_bits idx \<noteq> [] \<and> MIN_TOKEN_LEN \<le> length ?u"
  have fresh: "visited_ok idx (?U \<union> ?T) (replicate NGRAM_SEEN_WORDS 0)"
    by (simp add: visited_ok_def NGRAM_SEEN_WORDS_def less_mult_imp_div_less)
  have final: "lk_inv ?pr hit UNIV st" if "lk_inv ?pr hit (walked idx ?u) st" for st
    using that walked unfolding lk_inv_def by blast
  show ?thesis
  proof (cases ?c)
    case True
    then have c: "ui_ngram_bits idx \<noteq> []" "lk_found st2 = None" by auto
    from ngram_sweep_ok [OF s shape c(1) st2(2) c(2) fresh, of "foldl ngram_push 0 (take (MIN_TOKEN_LEN - 1) ?u)"
        "drop (MIN_TOKEN_LEN - 1) ?u"]
    obtain st3 where st3: "ngram_sweep lib idx (foldl ngram_push 0 (take (MIN_TOKEN_LEN - 1) ?u))
        (replicate NGRAM_SEEN_WORDS 0) (drop (MIN_TOKEN_LEN - 1) ?u) st2 = Some st3"
      "lk_inv ?pr hit (?U \<union> ?T \<union> gram_rules idx ?words) st3" by blast
    with True have "lk_inv ?pr hit (walked idx ?u) st3" by (simp add: walked_def)
    with final st1(1) st2(1) st3(1) True show ?thesis by (auto simp: url_lookup_state_def)
  next
    case False
    then have "lk_inv ?pr hit (walked idx ?u) st2"
      using st2(2) lk_inv_found [OF st2(2)] by (cases "lk_found st2 = None") (auto simp: walked_def)
    with final st1(1) st2(1) False show ?thesis by (auto simp: url_lookup_state_def)
  qed
qed

section \<open>The tier against the lists it was compiled from\<close>

text \<open>Scanning the lists: the rules a request meets under its policy, an exception before a block.\<close>

definition url_applicable :: "http_request \<Rightarrow> client_context \<Rightarrow> u16 \<times> url_rule \<times> u16 \<Rightarrow> bool" where
  "url_applicable request ctx = (\<lambda>(_, rule, m).
     url_accepted rule \<and> m AND ctx_policy_bit ctx \<noteq> 0 \<and> rule_applies rule request ctx)"

definition url_reference :: "(u16 \<times> url_rule \<times> u16) list \<Rightarrow> http_request \<Rightarrow> client_context \<Rightarrow> bool option" where
  "url_reference rules request ctx =
     (let hits = filter (url_applicable request ctx) rules
      in if list_ex (\<lambda>(_, rule, _). ur_action rule = AllowRule) hits then Some True
         else if hits \<noteq> [] then Some False else None)"

definition url_class :: "url_decision \<Rightarrow> bool option" where
  "url_class d = (case d of UAllow _ \<Rightarrow> Some True | UBlock _ \<Rightarrow> Some False | UPass \<Rightarrow> None)"

definition url_entries :: "(u16 \<times> url_rule \<times> u16) list \<Rightarrow> (url_sem \<times> u16) list" where
  "url_entries rules = map (\<lambda>(_, rule, m). (sem_of_rule rule, m)) (filter (\<lambda>(_, rule, _). url_accepted rule) rules)"

lemma sem_of_rule_cong:
  assumes "sem_of_rule r1 = sem_of_rule r2"
  shows "rule_applies r1 request ctx = rule_applies r2 request ctx" "ur_action r1 = AllowRule \<longleftrightarrow> ur_action r2 = AllowRule"
    "ur_pattern r1 = ur_pattern r2"
proof -
  define r where "r = sem_record (sem_of_rule r1)"
  have e: "flags_of r1 = flags_of r2" "ur_resource_types r1 = ur_resource_types r2" "rule_domains r1 = rule_domains r2"
    "ur_methods r1 = ur_methods r2" "ur_client r1 = ur_client r2" "ur_pattern r1 = ur_pattern r2"
    using assms by (simp_all add: sem_of_rule_def)
  have "uc_flags r = flags_of r1" "uc_flags r = flags_of r2"
    using e(1) by (simp_all add: r_def sem_record_def sem_of_rule_def)
  note f = flags_of_fields [OF this(1)] flags_of_fields [OF this(2)]
  have "party_bits (ur_party r1) = party_bits (ur_party r2)" using f by simp
  then have p: "ur_party r1 = ur_party r2"
    by (cases "ur_party r1"; cases "ur_party r2") (simp_all add: party_bits_def PARTY_ANY_def PARTY_THIRD_def PARTY_FIRST_def)
  show "ur_action r1 = AllowRule \<longleftrightarrow> ur_action r2 = AllowRule" using f by simp
  then show "rule_applies r1 request ctx = rule_applies r2 request ctx"
    using e p f by (simp add: rule_applies_def rule_admits_def)
  show "ur_pattern r1 = ur_pattern r2" by (rule e(6))
qed

lemma seen_entries:
  "seen b (\<lambda>s. s = sem) (url_entries rules) \<longleftrightarrow>
     (\<exists>(l, rule, m)\<in>set rules. url_accepted rule \<and> m AND b \<noteq> 0 \<and> sem_of_rule rule = sem)"
  by (auto simp: seen_def url_entries_def)

text \<open>The compiled rules a request meets are those of the lists.\<close>

lemma hit_from_lists:
  assumes A: "A = fold merge_one (url_entries rules) []" and hit: "hit_in A request ctx a i"
  shows "\<exists>x\<in>set rules. url_applicable request ctx x \<and> sem_of_rule (fst (snd x)) = fst (A ! unat i)
    \<and> a = (ur_action (fst (snd x)) = AllowRule)"
proof -
  let ?b = "ctx_policy_bit ctx" and ?P = "\<lambda>s. s = fst (A ! unat i)"
  from hit obtain rule where rule: "unat i < length A" "visible_in A ctx i" "fst (A ! unat i) = sem_of_rule rule"
    "rule_applies rule request ctx" "a = (ur_action rule = AllowRule)" by (auto simp: hit_in_def)
  have "seen ?b ?P A"
    using rule(1,2) unfolding seen_def visible_in_def ctx_policy_bit_def by (auto intro!: bexI [of _ "A ! unat i"])
  then have "seen ?b ?P (url_entries rules)" using seen_fold [of ?b ?P "url_entries rules" "[]"] A by simp
  then obtain l r m where x: "(l, r, m) \<in> set rules" "url_accepted r" "m AND ?b \<noteq> 0" "sem_of_rule r = fst (A ! unat i)"
    unfolding seen_entries by auto
  have "sem_of_rule r = sem_of_rule rule" using x(4) rule(3) by simp
  note c = sem_of_rule_cong [OF this]
  have "url_applicable request ctx (l, r, m)" using x c rule by (simp add: url_applicable_def)
  with x c(2) rule(5) show ?thesis by (intro bexI [OF _ x(1)]) simp
qed

lemma hit_of_list_rule:
  assumes A: "A = fold merge_one (url_entries rules) []" "length A < 2 ^ 32" and x: "(l, rule, m) \<in> set rules"
    "url_applicable request ctx (l, rule, m)"
  shows "\<exists>i. hit_in A request ctx (ur_action rule = AllowRule) i"
proof -
  let ?b = "ctx_policy_bit ctx" and ?P = "\<lambda>s. s = sem_of_rule rule"
  have "seen ?b ?P (url_entries rules)" unfolding seen_entries using x by (auto simp: url_applicable_def)
  then have "seen ?b ?P A" using seen_fold [of ?b ?P "url_entries rules" "[]"] A(1) by simp
  then obtain j where j: "j < length A" "snd (A ! j) AND ?b \<noteq> 0" "fst (A ! j) = sem_of_rule rule"
    by (auto simp: seen_def in_set_conv_nth)
  have "unat (of_nat j :: u32) = j" using j(1) A(2) by (intro unat_of_nat_small) simp
  then have "hit_in A request ctx (ur_action rule = AllowRule) (of_nat j)"
    using j x(2) by (auto simp: hit_in_def visible_in_def ctx_policy_bit_def url_applicable_def)
  then show ?thesis by blast
qed

lemma length_fold_merge: "length (fold merge_one xs A) \<le> length A + length xs"
proof (induction xs arbitrary: A)
  case (Cons x xs)
  obtain k m where x: "x = (k, m)" by (cases x)
  show ?case using Cons [of "merge_one x A"] length_merge_one [of k m A] x by simp
qed simp

lemma keys_fold_merge: "fst ` set (fold merge_one xs A) = fst ` set xs \<union> fst ` set A"
proof (induction xs arbitrary: A)
  case (Cons x xs)
  obtain k m where x: "x = (k, m)" by (cases x)
  have "fst ` set (merge_one x A) = insert k (fst ` set A)"
    using arg_cong [OF merge_one_keys [of k m A], of set] by (auto simp: x split: if_splits)
  with Cons x show ?case by simp
qed simp

text \<open>Compiling the URL rules of the lists, in order.\<close>

definition url_compile :: "(u16 \<times> url_rule \<times> u16) list \<Rightarrow> u16 \<Rightarrow> url_index option" where
  "url_compile rules full =
     Option.bind (try_fold (\<lambda>(list_id, rule, m) self. url_add self list_id rule m) rules url_builder_default)
       (\<lambda>self. url_build self full)"

text \<open>No key hash of one rule is an n-gram hash of another.\<close>

definition keys_apart :: "url_sem list \<Rightarrow> bool" where
  "keys_apart sems =
     list_all (\<lambda>b. let grams = map (\<lambda>(w, _). ngram_hash w) (ngram_keys (sem_pattern b))
                    in list_all (\<lambda>a. list_all (\<lambda>(kind, key, _). \<not> List.member grams (hash_key kind key)) (sem_keys a)) sems)
       sems"

lemma keys_apart_disjoint: "keys_apart sems \<Longrightarrow> keys_disjoint (set sems)"
  by (fastforce simp: keys_apart_def keys_disjoint_def list_all_iff key_hashes_def gram_words_def Let_def)

text \<open>The sizes an index can address, and keys of the two tiers that do not collide.\<close>

definition url_fits :: "(u16 \<times> url_rule \<times> u16) list \<Rightarrow> bool" where
  "url_fits rules \<longleftrightarrow>
     int (length rules) < 2 ^ 32 - 1
   \<and> int (sum_list (map (\<lambda>(_, r, _). length (ur_pattern r)) rules)) < 2 ^ 32
   \<and> int (sum_list (map (\<lambda>(_, r, _). length (rule_domains r)) rules)) < 2 ^ 32
   \<and> keys_apart (map fst (url_entries rules))"

lemma url_compile_ok:
  assumes fits: "url_fits rules"
  obtains self A idx where "A = fold merge_one (url_entries rules) []" "ub_inv self A" "length A < 2 ^ 32 - 1"
    "url_compile rules full = Some idx" "index_of self full idx" "index_shape idx (length A)"
    "\<forall>i<length A. reaches idx (fst (A ! i)) (of_nat i)"
proof -
  define A where "A = fold merge_one (url_entries rules) []"
  have s: "length ([] :: (url_sem \<times> u16) list) + length rules < 2 ^ 32"
    "length (ub_patterns url_builder_default) + sum_list (map (\<lambda>(_, r, _). length (ur_pattern r)) rules) < 2 ^ 32"
    "length (ub_domains url_builder_default) + sum_list (map (\<lambda>(_, r, _). length (rule_domains r)) rules) < 2 ^ 32"
    using fits by (simp_all add: url_fits_def url_builder_default_def)
  obtain self where self: "try_fold (\<lambda>(list_id, rule, m) self. url_add self list_id rule m) rules url_builder_default = Some self"
    "ub_inv self A" using url_add_all_merge [OF ub_inv_default s] by (auto simp: A_def url_entries_def)
  have "length (url_entries rules) \<le> length rules" by (simp add: url_entries_def)
  then have "length A \<le> length rules"
    using length_fold_merge [of "url_entries rules" "[]"] by (simp add: A_def)
  then have len: "length A < 2 ^ 32 - 1" using fits by (simp add: url_fits_def)
  have "keys_disjoint (fst ` set A)"
    using fits keys_fold_merge [of "url_entries rules" "[]"] keys_apart_disjoint [of "map fst (url_entries rules)"]
    by (simp add: A_def url_fits_def)
  from url_build_ok [OF self(2) len this, of full] obtain idx where "url_build self full = Some idx"
    "index_of self full idx" "index_shape idx (length A)" "\<forall>i<length A. reaches idx (fst (A ! i)) (of_nat i)" by blast
  with that [OF A_def self(2) len] self(1) show ?thesis by (simp add: url_compile_def)
qed

lemma url_lookup_correct:
  assumes lib: "memchr_ok lib" and fits: "url_fits rules" and full: "full AND ctx_policy_bit ctx \<noteq> 0"
  shows "\<exists>idx d idx'. url_compile rules full = Some idx \<and> url_lookup lib idx request ctx = Some (d, idx')
    \<and> (\<forall>i. d = UAllow i \<longrightarrow> (\<exists>(l, rule, m)\<in>set rules. url_applicable request ctx (l, rule, m)
          \<and> ur_action rule = AllowRule \<and> ui_pattern_of idx i = Some (ur_pattern rule)))
    \<and> (\<forall>i. d = UBlock i \<longrightarrow> (\<exists>(l, rule, m)\<in>set rules. url_applicable request ctx (l, rule, m)
          \<and> ur_action rule \<noteq> AllowRule \<and> ui_pattern_of idx i = Some (ur_pattern rule)))
    \<and> (ui_budget_exhausted idx' = 0 \<longrightarrow> url_class d = url_reference rules request ctx)"
proof -
  from fits obtain self A idx where c: "A = fold merge_one (url_entries rules) []" "ub_inv self A" "length A < 2 ^ 32 - 1"
    "url_compile rules full = Some idx" "index_of self full idx" "index_shape idx (length A)"
    and reach: "\<forall>i<length A. reaches idx (fst (A ! i)) (of_nat i)" by (rule url_compile_ok)
  let ?pr = "probe_new request ctx" and ?hit = "hit_in A request ctx"
  have full': "full AND policy_bit (ctx_policy ctx) \<noteq> 0" using full by (simp add: ctx_policy_bit_def)
  have s: "session lib idx (length A) ?pr ?hit" by (rule compiled_session [OF lib c(2,5) full'])
  have walked: "i \<in> walked idx (req_url request)" if "?hit a i" for a i
  proof -
    from that obtain rule where rule: "unat i < length A" "fst (A ! unat i) = sem_of_rule rule"
      "rule_applies rule request ctx" by (auto simp: hit_in_def)
    with reach have "reaches idx (sem_of_rule rule) (of_nat (unat i))" by metis
    then show ?thesis using applies_walked [OF rule(3)] by simp
  qed
  obtain st where st: "url_lookup_state lib idx request ctx = Some st" "lk_inv ?pr ?hit UNIV st"
    using url_lookup_state_ok [OF s c(6)] walked by blast
  let ?ex = "bu_exhausted (pb_budget (lk_probe st))"
  define d where "d = (case lk_found st of Some index \<Rightarrow> UAllow index
    | None \<Rightarrow> (case lk_blocked st of Some index \<Rightarrow> UBlock index | None \<Rightarrow> UPass))"
  define idx' where "idx' = (if ?ex then idx\<lparr> ui_budget_exhausted := ui_budget_exhausted idx + 1 \<rparr> else idx)"
  have look: "url_lookup lib idx request ctx = Some (d, idx')"
    using st(1) by (simp add: url_lookup_def d_def idx'_def Let_def)
  have zero: "ui_budget_exhausted idx' = 0 \<longleftrightarrow> \<not> ?ex" using c(5) by (simp add: idx'_def index_of_def)
  have sound: "\<exists>(l, rule, m)\<in>set rules. url_applicable request ctx (l, rule, m)
      \<and> (ur_action rule = AllowRule \<longleftrightarrow> a) \<and> ui_pattern_of idx i = Some (ur_pattern rule)" if h: "?hit a i" for a i
  proof -
    obtain x where x: "x \<in> set rules" "url_applicable request ctx x" "sem_of_rule (fst (snd x)) = fst (A ! unat i)"
      "a = (ur_action (fst (snd x)) = AllowRule)" using hit_from_lists [OF c(1) h] by blast
    have i: "unat i < length A" using h by (simp add: hit_in_def)
    have "index_at (ui_records idx) (unat i) = Some (ui_records idx ! unat i)"
      using i c(2,5) by (simp add: ub_inv_def index_of_def)
    from compiled_rule(3) [OF c(2,5) i x(3) [symmetric] this] x show ?thesis
      by (cases x) (auto intro!: bexI [OF _ x(1)])
  qed
  have found: "?hit True i" if "d = UAllow i" for i
    using that st(2) by (auto simp: d_def lk_inv_def split: option.splits)
  have blocked: "?hit False i" if "d = UBlock i" for i
    using that st(2) by (auto simp: d_def lk_inv_def split: option.splits)
  have len: "length A < 2 ^ 32" using c(3) by simp
  have listed: "\<exists>i. ?hit (ur_action rule = AllowRule) i" if "(l, rule, m) \<in> set rules" "url_applicable request ctx (l, rule, m)" for l rule m
    by (rule hit_of_list_rule [OF c(1) len that])
  have "url_class d = url_reference rules request ctx" if ne: "\<not> ?ex"
  proof (rule sym, cases d)
    case (UAllow i)
    from sound [OF found [OF UAllow]] obtain l rule m where "(l, rule, m) \<in> set rules"
      "url_applicable request ctx (l, rule, m)" "ur_action rule = AllowRule" by auto
    then show "url_reference rules request ctx = url_class d"
      by (auto simp: url_reference_def UAllow url_class_def list_ex_iff Let_def)
  next
    case (UBlock i)
    then have none: "lk_found st = None" by (auto simp: d_def split: option.splits)
    with st(2) ne have "\<not> ?hit True i" for i by (simp add: lk_inv_def)
    then have "ur_action rule \<noteq> AllowRule" if "(l, rule, m) \<in> set rules" "url_applicable request ctx (l, rule, m)" for l rule m
      using listed [OF that] by auto
    moreover obtain l rule m where "(l, rule, m) \<in> set rules" "url_applicable request ctx (l, rule, m)"
      using sound [OF blocked [OF UBlock]] by auto
    then have "filter (url_applicable request ctx) rules \<noteq> []" by (auto simp: filter_empty_conv)
    ultimately show "url_reference rules request ctx = url_class d"
      by (auto simp: url_reference_def UBlock url_class_def list_ex_iff Let_def)
  next
    case UPass
    then have none: "lk_found st = None" "lk_blocked st = None" by (auto simp: d_def split: option.splits)
    with st(2) ne have "\<not> ?hit a i" for a i by (cases a) (simp_all add: lk_inv_def)
    then have "\<not> url_applicable request ctx x" if "x \<in> set rules" for x
      using listed that by (cases x) blast
    then have "filter (url_applicable request ctx) rules = []" by (simp add: filter_empty_conv)
    then show "url_reference rules request ctx = url_class d"
      by (simp add: url_reference_def UPass url_class_def)
  qed
  with zero look c(4) sound [OF found] sound [OF blocked] show ?thesis by fastforce
qed

text \<open>C8: The compiled URL tier decides what its lists say. For every list of rules that fits the index,
  compiling and looking a request up never panics; an exception or block it reports is a rule of
  the lists that applies to the request and is visible under its policy, identified by its pattern;
  and unless the lookup counted its work allowance as exhausted, the decision is the one reached by
  scanning all rules: an exception that applies wins, otherwise a block that applies, otherwise
  none. A request whose type is unknown is in no type: a block restricted to types does not apply
  to it, while an exception does whatever types it names, so that not knowing never blocks more.
\<close>

theorem url_tier_decides:
  assumes "memchr_ok lib" "url_fits rules" "full AND ctx_policy_bit ctx \<noteq> 0"
  shows "\<exists>idx d idx'. url_compile rules full = Some idx \<and> url_lookup lib idx request ctx = Some (d, idx')
    \<and> (\<forall>i. d = UAllow i \<longrightarrow> (\<exists>(l, rule, m)\<in>set rules. url_applicable request ctx (l, rule, m)
          \<and> ur_action rule = AllowRule \<and> ui_pattern_of idx i = Some (ur_pattern rule)))
    \<and> (\<forall>i. d = UBlock i \<longrightarrow> (\<exists>(l, rule, m)\<in>set rules. url_applicable request ctx (l, rule, m)
          \<and> ur_action rule \<noteq> AllowRule \<and> ui_pattern_of idx i = Some (ur_pattern rule)))
    \<and> (ui_budget_exhausted idx' = 0 \<longrightarrow> url_class d = url_reference rules request ctx)"
  by (rule url_lookup_correct [OF assms])

definition sample_url_rule :: "string \<Rightarrow> rule_action \<Rightarrow> url_rule" where
  "sample_url_rule pattern action =
     \<lparr> ur_pattern = pattern, ur_action = action, ur_anchor = AnchorAnywhere, ur_end_anchored = False,
       ur_match_case = False, ur_party = PartyAny, ur_resource_types = 0, ur_domains = None,
       ur_methods = None, ur_client = None \<rparr>"

definition sample_url_rules :: "(u16 \<times> url_rule \<times> u16) list" where
  "sample_url_rules =
     [(0, sample_url_rule ''/ads/banner'' BlockRule, 1), (1, sample_url_rule ''fp/es'' AllowRule, 1)]"

definition sample_request :: "string \<Rightarrow> http_request" where
  "sample_request url = \<lparr> req_url = url, req_host = ''a.example'', req_method = ''GET'',
     req_resource_type = Script, req_document_host = None \<rparr>"

theorem url_tier_decides_witness:
  "\<exists>idx d idx'. url_compile sample_url_rules 1 = Some idx
     \<and> url_lookup memchr_scalar idx (sample_request ''http://a.example/Ads/banner.js'') default_context = Some (d, idx')
     \<and> (ui_budget_exhausted idx', url_class d) \<in> {(0, Some False)} \<union> {1..} \<times> UNIV"
proof -
  have fits: "url_fits sample_url_rules" by code_simp
  have bit: "1 AND ctx_policy_bit default_context \<noteq> 0" by code_simp
  have ref: "url_reference sample_url_rules (sample_request ''http://a.example/Ads/banner.js'') default_context = Some False"
    by code_simp
  have one: "n \<noteq> 0 \<Longrightarrow> 1 \<le> n" for n :: u64
    using unat_gt_0 [of n] by (simp add: word_le_nat_alt Suc_leI)
  from url_tier_decides [OF memchr_scalar_ok fits bit, of "sample_request ''http://a.example/Ads/banner.js''"] ref one
  show ?thesis by fastforce
qed
end
