(* ===== verification/Matcher_Builder.thy ===== *)
theory Matcher_Builder
  imports Url_Walk
begin

text \<open>
  Compiling the domain tier (\<open>MatcherBuilder\<close> of \<open>fah-rules/src/matcher.rs\<close>): rules are appended to
  an arena and a record table, options live in side maps, and exact duplicates are found through a
  transient open-addressing index of record numbers that is rehashed as it grows. The builder is
  shown to refine the deduplication contract of \<open>Merge\<close>.

  A \<open>HashMap\<close> is a map, or an association list where the code iterates over it. Indexing, \<open>expect\<close>
  and \<open>assert!\<close> may panic, so the operations return an \<open>option\<close>.
\<close>

section \<open>Records and masks\<close>

definition FLAG_ALLOW :: u8 where "FLAG_ALLOW = push_bit 0 1"
definition FLAG_SUBDOMAINS :: u8 where "FLAG_SUBDOMAINS = push_bit 1 1"
definition FLAG_DNSTYPE :: u8 where "FLAG_DNSTYPE = push_bit 2 1"
definition FLAG_REWRITE :: u8 where "FLAG_REWRITE = push_bit 3 1"
definition FLAG_CLIENT :: u8 where "FLAG_CLIENT = push_bit 4 1"

record dom_record =
  dm_dom_off :: u32
  dm_dom_len :: u8
  dm_flags :: u8
  dm_list_id :: u16

definition dm_is_allow :: "dom_record \<Rightarrow> bool" where
  "dm_is_allow self \<longleftrightarrow> dm_flags self AND FLAG_ALLOW \<noteq> 0"
definition dm_include_subdomains :: "dom_record \<Rightarrow> bool" where
  "dm_include_subdomains self \<longleftrightarrow> dm_flags self AND FLAG_SUBDOMAINS \<noteq> 0"
definition dm_has_dnstype :: "dom_record \<Rightarrow> bool" where
  "dm_has_dnstype self \<longleftrightarrow> dm_flags self AND FLAG_DNSTYPE \<noteq> 0"
definition dm_has_rewrite :: "dom_record \<Rightarrow> bool" where
  "dm_has_rewrite self \<longleftrightarrow> dm_flags self AND FLAG_REWRITE \<noteq> 0"
definition dm_has_client :: "dom_record \<Rightarrow> bool" where
  "dm_has_client self \<longleftrightarrow> dm_flags self AND FLAG_CLIENT \<noteq> 0"

datatype query_type =
    QA | QAaaa | QHttps | QSvcb | QCname | QMx | QTxt | QNs | QPtr | QSrv | QSoa | QCaa | QDs
  | QDnskey | QNaptr | QOther u16

definition RRTYPES :: "string list" where
  "RRTYPES =
     [''A'', ''AAAA'', ''HTTPS'', ''SVCB'', ''CNAME'', ''MX'', ''TXT'', ''NS'', ''PTR'', ''SRV'', ''SOA'',
      ''CAA'', ''DS'', ''DNSKEY'', ''NAPTR'']"

definition rrtype_bit :: "string \<Rightarrow> u32" where
  "rrtype_bit name =
     (case position (eq_ignore_ascii_case name) RRTYPES of None \<Rightarrow> 0 | Some i \<Rightarrow> push_bit i 1)"

definition KNOWN_TYPES_MASK :: u32 where
  "KNOWN_TYPES_MASK = push_bit 15 1 - 1"

fun qtype_bit :: "query_type \<Rightarrow> u32" where
  "qtype_bit QA = push_bit 0 1"
| "qtype_bit QAaaa = push_bit 1 1"
| "qtype_bit QHttps = push_bit 2 1"
| "qtype_bit QSvcb = push_bit 3 1"
| "qtype_bit QCname = push_bit 4 1"
| "qtype_bit QMx = push_bit 5 1"
| "qtype_bit QTxt = push_bit 6 1"
| "qtype_bit QNs = push_bit 7 1"
| "qtype_bit QPtr = push_bit 8 1"
| "qtype_bit QSrv = push_bit 9 1"
| "qtype_bit QSoa = push_bit 10 1"
| "qtype_bit QCaa = push_bit 11 1"
| "qtype_bit QDs = push_bit 12 1"
| "qtype_bit QDnskey = push_bit 13 1"
| "qtype_bit QNaptr = push_bit 14 1"
| "qtype_bit (QOther _) = 0"

definition parse_dnstype_mask :: "string \<Rightarrow> u32" where
  "parse_dnstype_mask raw =
     (let (positive, negated) =
            fold (\<lambda>token (positive, negated).
                    case strip_prefix ''~'' token of
                      Some name \<Rightarrow> (positive, negated OR rrtype_bit (trim name))
                    | None \<Rightarrow> if token \<noteq> [] then (positive OR rrtype_bit token, negated)
                              else (positive, negated))
              (map trim (split_on (\<lambda>c. c = CHR ''|'' \<or> c = CHR '','') raw)) (0, 0)
      in if positive = 0 \<and> negated \<noteq> 0 then KNOWN_TYPES_MASK AND NOT negated
         else positive AND NOT negated)"

section \<open>The builder\<close>

record matcher_builder =
  mb_arena :: string
  mb_records :: "dom_record list"
  mb_lists :: "string list"
  mb_dnstype :: "u32 \<Rightarrow> (u32 \<times> string) option"
  mb_rewrite :: "u32 \<Rightarrow> string option"
  mb_clients :: "(u32 \<times> client_scope) list"
  mb_list_policy :: "u16 list"
  mb_policy_universe :: u16
  mb_record_policy :: "u16 list"
  mb_dedup :: "u32 list"
  mb_duplicates_removed :: nat
  mb_url :: url_builder

definition matcher_builder_default :: matcher_builder where
  "matcher_builder_default =
     \<lparr> mb_arena = [], mb_records = [], mb_lists = [], mb_dnstype = Map.empty, mb_rewrite = Map.empty,
       mb_clients = [], mb_list_policy = [], mb_policy_universe = ALL_POLICIES, mb_record_policy = [],
       mb_dedup = [], mb_duplicates_removed = 0, mb_url = url_builder_default \<rparr>"

definition with_capacity :: "nat \<Rightarrow> matcher_builder" where
  "with_capacity expected_rules =
     matcher_builder_default
       \<lparr> mb_dedup := replicate (dedup_slots (nat (min (int expected_rules) MAX_PREALLOC_RULES))) EMPTY \<rparr>"

definition add_list_masked :: "matcher_builder \<Rightarrow> string \<Rightarrow> u16 \<Rightarrow> (u16 \<times> matcher_builder) option" where
  "add_list_masked self name policy_mask =
     (if int (length (mb_lists self)) < 2 ^ 16
      then Some (of_nat (length (mb_lists self)),
                 self\<lparr> mb_lists := mb_lists self @ [name], mb_list_policy := mb_list_policy self @ [policy_mask] \<rparr>)
      else None)"

definition add_list :: "matcher_builder \<Rightarrow> string \<Rightarrow> (u16 \<times> matcher_builder) option" where
  "add_list self name = add_list_masked self name ALL_POLICIES"

definition set_policy_universe :: "matcher_builder \<Rightarrow> u16 \<Rightarrow> matcher_builder" where
  "set_policy_universe self bits = self\<lparr> mb_policy_universe := bits \<rparr>"

definition add_url_rule :: "matcher_builder \<Rightarrow> u16 \<Rightarrow> url_rule \<Rightarrow> matcher_builder option" where
  "add_url_rule self list_id rule = do {
     policy_mask \<leftarrow> index_at (mb_list_policy self) (unat list_id);
     url \<leftarrow> url_add (mb_url self) list_id rule policy_mask;
     Some (self\<lparr> mb_url := url \<rparr>)
   }"

definition dom_slice :: "string \<Rightarrow> dom_record \<Rightarrow> string option" where
  "dom_slice arena record =
     slice arena (unat (dm_dom_off record)) (unat (dm_dom_off record) + unat (dm_dom_len record))"

definition identity_matches ::
  "matcher_builder \<Rightarrow> u32 \<Rightarrow> domain_rule \<Rightarrow> string \<Rightarrow> u8 \<Rightarrow> client_scope option \<Rightarrow> bool option" where
  "identity_matches self idx rule domain flags scope = do {
     record \<leftarrow> index_at (mb_records self) (unat idx);
     if dm_flags record \<noteq> flags then Some False
     else do {
       stored \<leftarrow> dom_slice (mb_arena self) record;
       if \<not> eq_ignore_ascii_case stored domain then Some False
       else do {
         types \<leftarrow> (if dm_has_dnstype record
                   then map_option (\<lambda>(_, raw). raw = (case dr_dns_types rule of Some t \<Rightarrow> t | None \<Rightarrow> []))
                          (mb_dnstype self idx)
                   else Some True);
         if \<not> types then Some False
         else do {
           rewrite \<leftarrow> (if dm_has_rewrite record
                       then map_option (\<lambda>raw. raw = (case dr_dns_rewrite rule of Some t \<Rightarrow> t | None \<Rightarrow> []))
                              (mb_rewrite self idx)
                       else Some True);
           if \<not> rewrite then Some False
           else if dm_has_client record
             then map_option (\<lambda>c. cs_raw c = (case scope of Some s \<Rightarrow> cs_raw s | None \<Rightarrow> []))
                    (map_of (mb_clients self) idx)
             else Some True
         }
       }
     }
   }"

definition rehash :: "matcher_builder \<Rightarrow> nat \<times> dom_record \<Rightarrow> u32 list \<Rightarrow> u32 list option" where
  "rehash self = (\<lambda>(i, record) grown. do {
     domain \<leftarrow> dom_slice (mb_arena self) record;
     let idx = of_nat i;
     insert_probe EMPTY grown
       (fastrange (identity_hash domain (dm_flags record) (map_option snd (mb_dnstype self idx))
          (mb_rewrite self idx) (map_option cs_raw (map_of (mb_clients self) idx))) (length grown)) idx
   })"

definition reserve_dedup :: "matcher_builder \<Rightarrow> matcher_builder option" where
  "reserve_dedup self =
     (let needed = length (mb_records self) + 1
      in if needed * 2 \<le> length (mb_dedup self) then Some self
         else map_option (\<lambda>grown. self\<lparr> mb_dedup := grown \<rparr>)
                (try_fold (rehash self) (enumerate 0 (mb_records self))
                   (replicate (dedup_slots (needed * 2)) EMPTY)))"

datatype dedup_slot = Vacant nat | Duplicate u32

definition dedup_slot_for ::
  "matcher_builder \<Rightarrow> domain_rule \<Rightarrow> string \<Rightarrow> u8 \<Rightarrow> client_scope option \<Rightarrow> (dedup_slot \<times> matcher_builder) option" where
  "dedup_slot_for self rule domain flags scope = do {
     self \<leftarrow> reserve_dedup self;
     let cap = length (mb_dedup self);
     r \<leftarrow> probe cap EMPTY (mb_dedup self)
            (\<lambda>e _. map_option (\<lambda>same. if same then Inl e else Inr ())
                     (identity_matches self e rule domain flags scope))
            (fastrange (identity_hash domain flags (dr_dns_types rule) (dr_dns_rewrite rule)
               (map_option cs_raw scope)) cap) ();
     Some (case r of Inl e \<Rightarrow> Duplicate e | Inr (slot, _) \<Rightarrow> Vacant slot, self)
   }"

definition option_flags :: "domain_rule \<Rightarrow> u8" where
  "option_flags rule =
     (let flags = 0;
          flags = (if dr_action rule = AllowRule then flags OR FLAG_ALLOW else flags);
          flags = (if dr_include_subdomains rule then flags OR FLAG_SUBDOMAINS else flags);
          flags = (if dr_dns_types rule \<noteq> None then flags OR FLAG_DNSTYPE else flags)
      in if dr_dns_rewrite rule \<noteq> None then flags OR FLAG_REWRITE else flags)"

definition push_record ::
  "matcher_builder \<Rightarrow> u16 \<Rightarrow> domain_rule \<Rightarrow> u8 \<Rightarrow> client_scope option \<Rightarrow> u16 \<Rightarrow> nat \<Rightarrow> matcher_builder option" where
  "push_record self list_id rule flags scope policy_mask slot = do {
     dom_off \<leftarrow> expect_u32 (length (mb_arena self));
     if MAX_RECORDS \<le> int (length (mb_records self)) then None
     else let rec_idx = of_nat (length (mb_records self))
       in if length (mb_dedup self) \<le> slot then None
          else Some (self\<lparr>
            mb_dnstype := (case dr_dns_types rule of
                             Some raw \<Rightarrow> (mb_dnstype self)(rec_idx \<mapsto> (parse_dnstype_mask raw, raw))
                           | None \<Rightarrow> mb_dnstype self),
            mb_rewrite := (case dr_dns_rewrite rule of
                             Some raw \<Rightarrow> (mb_rewrite self)(rec_idx \<mapsto> raw) | None \<Rightarrow> mb_rewrite self),
            mb_clients := (case scope of
                             Some s \<Rightarrow> (rec_idx, s) # filter (\<lambda>(k, _). k \<noteq> rec_idx) (mb_clients self)
                           | None \<Rightarrow> mb_clients self),
            mb_arena := mb_arena self @ dr_domain rule,
            mb_records := mb_records self @ [\<lparr> dm_dom_off = dom_off, dm_dom_len = of_nat (length (dr_domain rule)),
                                               dm_flags = flags, dm_list_id = list_id \<rparr>],
            mb_record_policy := mb_record_policy self @ [policy_mask],
            mb_dedup := (mb_dedup self)[slot := rec_idx] \<rparr>)
   }"

definition add_rule :: "matcher_builder \<Rightarrow> u16 \<Rightarrow> domain_rule \<Rightarrow> matcher_builder option" where
  "add_rule self list_id rule =
     (let domain = dr_domain rule
      in if 255 < int (length domain) \<or> domain = [] then Some self
         else case compile_scope (dr_client rule) of
           None \<Rightarrow> Some self
         | Some scope \<Rightarrow>
             let flags = (if scope \<noteq> None then option_flags rule OR FLAG_CLIENT else option_flags rule)
             in do {
               policy_mask \<leftarrow> index_at (mb_list_policy self) (unat list_id);
               (slot, self) \<leftarrow> dedup_slot_for self rule domain flags scope;
               case slot of
                 Vacant slot \<Rightarrow> push_record self list_id rule flags scope policy_mask slot
               | Duplicate existing \<Rightarrow> do {
                   m \<leftarrow> index_at (mb_record_policy self) (unat existing);
                   Some (self\<lparr> mb_record_policy := (mb_record_policy self)[unat existing := m OR policy_mask],
                               mb_duplicates_removed := mb_duplicates_removed self + 1 \<rparr>)
                 }
             })"

text \<open>\<open>add_parsed_list_masked\<close> over the parsed rules of one list, which come in list order.\<close>

definition add_parsed_rule :: "u16 \<Rightarrow> parsed_rule \<Rightarrow> matcher_builder \<Rightarrow> matcher_builder option" where
  "add_parsed_rule list_id rule self =
     (case rule of
        Active domain_rule \<Rightarrow> add_rule self list_id domain_rule
      | Url url_rule \<Rightarrow> add_url_rule self list_id url_rule
      | Inactive _ \<Rightarrow> Some self)"

definition add_parsed_list_masked ::
  "matcher_builder \<Rightarrow> string \<Rightarrow> parsed_rule_list \<Rightarrow> u16 \<Rightarrow> matcher_builder option" where
  "add_parsed_list_masked self name list policy_mask = do {
     (list_id, self) \<leftarrow> add_list_masked self name policy_mask;
     try_fold (add_parsed_rule list_id) (prl_rules list) self
   }"

definition add_parsed_list :: "matcher_builder \<Rightarrow> string \<Rightarrow> parsed_rule_list \<Rightarrow> matcher_builder option" where
  "add_parsed_list self name list = add_parsed_list_masked self name list ALL_POLICIES"

section \<open>What a compiled rule is\<close>

text \<open>The identity of a domain rule: its flags, its name up to ASCII case, its options verbatim.\<close>

type_synonym dom_sem = "u8 \<times> string \<times> string option \<times> string option \<times> string option"

definition dom_flags :: "domain_rule \<Rightarrow> u8" where
  "dom_flags rule = (if dr_client rule \<noteq> None then option_flags rule OR FLAG_CLIENT else option_flags rule)"

definition dom_sem_of :: "domain_rule \<Rightarrow> dom_sem" where
  "dom_sem_of rule =
     (dom_flags rule, lower (dr_domain rule), dr_dns_types rule, dr_dns_rewrite rule, dr_client rule)"

fun dom_hash :: "dom_sem \<Rightarrow> u64" where
  "dom_hash (flags, domain, types, rewrite, client) = identity_hash domain flags types rewrite client"

definition dom_accepted :: "domain_rule \<Rightarrow> bool" where
  "dom_accepted rule \<longleftrightarrow>
     dr_domain rule \<noteq> [] \<and> int (length (dr_domain rule)) \<le> 255 \<and> compile_scope (dr_client rule) \<noteq> None"

definition dom_sem_at :: "matcher_builder \<Rightarrow> nat \<Rightarrow> dom_sem option" where
  "dom_sem_at self i = do {
     record \<leftarrow> index_at (mb_records self) i;
     domain \<leftarrow> dom_slice (mb_arena self) record;
     Some (dm_flags record, lower domain, map_option snd (mb_dnstype self (of_nat i)),
           mb_rewrite self (of_nat i), map_option cs_raw (map_of (mb_clients self) (of_nat i)))
   }"

definition sem_key :: "(dom_sem \<times> u16) list \<Rightarrow> u32 \<Rightarrow> u64" where
  "sem_key A e = dom_hash (fst (A ! unat e))"

definition indices :: "nat \<Rightarrow> u32 list" where
  "indices n = map of_nat [0..<n]"

definition dedup_inv :: "(dom_sem \<times> u16) list \<Rightarrow> u32 list \<Rightarrow> bool" where
  "dedup_inv A T \<longleftrightarrow> table_inv EMPTY (\<lambda>cap e. fastrange (sem_key A e) cap) T (indices (length A))
     \<and> 2 * length A \<le> length T"

definition mb_inv :: "matcher_builder \<Rightarrow> (dom_sem \<times> u16) list \<Rightarrow> bool" where
  "mb_inv self A \<longleftrightarrow>
     length (mb_records self) = length A \<and> mb_record_policy self = map snd A \<and>
     int (length A) \<le> MAX_RECORDS \<and>
     (\<forall>i<length A. dom_sem_at self i = Some (fst (A ! i))) \<and>
     (\<forall>i<length A. \<exists>rule. dom_accepted rule \<and> fst (A ! i) = dom_sem_of rule) \<and>
     (\<forall>idx. length A \<le> unat idx \<longrightarrow>
        mb_dnstype self idx = None \<and> mb_rewrite self idx = None \<and> map_of (mb_clients self) idx = None) \<and>
     (\<forall>idx m raw. mb_dnstype self idx = Some (m, raw) \<longrightarrow> m = parse_dnstype_mask raw) \<and>
     (\<forall>idx scope. map_of (mb_clients self) idx = Some scope \<longrightarrow> client_scope_parse (cs_raw scope) = Some scope) \<and>
     distinct (map fst A) \<and> dedup_inv A (mb_dedup self)"

lemmas mb_invD = mb_inv_def [THEN iffD1]

lemma small_index:
  assumes "mb_inv self A" "i < length A"
  shows "unat (of_nat i :: u32) = i" "uint (of_nat i :: u32) < MAX_RECORDS" "(of_nat i :: u32) \<noteq> EMPTY"
proof -
  have n: "i < 16777215" using assms by (simp add: mb_inv_def MAX_RECORDS_eq)
  then show u: "unat (of_nat i :: u32) = i" by (intro unat_of_nat_small) simp
  have "uint (of_nat i :: u32) = int i" using u by (metis uint_nat)
  then show "uint (of_nat i :: u32) < MAX_RECORDS" using n by (simp add: MAX_RECORDS_eq)
  show "(of_nat i :: u32) \<noteq> EMPTY"
  proof
    assume "(of_nat i :: u32) = EMPTY"
    then have "unat (EMPTY) = i" using u by simp
    then show False using n by (simp add: EMPTY_def unsigned_minus_1_eq_mask mask_eq_exp_minus_1)
  qed
qed

lemma dom_flags_fields:
  assumes "dm_flags r = dom_flags rule"
  shows "dm_is_allow r \<longleftrightarrow> dr_action rule = AllowRule"
    and "dm_include_subdomains r \<longleftrightarrow> dr_include_subdomains rule"
    and "dm_has_dnstype r \<longleftrightarrow> dr_dns_types rule \<noteq> None"
    and "dm_has_rewrite r \<longleftrightarrow> dr_dns_rewrite rule \<noteq> None"
    and "dm_has_client r \<longleftrightarrow> dr_client rule \<noteq> None"
proof -
  define f where "f a e t w c =
     (let flags = 0;
          flags = (if a then flags OR FLAG_ALLOW else flags);
          flags = (if e then flags OR FLAG_SUBDOMAINS else flags);
          flags = (if t then flags OR FLAG_DNSTYPE else flags);
          flags = (if w then flags OR FLAG_REWRITE else flags)
      in if c then flags OR FLAG_CLIENT else flags)" for a e t w c
  have *: "(f a e t w c AND FLAG_ALLOW \<noteq> 0 \<longleftrightarrow> a) \<and> (f a e t w c AND FLAG_SUBDOMAINS \<noteq> 0 \<longleftrightarrow> e)
     \<and> (f a e t w c AND FLAG_DNSTYPE \<noteq> 0 \<longleftrightarrow> t) \<and> (f a e t w c AND FLAG_REWRITE \<noteq> 0 \<longleftrightarrow> w)
     \<and> (f a e t w c AND FLAG_CLIENT \<noteq> 0 \<longleftrightarrow> c)" for a e t w c
    by (cases a; cases e; cases t; cases w; cases c)
       (simp_all add: f_def FLAG_ALLOW_def FLAG_SUBDOMAINS_def FLAG_DNSTYPE_def FLAG_REWRITE_def FLAG_CLIENT_def)
  have "dm_flags r = f (dr_action rule = AllowRule) (dr_include_subdomains rule) (dr_dns_types rule \<noteq> None)
      (dr_dns_rewrite rule \<noteq> None) (dr_client rule \<noteq> None)"
    unfolding assms dom_flags_def option_flags_def f_def Let_def ..
  then show "dm_is_allow r \<longleftrightarrow> dr_action rule = AllowRule" "dm_include_subdomains r \<longleftrightarrow> dr_include_subdomains rule"
    "dm_has_dnstype r \<longleftrightarrow> dr_dns_types rule \<noteq> None" "dm_has_rewrite r \<longleftrightarrow> dr_dns_rewrite rule \<noteq> None"
    "dm_has_client r \<longleftrightarrow> dr_client rule \<noteq> None"
    unfolding dm_is_allow_def dm_include_subdomains_def dm_has_dnstype_def dm_has_rewrite_def dm_has_client_def
    by (simp_all only: *)
qed

text \<open>The record and side maps behind compiled rule \<open>i\<close>.\<close>

lemma dom_record_at:
  assumes inv: "mb_inv self A" and i: "i < length A" and rule: "fst (A ! i) = dom_sem_of rule"
  obtains r domain where "index_at (mb_records self) i = Some r" "dom_slice (mb_arena self) r = Some domain"
    "lower domain = lower (dr_domain rule)" "dm_flags r = dom_flags rule"
    "map_option snd (mb_dnstype self (of_nat i)) = dr_dns_types rule" "mb_rewrite self (of_nat i) = dr_dns_rewrite rule"
    "map_option cs_raw (map_of (mb_clients self) (of_nat i)) = dr_client rule"
proof -
  have "dom_sem_at self i = Some (dom_sem_of rule)" using inv i rule by (simp add: mb_inv_def)
  then show ?thesis using that by (auto simp: dom_sem_at_def dom_sem_of_def split: Option.bind_splits)
qed

lemma identity_matches_ok:
  assumes inv: "mb_inv self A" and i: "unat idx < length A" and scope: "compile_scope (dr_client rule) = Some scope"
  shows "identity_matches self idx rule (dr_domain rule) (dom_flags rule) scope
    = Some (fst (A ! unat idx) = dom_sem_of rule)"
proof -
  from inv have "\<forall>i<length A. \<exists>rule. dom_accepted rule \<and> fst (A ! i) = dom_sem_of rule"
    unfolding mb_inv_def by (elim conjE)
  with i obtain rule0 where rule0: "fst (A ! unat idx) = dom_sem_of rule0" by blast
  have idx: "of_nat (unat idx) = idx" by simp
  from dom_record_at [OF inv i rule0, unfolded idx] obtain r domain where r: "index_at (mb_records self) (unat idx) = Some r"
    "dom_slice (mb_arena self) r = Some domain" "lower domain = lower (dr_domain rule0)" "dm_flags r = dom_flags rule0"
    "map_option snd (mb_dnstype self idx) = dr_dns_types rule0" "mb_rewrite self idx = dr_dns_rewrite rule0"
    "map_option cs_raw (map_of (mb_clients self) idx) = dr_client rule0" by blast
  note f0 = dom_flags_fields [OF r(4)]
  have raw: "map_option cs_raw scope = dr_client rule" using compile_scope_raw [OF scope] .
  show ?thesis
  proof (cases "dom_flags rule0 = dom_flags rule")
    case False
    then show ?thesis using r(1,4) rule0 by (simp add: identity_matches_def dom_sem_of_def)
  next
    case True
    note f = dom_flags_fields [OF r(4) [unfolded True]]
    have sem: "fst (A ! unat idx) = dom_sem_of rule \<longleftrightarrow>
        lower (dr_domain rule0) = lower (dr_domain rule) \<and> dr_dns_types rule0 = dr_dns_types rule
        \<and> dr_dns_rewrite rule0 = dr_dns_rewrite rule \<and> dr_client rule0 = dr_client rule"
      using rule0 True by (simp add: dom_sem_of_def)
    have t: "(if dm_has_dnstype r then map_option (\<lambda>(_, raw). raw = (case dr_dns_types rule of Some t \<Rightarrow> t | None \<Rightarrow> []))
          (mb_dnstype self idx) else Some True) = Some (dr_dns_types rule0 = dr_dns_types rule)"
      using r(5) f0(3) f(3) by (cases "mb_dnstype self idx"; cases "dr_dns_types rule") auto
    have w: "(if dm_has_rewrite r then map_option (\<lambda>raw. raw = (case dr_dns_rewrite rule of Some t \<Rightarrow> t | None \<Rightarrow> []))
          (mb_rewrite self idx) else Some True) = Some (dr_dns_rewrite rule0 = dr_dns_rewrite rule)"
      using r(6) f0(4) f(4) by (cases "mb_rewrite self idx"; cases "dr_dns_rewrite rule") auto
    have c: "(if dm_has_client r then map_option (\<lambda>c. cs_raw c = (case scope of Some s \<Rightarrow> cs_raw s | None \<Rightarrow> []))
          (map_of (mb_clients self) idx) else Some True) = Some (dr_client rule0 = dr_client rule)"
      using r(7) f0(5) f(5) raw by (cases "map_of (mb_clients self) idx"; cases scope) auto
    show ?thesis
      unfolding identity_matches_def r(1) bind.bind_lunit t w c sem using True r(2,3,4)
      by (auto simp: eq_ignore_ascii_case_def)
  qed
qed

lemma table_inv_cong:
  assumes "table_inv EMPTY (\<lambda>cap e. fastrange (key e) cap) T xs" "\<And>e. e \<in> set xs \<Longrightarrow> key e = key' e"
  shows "table_inv EMPTY (\<lambda>cap e. fastrange (key' e) cap) T xs"
proof -
  have run: "set (run EMPTY T h) \<subseteq> set xs" for h using probing.run_subset [OF assms(1)] .
  have "filter (\<lambda>e. fastrange (key' e) n = h) ys = filter (\<lambda>e. fastrange (key e) n = h) ys"
    if "set ys \<subseteq> set xs" for ys n h using that assms(2) by (intro filter_cong) auto
  with run assms(1) show ?thesis unfolding table_inv_def by auto
qed

section \<open>The deduplication index\<close>

lemma try_fold_map: "try_fold g (map h xs) s = try_fold (\<lambda>x. g (h x)) xs s"
  by (induction xs arbitrary: s) (auto split: option.splits)

lemma try_fold_cong:
  "(\<And>x s. x \<in> set xs \<Longrightarrow> f x s = g x s) \<Longrightarrow> try_fold f xs s = try_fold g xs s"
  by (induction xs arbitrary: s) (auto split: option.splits)

lemma indices_enumerate: "indices (length xs) = map (\<lambda>(i, _). of_nat i) (enumerate 0 xs)"
proof -
  have "map (\<lambda>(i, _). of_nat i :: u32) (enumerate 0 xs) = map of_nat (map fst (enumerate 0 xs))"
    unfolding map_map by (rule map_cong) auto
  then show ?thesis by (simp add: indices_def)
qed

lemma indices_Suc: "indices (Suc n) = indices n @ [of_nat n]"
  by (simp add: indices_def)

lemma set_indices:
  assumes "mb_inv self A" "e \<in> set (indices (length A))"
  shows "unat e < length A" "e \<noteq> EMPTY"
  using assms small_index [OF assms(1)] by (auto simp: indices_def)

lemma mb_inv_dedup:
  "mb_inv (self\<lparr> mb_dedup := T \<rparr>) A \<longleftrightarrow> mb_inv (self\<lparr> mb_dedup := mb_dedup self \<rparr>) A \<and> dedup_inv A T"
  if "dedup_inv A (mb_dedup self)"
  using that by (simp add: mb_inv_def dom_sem_at_def)

lemma rehash_step:
  assumes inv: "mb_inv self A" and x: "(i, r) \<in> set (enumerate 0 (mb_records self))"
  shows "rehash self (i, r) grown = insert_probe EMPTY grown (fastrange (sem_key A (of_nat i)) (length grown)) (of_nat i)"
proof -
  have i: "i < length A" and r: "index_at (mb_records self) i = Some r"
    using x inv by (auto simp: in_set_enumerate_eq mb_inv_def)
  have "dom_sem_at self i = Some (fst (A ! i))" using inv i by (simp add: mb_inv_def)
  then obtain domain where d: "dom_slice (mb_arena self) r = Some domain"
    "fst (A ! i) = (dm_flags r, lower domain, map_option snd (mb_dnstype self (of_nat i)),
           mb_rewrite self (of_nat i), map_option cs_raw (map_of (mb_clients self) (of_nat i)))"
    using r by (auto simp: dom_sem_at_def split: Option.bind_splits)
  have "identity_hash (lower domain) = identity_hash domain"
    by (rule identity_hash_cong) (simp add: eq_ignore_ascii_case_def)
  with d small_index(1) [OF inv i] show ?thesis by (simp add: rehash_def sem_key_def Let_def)
qed

lemma reserve_dedup_ok:
  assumes inv: "mb_inv self A"
  shows "\<exists>T. reserve_dedup self = Some (self\<lparr> mb_dedup := T \<rparr>) \<and> mb_inv (self\<lparr> mb_dedup := T \<rparr>) A
    \<and> (length A + 1) * 2 \<le> length T"
proof -
  have len: "length (mb_records self) = length A" "int (length A) \<le> 16777215" and ded: "dedup_inv A (mb_dedup self)"
    using inv by (simp_all add: mb_inv_def MAX_RECORDS_eq)
  show ?thesis
  proof (cases "(length A + 1) * 2 \<le> length (mb_dedup self)")
    case True
    then have "reserve_dedup self = Some (self\<lparr> mb_dedup := mb_dedup self \<rparr>)"
      using len by (simp add: reserve_dedup_def)
    with True inv show ?thesis by (intro exI [of _ "mb_dedup self"]) simp
  next
    case False
    let ?n = "dedup_slots ((length A + 1) * 2)"
    have n: "(length A + 1) * 2 * 2 \<le> ?n" using len(2) by (intro dedup_slots_room) (simp add: USIZE_MAX_def)
    have fold: "try_fold (rehash self) (enumerate 0 (mb_records self)) T
        = try_fold (\<lambda>e T. insert_probe EMPTY T (fastrange (sem_key A e) (length T)) e) (indices (length A)) T" for T
      unfolding len(1) [symmetric] indices_enumerate try_fold_map
      by (rule try_fold_cong) (use rehash_step [OF inv] in auto)
    have ne: "\<forall>e\<in>set (indices (length A)). e \<noteq> EMPTY" using set_indices [OF inv] by blast
    obtain T where T: "try_fold (rehash self) (enumerate 0 (mb_records self)) (replicate ?n EMPTY) = Some T"
      "table_inv EMPTY (\<lambda>cap e. fastrange (sem_key A e) cap) T (indices (length A))" "length T = ?n"
      using probing.inv_insert_all [OF ne probing.inv_empty [of "sem_key A" ?n]] n
      unfolding fold by (auto simp: indices_def)
    have "dedup_inv A T" using T n by (simp add: dedup_inv_def)
    then have "mb_inv (self\<lparr> mb_dedup := T \<rparr>) A" using mb_inv_dedup [OF ded] inv by simp
    with False T n len show ?thesis by (auto simp: reserve_dedup_def Let_def)
  qed
qed

lemma dedup_slot_for_ok:
  assumes inv: "mb_inv self A" and scope: "compile_scope (dr_client rule) = Some scope"
  shows "\<exists>slot T. dedup_slot_for self rule (dr_domain rule) (dom_flags rule) scope = Some (slot, self\<lparr> mb_dedup := T \<rparr>)
    \<and> mb_inv (self\<lparr> mb_dedup := T \<rparr>) A \<and> (length A + 1) * 2 \<le> length T
    \<and> (case slot of
         Duplicate e \<Rightarrow> unat e < length A \<and> fst (A ! unat e) = dom_sem_of rule
       | Vacant v \<Rightarrow> dom_sem_of rule \<notin> fst ` set A
           \<and> find_vacant EMPTY T (fastrange (dom_hash (dom_sem_of rule)) (length T)) = Some v)"
proof -
  obtain T where T: "reserve_dedup self = Some (self\<lparr> mb_dedup := T \<rparr>)" "mb_inv (self\<lparr> mb_dedup := T \<rparr>) A"
    "(length A + 1) * 2 \<le> length T" using reserve_dedup_ok [OF inv] by blast
  let ?self = "self\<lparr> mb_dedup := T \<rparr>" and ?sem = "dom_sem_of rule"
  let ?home = "fastrange (dom_hash ?sem) (length T)" and ?P = "\<lambda>e. fst (A ! unat e) = ?sem"
  have raw: "map_option cs_raw scope = dr_client rule" using compile_scope_raw [OF scope] .
  have hash: "identity_hash (dr_domain rule) (dom_flags rule) (dr_dns_types rule) (dr_dns_rewrite rule)
      (map_option cs_raw scope) = dom_hash ?sem"
  proof -
    have "identity_hash (lower (dr_domain rule)) = identity_hash (dr_domain rule)"
      by (rule identity_hash_cong) (simp add: eq_ignore_ascii_case_def)
    then show ?thesis by (simp add: dom_sem_of_def raw)
  qed
  have tab: "table_inv EMPTY (\<lambda>cap e. fastrange (sem_key A e) cap) T (indices (length A))"
    using T(2) by (simp add: mb_inv_def dedup_inv_def)
  have pos: "0 < length T" using T(3) by (cases T) auto
  have home: "?home < length T" using pos by (rule fastrange_less)
  have blank: "EMPTY \<in> set T" using probing.has_blank [OF tab] T(3) by (simp add: indices_def)
  have sel: "filter ?P (run EMPTY T ?home) = filter ?P (indices (length A))"
    by (rule probing.run_select [OF tab home]) (simp add: sem_key_def)
  have run: "unat e < length A" if "e \<in> set (run EMPTY T ?home)" for e
    using probing.run_subset [OF tab] set_indices(1) [OF inv] that by blast
  have step: "map_option (\<lambda>same. if same then Inl e else Inr ())
      (identity_matches ?self e rule (dr_domain rule) (dom_flags rule) scope) = Some (if ?P e then Inl e else Inr ())"
    if "e \<in> set (run EMPTY T ?home)" for e
    using identity_matches_ok [OF T(2) run [OF that] scope] by simp
  have walk: "fold_exit (\<lambda>e _. map_option (\<lambda>same. if same then Inl e else Inr ())
        (identity_matches ?self e rule (dr_domain rule) (dom_flags rule) scope)) (run EMPTY T ?home) ()
      = Some (case filter ?P (indices (length A)) of [] \<Rightarrow> Inr () | e # _ \<Rightarrow> Inl e)"
    unfolding sel [symmetric] by (rule fold_exit_find) (rule step)
  have vac: "find_vacant EMPTY T ?home = Some ((?home + length (run EMPTY T ?home)) mod length T)"
    using home blank by (rule find_vacant_run)
  have look: "dedup_slot_for self rule (dr_domain rule) (dom_flags rule) scope =
      Some (case filter ?P (indices (length A)) of
              [] \<Rightarrow> Vacant ((?home + length (run EMPTY T ?home)) mod length T) | e # _ \<Rightarrow> Duplicate e, ?self)"
    unfolding dedup_slot_for_def T(1) hash 
    by (auto simp: Let_def probe_total [OF home blank] walk split: list.splits)
  show ?thesis
  proof (cases "filter ?P (indices (length A))")
    case Nil
    have "?sem \<notin> fst ` set A"
    proof
      assume "?sem \<in> fst ` set A"
      then obtain i where i: "i < length A" "fst (A ! i) = ?sem" by (auto simp: in_set_conv_nth)
      then have "of_nat i \<in> set (filter ?P (indices (length A)))"
        using small_index(1) [OF inv i(1)] by (auto simp: indices_def)
      with Nil show False by simp
    qed
    with look Nil T vac show ?thesis by auto
  next
    case (Cons e es)
    then have "e \<in> set (filter ?P (indices (length A)))" by simp
    then have "unat e < length A" "?P e" using set_indices(1) [OF inv] by auto
    with look Cons T show ?thesis by auto
  qed
qed

section \<open>Adding a rule\<close>

lemma push_record_ok:
  assumes inv: "mb_inv self A" and acc: "dom_accepted rule" and scope: "compile_scope (dr_client rule) = Some scope"
    and new: "dom_sem_of rule \<notin> fst ` set A" and room: "(length A + 1) * 2 \<le> length (mb_dedup self)"
    and vac: "find_vacant EMPTY (mb_dedup self) (fastrange (dom_hash (dom_sem_of rule)) (length (mb_dedup self))) = Some v"
    and sizes: "int (length A) < MAX_RECORDS" "length (mb_arena self) < 2 ^ 32"
  shows "\<exists>self'. push_record self list_id rule (dom_flags rule) scope m v = Some self'
    \<and> mb_inv self' (A @ [(dom_sem_of rule, m)]) \<and> length (mb_arena self') = length (mb_arena self) + length (dr_domain rule)
    \<and> mb_lists self' = mb_lists self \<and> mb_list_policy self' = mb_list_policy self
    \<and> mb_policy_universe self' = mb_policy_universe self \<and> mb_url self' = mb_url self"
proof -
  let ?n = "length A" and ?A = "A @ [(dom_sem_of rule, m)]" and ?T = "mb_dedup self"
  let ?i = "of_nat ?n :: u32"
  have len: "length (mb_records self) = ?n" using inv by (simp add: mb_inv_def)
  have n: "?n < 16777215" using sizes(1) by (simp add: MAX_RECORDS_eq)
  have ui: "unat ?i = ?n" using n by (intro unat_of_nat_small) simp
  have small: "unat (of_nat i :: u32) = i" if "i \<le> ?n" for i using that n by (intro unat_of_nat_small) simp
  have iE: "?i \<noteq> EMPTY"
  proof
    assume "?i = EMPTY"
    then have "unat EMPTY = ?n" using ui by simp
    then show False using n by (simp add: EMPTY_def unsigned_minus_1_eq_mask mask_eq_exp_minus_1)
  qed
  have tab: "table_inv EMPTY (\<lambda>cap e. fastrange (sem_key A e) cap) ?T (indices ?n)"
    using inv by (simp add: mb_inv_def dedup_inv_def)
  have tab': "table_inv EMPTY (\<lambda>cap e. fastrange (sem_key ?A e) cap) ?T (indices ?n)"
    by (rule table_inv_cong [OF tab]) (use set_indices(1) [OF inv] in \<open>auto simp: sem_key_def nth_append\<close>)
  have key: "sem_key ?A ?i = dom_hash (dom_sem_of rule)" by (simp add: sem_key_def ui)
  have ins: "insert_probe EMPTY ?T (fastrange (sem_key ?A ?i) (length ?T)) ?i = Some (?T[v := ?i])"
    using vac by (simp add: insert_probe_def key)
  have "length (indices ?n) < length ?T" using room by (simp add: indices_def)
  from probing.inv_insert [OF tab' this iE] ins
  have T': "table_inv EMPTY (\<lambda>cap e. fastrange (sem_key ?A e) cap) (?T[v := ?i]) (indices (length ?A))"
    by (simp add: indices_Suc)
  have "0 < length ?T" using room by (cases ?T) auto
  have v: "v < length ?T"
  proof -
    have "EMPTY \<in> set ?T" using probing.has_blank [OF tab] room by (simp add: indices_def)
    from find_vacant_run [OF fastrange_less [OF \<open>0 < length ?T\<close>] this] vac \<open>0 < length ?T\<close> show ?thesis
      by (metis mod_less_divisor option.inject)
  qed
  define self' where "self' = self\<lparr>
            mb_dnstype := (case dr_dns_types rule of
                             Some raw \<Rightarrow> (mb_dnstype self)(?i \<mapsto> (parse_dnstype_mask raw, raw))
                           | None \<Rightarrow> mb_dnstype self),
            mb_rewrite := (case dr_dns_rewrite rule of
                             Some raw \<Rightarrow> (mb_rewrite self)(?i \<mapsto> raw) | None \<Rightarrow> mb_rewrite self),
            mb_clients := (case scope of
                             Some s \<Rightarrow> (?i, s) # filter (\<lambda>(k, _). k \<noteq> ?i) (mb_clients self)
                           | None \<Rightarrow> mb_clients self),
            mb_arena := mb_arena self @ dr_domain rule,
            mb_records := mb_records self @ [\<lparr> dm_dom_off = of_nat (length (mb_arena self)),
                dm_dom_len = of_nat (length (dr_domain rule)), dm_flags = dom_flags rule, dm_list_id = list_id \<rparr>],
            mb_record_policy := mb_record_policy self @ [m],
            mb_dedup := ?T[v := ?i] \<rparr>"
  have push: "push_record self list_id rule (dom_flags rule) scope m v = Some self'"
    using sizes v len by (simp add: push_record_def expect_u32_Some self'_def Let_def)
  have fresh: "mb_dnstype self ?i = None" "mb_rewrite self ?i = None" "map_of (mb_clients self) ?i = None"
    using inv ui by (simp_all add: mb_inv_def)
  have types: "mb_dnstype self' idx = (if idx = ?i then map_option (\<lambda>raw. (parse_dnstype_mask raw, raw)) (dr_dns_types rule)
      else mb_dnstype self idx)" for idx
    using fresh by (simp add: self'_def split: option.splits)
  have rewrite: "mb_rewrite self' idx = (if idx = ?i then dr_dns_rewrite rule else mb_rewrite self idx)" for idx
    using fresh by (simp add: self'_def split: option.splits)
  have clients: "map_of (mb_clients self') idx = (if idx = ?i then scope else map_of (mb_clients self) idx)" for idx
  proof -
    have "map_of (filter (\<lambda>(k, _). k \<noteq> ?i) xs) idx = (if idx = ?i then None else map_of xs idx)"
      for xs :: "(u32 \<times> client_scope) list" by (induction xs) auto
    with fresh show ?thesis by (simp add: self'_def split: option.splits)
  qed
  have old: "dom_sem_at self' i = Some (fst (A ! i))" if i: "i < ?n" for i
  proof -
    have ne: "of_nat i \<noteq> ?i" using small [of i] ui i by auto
    have "dom_sem_at self i = Some (fst (A ! i))" using inv i by (simp add: mb_inv_def)
    then obtain r d where r: "index_at (mb_records self) i = Some r" "dom_slice (mb_arena self) r = Some d"
      "fst (A ! i) = (dm_flags r, lower d, map_option snd (mb_dnstype self (of_nat i)),
           mb_rewrite self (of_nat i), map_option cs_raw (map_of (mb_clients self) (of_nat i)))"
      by (auto simp: dom_sem_at_def split: Option.bind_splits)
    have "dom_slice (mb_arena self') r = Some d"
      using r(2) slice_append by (auto simp: dom_slice_def self'_def)
    moreover have "index_at (mb_records self') i = Some r"
      using r(1) by (auto simp: self'_def index_at_eq_Some nth_append)
    ultimately show ?thesis using r(3) ne by (simp add: dom_sem_at_def types rewrite clients)
  qed
  have last: "dom_sem_at self' ?n = Some (dom_sem_of rule)"
  proof -
    have "unat (of_nat (length (mb_arena self)) :: u32) = length (mb_arena self)" using sizes(2) by (rule index32)
    moreover have "unat (of_nat (length (dr_domain rule)) :: u8) = length (dr_domain rule)"
      using acc by (intro unat_of_nat_small) (simp add: dom_accepted_def)
    moreover have "mb_records self' ! ?n = \<lparr> dm_dom_off = of_nat (length (mb_arena self)),
        dm_dom_len = of_nat (length (dr_domain rule)), dm_flags = dom_flags rule, dm_list_id = list_id \<rparr>"
      "mb_arena self' = mb_arena self @ dr_domain rule" "?n < length (mb_records self')"
      using len by (simp_all add: self'_def nth_append)
    moreover have "map_option snd (map_option (\<lambda>raw. (parse_dnstype_mask raw, raw)) x) = x" for x
      by (cases x) auto
    ultimately show ?thesis using compile_scope_raw [OF scope]
      by (simp add: dom_sem_at_def types rewrite clients dom_slice_def slice_def dom_sem_of_def)
  qed
  have "mb_inv self' ?A"
    unfolding mb_inv_def
  proof (intro conjI allI impI)
    show "dom_sem_at self' i = Some (fst (?A ! i))" if "i < length ?A" for i
      using that old last by (cases "i = ?n") (auto simp: nth_append)
    show "\<exists>rule. dom_accepted rule \<and> fst (?A ! i) = dom_sem_of rule" if "i < length ?A" for i
      using that inv acc by (cases "i = ?n") (auto simp: nth_append mb_inv_def)
    show "mb_dnstype self' idx = None" "mb_rewrite self' idx = None" "map_of (mb_clients self') idx = None"
      if "length ?A \<le> unat idx" for idx
      using that ui inv by (auto simp: types rewrite clients mb_inv_def)
    show "k = parse_dnstype_mask raw" if "mb_dnstype self' idx = Some (k, raw)" for idx k raw
      using that inv by (auto simp: types mb_inv_def split: if_splits)
    show "client_scope_parse (cs_raw sc) = Some sc" if "map_of (mb_clients self') idx = Some sc" for idx sc
      using that scope inv client_scope_raw
      by (auto simp: clients mb_inv_def compile_scope_def split: if_splits option.splits)
    show "distinct (map fst ?A)" using inv new by (simp add: mb_inv_def)
    show "dedup_inv ?A (mb_dedup self')" using T' room by (simp add: dedup_inv_def self'_def)
  qed (use inv n len in \<open>simp_all add: self'_def mb_inv_def MAX_RECORDS_eq\<close>)
  with push show ?thesis by (simp add: self'_def)
qed

lemma dup_record_ok:
  fixes m :: u16
  assumes inv: "mb_inv self A" and idx: "unat e < length A" and key: "fst (A ! unat e) = dom_sem_of rule"
  defines "self' \<equiv> self\<lparr> mb_record_policy := (mb_record_policy self)[unat e := mb_record_policy self ! unat e OR m],
       mb_duplicates_removed := mb_duplicates_removed self + 1 \<rparr>"
  shows "mb_inv self' (merge_one (dom_sem_of rule, m) A)"
proof -
  let ?i = "unat e"
  have dist: "distinct (map fst A)" using inv by (simp add: mb_inv_def)
  have merged: "merge_one (dom_sem_of rule, m) A = A[?i := (dom_sem_of rule, snd (A ! ?i) OR m)]"
    using dist idx key by (rule merge_one_at)
  note keys = fst_mask_update [OF key]
  have mask: "mb_record_policy self' = map snd (A[?i := (dom_sem_of rule, snd (A ! ?i) OR m)])"
    using inv idx by (simp add: self'_def mb_inv_def map_update)
  have same: "dom_sem_at self' j = dom_sem_at self j" for j by (simp add: dom_sem_at_def self'_def)
  have fields: "mb_records self' = mb_records self" "mb_dnstype self' = mb_dnstype self"
    "mb_rewrite self' = mb_rewrite self" "mb_clients self' = mb_clients self" "mb_dedup self' = mb_dedup self"
    by (simp_all add: self'_def)
  have ded: "dedup_inv (A[?i := (dom_sem_of rule, x)]) T \<longleftrightarrow> dedup_inv A T" for x T
  proof -
    have k: "sem_key (A[?i := (dom_sem_of rule, x)]) c = sem_key A c" if "c \<in> set (indices (length A))" for c
      using keys [OF set_indices(1) [OF inv that]] by (simp add: sem_key_def)
    have "table_inv EMPTY (\<lambda>cap c. fastrange (sem_key (A[?i := (dom_sem_of rule, x)]) c) cap) T (indices (length A))
        \<longleftrightarrow> table_inv EMPTY (\<lambda>cap c. fastrange (sem_key A c) cap) T (indices (length A))"
      by (rule iffI; erule table_inv_cong) (simp_all add: k)
    then show ?thesis by (simp add: dedup_inv_def)
  qed
  show ?thesis
    unfolding merged mb_inv_def same fields keys_mask_update [OF key] mask ded using inv keys by (simp add: mb_inv_def)
qed

definition mb_frame :: "matcher_builder \<Rightarrow> matcher_builder \<Rightarrow> bool" where
  "mb_frame self self' \<longleftrightarrow> mb_lists self' = mb_lists self \<and> mb_list_policy self' = mb_list_policy self
     \<and> mb_policy_universe self' = mb_policy_universe self"

lemma add_rule_merge:
  assumes inv: "mb_inv self A" and mask: "index_at (mb_list_policy self) (unat list_id) = Some m"
    and sizes: "int (length A) < MAX_RECORDS" "length (mb_arena self) < 2 ^ 32"
  shows "\<exists>self'. add_rule self list_id rule = Some self'
    \<and> mb_inv self' (if dom_accepted rule then merge_one (dom_sem_of rule, m) A else A)
    \<and> length (mb_arena self') \<le> length (mb_arena self) + length (dr_domain rule)
    \<and> mb_frame self self' \<and> mb_url self' = mb_url self"
proof (cases "dom_accepted rule")
  case False
  then have "add_rule self list_id rule = Some self"
    by (cases "compile_scope (dr_client rule)") (auto simp: add_rule_def dom_accepted_def Let_def)
  with False inv show ?thesis by (simp add: mb_frame_def)
next
  case acc: True
  then obtain scope where scope: "compile_scope (dr_client rule) = Some scope" by (auto simp: dom_accepted_def)
  have flags: "(if scope \<noteq> None then option_flags rule OR FLAG_CLIENT else option_flags rule) = dom_flags rule"
    using compile_scope_raw [OF scope] by (cases scope) (auto simp: dom_flags_def)
  from dedup_slot_for_ok [OF inv scope] obtain slot T
    where d: "dedup_slot_for self rule (dr_domain rule) (dom_flags rule) scope = Some (slot, self\<lparr> mb_dedup := T \<rparr>)"
      "mb_inv (self\<lparr> mb_dedup := T \<rparr>) A" "(length A + 1) * 2 \<le> length T"
      "case slot of
         Duplicate e \<Rightarrow> unat e < length A \<and> fst (A ! unat e) = dom_sem_of rule
       | Vacant v \<Rightarrow> dom_sem_of rule \<notin> fst ` set A
           \<and> find_vacant EMPTY T (fastrange (dom_hash (dom_sem_of rule)) (length T)) = Some v" by blast
  let ?self = "self\<lparr> mb_dedup := T \<rparr>"
  have add: "add_rule self list_id rule = (case slot of
      Vacant slot \<Rightarrow> push_record ?self list_id rule (dom_flags rule) scope m slot
    | Duplicate e \<Rightarrow> Option.bind (index_at (mb_record_policy ?self) (unat e)) (\<lambda>k.
        Some (?self\<lparr> mb_record_policy := (mb_record_policy ?self)[unat e := k OR m],
                     mb_duplicates_removed := mb_duplicates_removed ?self + 1 \<rparr>)))"
    unfolding add_rule_def Let_def scope option.case(2) flags using acc mask d(1) by (simp add: dom_accepted_def)
  show ?thesis
  proof (cases slot)
    case (Vacant v)
    with d(4) have v: "dom_sem_of rule \<notin> fst ` set A"
      "find_vacant EMPTY (mb_dedup ?self) (fastrange (dom_hash (dom_sem_of rule)) (length (mb_dedup ?self))) = Some v"
      by simp_all
    from push_record_ok [OF d(2) acc scope v(1) _ v(2) sizes(1), of list_id m] d(3) sizes(2)
    obtain self' where "push_record ?self list_id rule (dom_flags rule) scope m v = Some self'"
      "mb_inv self' (A @ [(dom_sem_of rule, m)])" "length (mb_arena self') = length (mb_arena ?self) + length (dr_domain rule)"
      "mb_lists self' = mb_lists ?self" "mb_list_policy self' = mb_list_policy ?self"
      "mb_policy_universe self' = mb_policy_universe ?self" "mb_url self' = mb_url ?self" by auto
    with add Vacant acc merge_one_new [OF v(1), of m] show ?thesis by (simp add: mb_frame_def)
  next
    case (Duplicate e)
    with d(4) have e: "unat e < length A" "fst (A ! unat e) = dom_sem_of rule" by simp_all
    have "index_at (mb_record_policy ?self) (unat e) = Some (mb_record_policy ?self ! unat e)"
      using d(2) e(1) by (simp add: mb_inv_def)
    with add Duplicate acc dup_record_ok [OF d(2) e, of m] show ?thesis by (simp add: mb_frame_def)
  qed
qed

lemma mb_inv_default: "mb_inv matcher_builder_default []"
  by (simp add: mb_inv_def matcher_builder_default_def dedup_inv_def table_inv_def indices_def MAX_RECORDS_eq)

lemma mb_inv_with_capacity: "mb_inv (with_capacity n) []"
proof -
  have "dedup_inv [] (replicate k EMPTY)" for k
    using probing.inv_empty [of "sem_key []" k] by (simp add: dedup_inv_def indices_def)
  then show ?thesis using mb_inv_default by (simp add: mb_inv_def with_capacity_def dom_sem_at_def)
qed
end
