(* ===== verification/Matcher.thy ===== *)
theory Matcher
  imports Matcher_Builder
begin

text \<open>
  The compiled matcher (\<open>Matcher\<close> of \<open>fah-rules/src/matcher.rs\<close>): the slot table over the domain
  records, the walk over a name's label suffixes, the HTTP lookup that consults both tiers, and the
  reported rule text. A walk over the slot table runs on fuel, of which the table's length is
  enough.
\<close>

section \<open>The compiled structure\<close>

record matcher =
  mt_arena :: string
  mt_records :: "dom_record list"
  mt_slots :: "u32 list"
  mt_slot_cap :: nat
  mt_lists :: "string list"
  mt_dnstype :: "u32 \<Rightarrow> (u32 \<times> string) option"
  mt_rewrite :: "u32 \<Rightarrow> string option"
  mt_clients :: "(u32 \<times> client_scope) list"
  mt_policy_mask :: "u16 list"
  mt_named_client_scopes :: bool
  mt_duplicates_removed :: nat
  mt_url :: url_index

definition fill_slot :: "matcher_builder \<Rightarrow> nat \<times> dom_record \<Rightarrow> u32 list \<Rightarrow> u32 list option" where
  "fill_slot self = (\<lambda>(idx, record) slots. do {
     domain \<leftarrow> dom_slice (mb_arena self) record;
     let hash = hash_domain domain;
     insert_probe EMPTY slots (fastrange hash (length slots)) (pack_slot (tag_of hash) (of_nat idx))
   })"

definition build :: "matcher_builder \<Rightarrow> matcher option" where
  "build self = do {
     let cap = table_slots (length (mb_records self));
     slots \<leftarrow> try_fold (fill_slot self) (enumerate 0 (mb_records self)) (replicate cap EMPTY);
     let full = mb_policy_universe self;
     let policy_mask = (if list_all (\<lambda>m. m = full) (mb_record_policy self) then [] else mb_record_policy self);
     url \<leftarrow> url_build (mb_url self) full;
     let named = (ui_named_client_scopes url \<or> list_ex (\<lambda>(_, scope). names_a_client scope) (mb_clients self));
     Some \<lparr> mt_arena = mb_arena self, mt_records = mb_records self, mt_slots = slots, mt_slot_cap = cap,
            mt_lists = mb_lists self, mt_dnstype = mb_dnstype self, mt_rewrite = mb_rewrite self,
            mt_clients = mb_clients self, mt_policy_mask = policy_mask, mt_named_client_scopes = named,
            mt_duplicates_removed = mb_duplicates_removed self, mt_url = url \<rparr>
   }"

definition mt_len :: "matcher \<Rightarrow> nat" where
  "mt_len self = length (mt_records self)"
definition mt_is_empty :: "matcher \<Rightarrow> bool" where
  "mt_is_empty self \<longleftrightarrow> mt_records self = []"

definition context_for :: "matcher \<Rightarrow> ip_addr \<Rightarrow> active_policies \<Rightarrow> client_context" where
  "context_for self ip active =
     \<lparr> ctx_policy = policy_for active ip, ctx_ip = Some ip,
       ctx_name = (if mt_named_client_scopes self then name_of active ip else None) \<rparr>"

definition domain_of :: "matcher \<Rightarrow> u32 \<Rightarrow> string option" where
  "domain_of self idx = Option.bind (index_at (mt_records self) (unat idx)) (dom_slice (mt_arena self))"

section \<open>Rule references and decisions\<close>

definition URL_TIER :: u32 where
  "URL_TIER = push_bit 31 1"

datatype rule_ref = RuleRef u32

fun is_url_rule :: "rule_ref \<Rightarrow> bool" where
  "is_url_rule (RuleRef r) \<longleftrightarrow> r AND URL_TIER \<noteq> 0"

fun ref_index :: "rule_ref \<Rightarrow> u32" where
  "ref_index (RuleRef r) = r AND NOT URL_TIER"

datatype match_decision = MAllow rule_ref | MBlock rule_ref | MPass

section \<open>The domain walk\<close>

definition visible :: "matcher \<Rightarrow> u32 \<Rightarrow> client_context \<Rightarrow> bool option" where
  "visible self idx ctx =
     (if mt_policy_mask self = [] then Some True
      else map_option (\<lambda>m. m AND ctx_policy_bit ctx \<noteq> 0) (index_at (mt_policy_mask self) (unat idx)))"

definition client_admits :: "matcher \<Rightarrow> u32 \<Rightarrow> client_context \<Rightarrow> bool option" where
  "client_admits self idx ctx =
     map_option (\<lambda>scope. admits scope (ctx_ip ctx) (ctx_name ctx)) (map_of (mt_clients self) idx)"

text \<open>\<open>a && b\<close> where \<open>b\<close> may panic, and is only evaluated when \<open>a\<close> holds.\<close>

definition and_also :: "bool \<Rightarrow> bool option \<Rightarrow> bool option" where
  "and_also a b = (if a then b else Some False)"

definition record_applies ::
  "matcher \<Rightarrow> u32 \<Rightarrow> dom_record \<Rightarrow> bool \<Rightarrow> u32 option \<Rightarrow> client_context \<Rightarrow> bool option" where
  "record_applies self idx record is_subdomain_level qbit ctx = do {
     type_applies \<leftarrow> (if \<not> dm_has_dnstype record then Some True
                      else case qbit of
                        None \<Rightarrow> Some False
                      | Some b \<Rightarrow> map_option (\<lambda>(m, _). m AND b \<noteq> 0) (mt_dnstype self idx));
     let dns_only = (dm_has_rewrite record \<and> qbit = None);
     shown \<leftarrow> and_also ((\<not> is_subdomain_level \<or> dm_include_subdomains record) \<and> type_applies \<and> \<not> dns_only)
              (visible self idx ctx);
     and_also shown (if dm_has_client record then client_admits self idx ctx else Some True)
   }"

text \<open>One slot of the walk: an exception ends it, the first block is remembered.\<close>

definition slot_step ::
  "matcher \<Rightarrow> string \<Rightarrow> u32 \<Rightarrow> bool \<Rightarrow> u32 option \<Rightarrow> client_context \<Rightarrow> u32 \<Rightarrow> u32 option \<Rightarrow> (u32 + u32 option) option" where
  "slot_step self name tag is_subdomain_level qbit ctx packed blocked =
     (let idx = packed AND INDEX_MASK
      in do {
        hit \<leftarrow> (if drop_bit INDEX_BITS packed = tag
                then map_option (\<lambda>domain. eq_ignore_ascii_case domain name) (domain_of self idx)
                else Some False);
        if \<not> hit then Some (Inr blocked)
        else do {
          record \<leftarrow> index_at (mt_records self) (unat idx);
          applies \<leftarrow> record_applies self idx record is_subdomain_level qbit ctx;
          Some (if \<not> applies then Inr blocked
                else if dm_is_allow record then Inl idx
                else if blocked = None then Inr (Some idx) else Inr blocked)
        }
      })"

definition walk_suffix ::
  "matcher \<Rightarrow> string \<Rightarrow> bool \<Rightarrow> u32 option \<Rightarrow> client_context \<Rightarrow> u32 option \<Rightarrow> (u32 + u32 option) option" where
  "walk_suffix self name is_subdomain_level qbit ctx blocked =
     (let hash = hash_domain name
      in map_option (\<lambda>r. case r of Inl idx \<Rightarrow> Inl idx | Inr (_, blocked) \<Rightarrow> Inr blocked)
           (probe (length (mt_slots self)) EMPTY (mt_slots self)
              (slot_step self name (tag_of hash) is_subdomain_level qbit ctx)
              (fastrange hash (mt_slot_cap self)) blocked))"

function walk_labels ::
  "matcher \<Rightarrow> string \<Rightarrow> nat \<Rightarrow> u32 option \<Rightarrow> client_context \<Rightarrow> u32 option \<Rightarrow> match_decision option" where
  "walk_labels self query start qbit ctx blocked =
     (case slice query start (length query) of
        None \<Rightarrow> None
      | Some name \<Rightarrow>
          (case walk_suffix self name (length name \<noteq> length query) qbit ctx blocked of
             None \<Rightarrow> None
           | Some (Inl idx) \<Rightarrow> Some (MAllow (RuleRef idx))
           | Some (Inr blocked) \<Rightarrow>
               (case position (\<lambda>b. b = CHR ''.'') name of
                  Some rel \<Rightarrow> walk_labels self query (start + (rel + 1)) qbit ctx blocked
                | None \<Rightarrow> Some (case blocked of Some idx \<Rightarrow> MBlock (RuleRef idx) | None \<Rightarrow> MPass))))"
  by pat_completeness auto
termination
  by (relation "measure (\<lambda>(_, query, start, _, _, _). length query - start)")
     (auto simp: slice_def split: if_splits dest!: position_less)

declare walk_labels.simps [simp del]

definition lookup_domain :: "matcher \<Rightarrow> string \<Rightarrow> u32 option \<Rightarrow> client_context \<Rightarrow> match_decision option" where
  "lookup_domain self domain qbit ctx =
     (let query = (case strip_suffix ''.'' domain of Some q \<Rightarrow> q | None \<Rightarrow> domain)
      in walk_labels self query 0 qbit ctx None)"

definition lookup_in :: "matcher \<Rightarrow> string \<Rightarrow> query_type \<Rightarrow> client_context \<Rightarrow> match_decision option" where
  "lookup_in self domain qtype ctx = lookup_domain self domain (Some (qtype_bit qtype)) ctx"

definition lookup :: "matcher \<Rightarrow> string \<Rightarrow> query_type \<Rightarrow> match_decision option" where
  "lookup self domain qtype = lookup_in self domain qtype default_context"

definition lookup_host_in :: "matcher \<Rightarrow> string \<Rightarrow> client_context \<Rightarrow> match_decision option" where
  "lookup_host_in self host ctx = lookup_domain self host None ctx"

definition lookup_host :: "matcher \<Rightarrow> string \<Rightarrow> match_decision option" where
  "lookup_host self host = lookup_host_in self host default_context"

section \<open>HTTP\<close>

text \<open>The lookup also updates the URL tier's counter of exhausted lookups.\<close>

definition lookup_http_in ::
  "memchr_lib \<Rightarrow> matcher \<Rightarrow> http_request \<Rightarrow> client_context \<Rightarrow> (match_decision \<times> matcher) option" where
  "lookup_http_in lib self request ctx = do {
     (d, url) \<leftarrow> url_lookup lib (mt_url self) request ctx;
     let self = self\<lparr> mt_url := url \<rparr>;
     case d of
       UAllow index \<Rightarrow> Some (MAllow (RuleRef (index OR URL_TIER)), self)
     | _ \<Rightarrow> do {
         let blocked = (case d of UBlock index \<Rightarrow> Some (RuleRef (index OR URL_TIER)) | _ \<Rightarrow> None);
         host \<leftarrow> lookup_domain self (req_host request) None ctx;
         Some (case host of
                 MAllow rule \<Rightarrow> MAllow rule
               | MBlock rule \<Rightarrow> MBlock (case blocked of Some r \<Rightarrow> r | None \<Rightarrow> rule)
               | MPass \<Rightarrow> (case blocked of Some r \<Rightarrow> MBlock r | None \<Rightarrow> MPass), self)
       }
   }"

definition lookup_http :: "memchr_lib \<Rightarrow> matcher \<Rightarrow> http_request \<Rightarrow> (match_decision \<times> matcher) option" where
  "lookup_http lib self request = lookup_http_in lib self request default_context"

section \<open>Reporting\<close>

definition rewrite_of :: "matcher \<Rightarrow> rule_ref \<Rightarrow> string option option" where
  "rewrite_of self r =
     (if is_url_rule r then Some None
      else do {
        record \<leftarrow> index_at (mt_records self) (unat (ref_index r));
        Some (if dm_has_rewrite record then mt_rewrite self (ref_index r) else None)
      })"

definition PLAIN_RULE_MAX :: nat where
  "PLAIN_RULE_MAX = 2 + 2 + 255 + 1"

text \<open>\<open>buffer[len..len + part.len()].copy_from_slice(part)\<close>: past the end of the buffer is a panic.\<close>

definition push_part :: "string \<Rightarrow> string \<Rightarrow> string option" where
  "push_part part head = (if length head + length part \<le> PLAIN_RULE_MAX then Some (head @ part) else None)"

definition decisive_rule_of :: "matcher \<Rightarrow> rule_ref \<Rightarrow> decisive_rule option" where
  "decisive_rule_of self r =
     (let index = ref_index r
      in if is_url_rule r then do {
           list_id \<leftarrow> ui_list_id (mt_url self) index;
           list \<leftarrow> index_at (mt_lists self) (unat list_id);
           text \<leftarrow> rule_text (mt_url self) index;
           Some \<lparr> dec_list = list, dec_rule = text \<rparr>
         }
         else do {
           record \<leftarrow> index_at (mt_records self) (unat index);
           domain \<leftarrow> domain_of self index;
           head \<leftarrow> try_fold push_part [if dm_is_allow record then ''@@'' else [], ''||'', domain, ''^''] [];
           list \<leftarrow> index_at (mt_lists self) (unat (dm_list_id record));
           if dm_flags record AND (FLAG_DNSTYPE OR FLAG_REWRITE OR FLAG_CLIENT) = 0
           then Some \<lparr> dec_list = list, dec_rule = head \<rparr>
           else do {
             st \<leftarrow> (if dm_has_dnstype record
                    then map_option (\<lambda>(_, raw). push_option (head, CHR ''$'') (''dnstype='' @ raw)) (mt_dnstype self index)
                    else Some (head, CHR ''$''));
             st \<leftarrow> (if dm_has_rewrite record
                    then map_option (\<lambda>raw. push_option st (''dnsrewrite='' @ raw)) (mt_rewrite self index)
                    else Some st);
             st \<leftarrow> (if dm_has_client record
                    then map_option (\<lambda>scope. push_option st (''client='' @ cs_raw scope)) (map_of (mt_clients self) index)
                    else Some st);
             Some \<lparr> dec_list = list, dec_rule = fst st \<rparr>
           }
         })"

definition materialize :: "matcher \<Rightarrow> match_decision \<Rightarrow> verdict option" where
  "materialize self d =
     (case d of MAllow rule \<Rightarrow> map_option Allow (decisive_rule_of self rule)
      | MBlock rule \<Rightarrow> map_option Block (decisive_rule_of self rule)
      | MPass \<Rightarrow> Some Pass)"

definition verdict_dns :: "matcher \<Rightarrow> string \<Rightarrow> query_type \<Rightarrow> verdict option" where
  "verdict_dns self domain qtype = Option.bind (lookup self domain qtype) (materialize self)"

definition verdict_http :: "memchr_lib \<Rightarrow> matcher \<Rightarrow> http_request \<Rightarrow> verdict option" where
  "verdict_http lib self request = do {
     (d, self) \<leftarrow> lookup_http lib self request;
     materialize self d
   }"

section \<open>The slot table\<close>

definition dsem_name :: "dom_sem \<Rightarrow> string" where
  "dsem_name sem = fst (snd sem)"

definition slot_entry :: "(dom_sem \<times> u16) list \<Rightarrow> nat \<Rightarrow> u32" where
  "slot_entry A i = pack_slot (tag_of (hash_domain (dsem_name (fst (A ! i))))) (of_nat i)"

definition slot_index :: "u32 \<Rightarrow> nat" where
  "slot_index e = unat (e AND INDEX_MASK)"

definition slot_key :: "(dom_sem \<times> u16) list \<Rightarrow> u32 \<Rightarrow> u64" where
  "slot_key A e = hash_domain (dsem_name (fst (A ! slot_index e)))"

lemma slot_entry_parts:
  assumes "mb_inv self A" "i < length A"
  shows "slot_entry A i AND INDEX_MASK = of_nat i" "slot_index (slot_entry A i) = i"
    "drop_bit INDEX_BITS (slot_entry A i) = tag_of (hash_domain (dsem_name (fst (A ! i))))" "slot_entry A i \<noteq> EMPTY"
  using small_index [OF assms] pack_slot_index pack_slot_tag pack_slot_not_EMPTY
  by (simp_all add: slot_entry_def slot_index_def)

text \<open>What \<open>build\<close> makes of a builder.\<close>

definition built :: "matcher_builder \<Rightarrow> (dom_sem \<times> u16) list \<Rightarrow> matcher \<Rightarrow> bool" where
  "built self A mt \<longleftrightarrow>
     mt_arena mt = mb_arena self \<and> mt_records mt = mb_records self \<and> mt_lists mt = mb_lists self \<and>
     mt_dnstype mt = mb_dnstype self \<and> mt_rewrite mt = mb_rewrite self \<and> mt_clients mt = mb_clients self \<and>
     mt_policy_mask mt =
       (if list_all (\<lambda>m. m = mb_policy_universe self) (mb_record_policy self) then [] else mb_record_policy self) \<and>
     length (mt_slots mt) = mt_slot_cap mt \<and> length A < mt_slot_cap mt \<and>
     table_inv EMPTY (\<lambda>cap e. fastrange (slot_key A e) cap) (mt_slots mt) (map (slot_entry A) [0..<length A])"

lemma fill_slot_step:
  assumes inv: "mb_inv self A" and x: "(i, r) \<in> set (enumerate 0 (mb_records self))"
  shows "fill_slot self (i, r) slots
    = insert_probe EMPTY slots (fastrange (slot_key A (slot_entry A i)) (length slots)) (slot_entry A i)"
proof -
  have i: "i < length A" and r: "index_at (mb_records self) i = Some r"
    using x inv by (auto simp: in_set_enumerate_eq mb_inv_def)
  have "dom_sem_at self i = Some (fst (A ! i))" using inv i by (simp add: mb_inv_def)
  then obtain domain where d: "dom_slice (mb_arena self) r = Some domain" "dsem_name (fst (A ! i)) = lower domain"
    using r by (cases "fst (A ! i)") (auto simp: dom_sem_at_def dsem_name_def split: Option.bind_splits)
  have "hash_domain (dsem_name (fst (A ! i))) = hash_domain domain" by (simp add: d(2) hash_domain_lower)
  with d(1) slot_entry_parts(2) [OF inv i] show ?thesis
    by (simp add: fill_slot_def slot_key_def slot_entry_def Let_def)
qed

lemma build_ok:
  assumes inv: "mb_inv self A" and url: "url_build (mb_url self) (mb_policy_universe self) = Some idx"
  shows "\<exists>mt. build self = Some mt \<and> built self A mt \<and> mt_url mt = idx"
proof -
  let ?n = "length A" and ?cap = "table_slots (length A)" and ?es = "map (slot_entry A) [0..<length A]"
  have len: "length (mb_records self) = ?n" "int ?n \<le> 16777215" using inv by (simp_all add: mb_inv_def MAX_RECORDS_eq)
  have room: "?n < ?cap" using len(2) by (intro table_slots_room) (simp add: USIZE_MAX_def)
  have "map (\<lambda>(i, _). slot_entry A i) (enumerate 0 (mb_records self)) = map (slot_entry A) (map fst (enumerate 0 (mb_records self)))"
    unfolding map_map by (rule map_cong) auto
  then have es: "?es = map (\<lambda>(i, _). slot_entry A i) (enumerate 0 (mb_records self))" by (simp add: len)
  have fold: "try_fold (fill_slot self) (enumerate 0 (mb_records self)) T
      = try_fold (\<lambda>e T. insert_probe EMPTY T (fastrange (slot_key A e) (length T)) e) ?es T" for T
    unfolding es try_fold_map by (rule try_fold_cong) (use fill_slot_step [OF inv] in auto)
  have ne: "\<forall>e\<in>set ?es. e \<noteq> EMPTY" using slot_entry_parts(4) [OF inv] by auto
  obtain T where T: "try_fold (fill_slot self) (enumerate 0 (mb_records self)) (replicate ?cap EMPTY) = Some T"
    "table_inv EMPTY (\<lambda>cap e. fastrange (slot_key A e) cap) T ?es" "length T = ?cap"
    using probing.inv_insert_all [OF ne probing.inv_empty [of "slot_key A" ?cap]] room
    unfolding fold by auto
  with url len room show ?thesis by (auto simp: build_def built_def Let_def)
qed

section \<open>What one compiled rule means\<close>

definition dsem_allow :: "dom_sem \<Rightarrow> bool" where
  "dsem_allow sem \<longleftrightarrow> fst sem AND FLAG_ALLOW \<noteq> 0"

definition dsem_applies :: "dom_sem \<Rightarrow> bool \<Rightarrow> u32 option \<Rightarrow> client_context \<Rightarrow> bool" where
  "dsem_applies = (\<lambda>(flags, _, types, rewrite, client) sub qbit ctx.
     (\<not> sub \<or> flags AND FLAG_SUBDOMAINS \<noteq> 0) \<and>
     (case types of None \<Rightarrow> True
      | Some raw \<Rightarrow> (case qbit of None \<Rightarrow> False | Some b \<Rightarrow> parse_dnstype_mask raw AND b \<noteq> 0)) \<and>
     \<not> (rewrite \<noteq> None \<and> qbit = None) \<and>
     (case client of None \<Rightarrow> True
      | Some raw \<Rightarrow> (case client_scope_parse raw of None \<Rightarrow> False | Some scope \<Rightarrow> admits scope (ctx_ip ctx) (ctx_name ctx))))"

definition live_at :: "(dom_sem \<times> u16) list \<Rightarrow> bool \<Rightarrow> u32 option \<Rightarrow> client_context \<Rightarrow> nat \<Rightarrow> bool" where
  "live_at A sub qbit ctx i \<longleftrightarrow>
     snd (A ! i) AND ctx_policy_bit ctx \<noteq> 0 \<and> dsem_applies (fst (A ! i)) sub qbit ctx"

lemma visible_ok:
  assumes inv: "mb_inv self A" and bt: "built self A mt" and i: "i < length A"
    and full: "mb_policy_universe self AND ctx_policy_bit ctx \<noteq> 0"
  shows "visible mt (of_nat i) ctx = Some (snd (A ! i) AND ctx_policy_bit ctx \<noteq> 0)"
proof (cases "list_all (\<lambda>m. m = mb_policy_universe self) (mb_record_policy self)")
  case True
  then have "snd (A ! i) = mb_policy_universe self" using inv i by (auto simp: mb_inv_def list_all_iff)
  with True bt full show ?thesis by (simp add: visible_def built_def)
next
  case False
  with bt have "mt_policy_mask mt = mb_record_policy self" by (simp add: built_def)
  with inv i small_index(1) [OF inv i] show ?thesis by (auto simp: visible_def mb_inv_def index_at_def)
qed

lemma record_applies_ok:
  assumes inv: "mb_inv self A" and bt: "built self A mt" and i: "i < length A"
    and full: "mb_policy_universe self AND ctx_policy_bit ctx \<noteq> 0"
    and r: "index_at (mt_records mt) i = Some r"
  shows "record_applies mt (of_nat i) r sub qbit ctx = Some (live_at A sub qbit ctx i)"
    and "dm_is_allow r = dsem_allow (fst (A ! i))"
proof -
  from inv have "\<forall>i<length A. \<exists>rule. dom_accepted rule \<and> fst (A ! i) = dom_sem_of rule"
    unfolding mb_inv_def by (elim conjE)
  with i obtain rule where rule: "fst (A ! i) = dom_sem_of rule" by blast
  from dom_record_at [OF inv i rule] obtain r' where r': "index_at (mb_records self) i = Some r'"
    "dm_flags r' = dom_flags rule" "map_option snd (mb_dnstype self (of_nat i)) = dr_dns_types rule"
    "mb_rewrite self (of_nat i) = dr_dns_rewrite rule" "map_option cs_raw (map_of (mb_clients self) (of_nat i)) = dr_client rule"
    by blast
  have rr: "r' = r" using r r'(1) bt by (simp add: built_def)
  note f = dom_flags_fields [OF r'(2) [unfolded rr]]
  have sem: "fst (A ! i) = (dm_flags r, lower (dr_domain rule), dr_dns_types rule, dr_dns_rewrite rule, dr_client rule)"
    using rule r'(2) rr by (simp add: dom_sem_of_def)
  show "dm_is_allow r = dsem_allow (fst (A ! i))" by (simp add: sem dsem_allow_def dm_is_allow_def)
  have mask: "m = parse_dnstype_mask raw" if "mb_dnstype self idx = Some (m, raw)" for idx m raw
    using inv that unfolding mb_inv_def by blast
  have parse: "client_scope_parse (cs_raw scope) = Some scope" if "map_of (mb_clients self) idx = Some scope" for idx scope
    using inv that unfolding mb_inv_def by blast
  have types: "(if \<not> dm_has_dnstype r then Some True else case qbit of None \<Rightarrow> Some False
        | Some b \<Rightarrow> map_option (\<lambda>(m, _). m AND b \<noteq> 0) (mt_dnstype mt (of_nat i)))
      = Some (case dr_dns_types rule of None \<Rightarrow> True
        | Some raw \<Rightarrow> (case qbit of None \<Rightarrow> False | Some b \<Rightarrow> parse_dnstype_mask raw AND b \<noteq> 0))"
    using r'(3) [symmetric] f(3) bt mask [of "of_nat i"]
    by (cases "mb_dnstype self (of_nat i)"; cases qbit) (auto simp: built_def)
  have client: "(if dm_has_client r then client_admits mt (of_nat i) ctx else Some True)
      = Some (case dr_client rule of None \<Rightarrow> True
      | Some raw \<Rightarrow> (case client_scope_parse raw of None \<Rightarrow> False | Some scope \<Rightarrow> admits scope (ctx_ip ctx) (ctx_name ctx)))"
    using r'(5) [symmetric] f(5) bt parse [of "of_nat i"]
    by (cases "map_of (mb_clients self) (of_nat i)") (auto simp: built_def client_admits_def)
  show "record_applies mt (of_nat i) r sub qbit ctx = Some (live_at A sub qbit ctx i)"
    unfolding record_applies_def types client visible_ok [OF inv bt i full]
    by (auto simp: live_at_def sem dsem_applies_def f(4) dm_include_subdomains_def and_also_def)
qed

section \<open>The walk decides over the hits in order\<close>

text \<open>A walk that stops at the first exception and remembers the first block.\<close>

lemma fold_exit_decide:
  assumes "\<And>i b. i \<in> set is \<Longrightarrow> step i b
    = Some (if \<not> app i then Inr b else if alw i then Inl (f i) else if b = None then Inr (Some (f i)) else Inr b)"
  shows "fold_exit step is b = Some (case find alw (filter app is) of
      Some i \<Rightarrow> Inl (f i)
    | None \<Rightarrow> Inr (case b of Some x \<Rightarrow> Some x
                   | None \<Rightarrow> (case filter app is of [] \<Rightarrow> None | i # _ \<Rightarrow> Some (f i))))"
  using assms
proof (induction "is" arbitrary: b)
  case (Cons i rest)
  have IH: "fold_exit step rest b = Some (case find alw (filter app rest) of
      Some i \<Rightarrow> Inl (f i)
    | None \<Rightarrow> Inr (case b of Some x \<Rightarrow> Some x
                   | None \<Rightarrow> (case filter app rest of [] \<Rightarrow> None | i # _ \<Rightarrow> Some (f i))))" for b
    by (rule Cons.IH) (use Cons.prems in auto)
  have "step i b = Some (if \<not> app i then Inr b else if alw i then Inl (f i)
      else if b = None then Inr (Some (f i)) else Inr b)" by (rule Cons.prems) simp
  then show ?case by (cases b) (auto simp: IH split: option.splits list.splits)
qed (simp split: option.splits)

text \<open>The records of one name, in compile order, that take part.\<close>

definition hits_at :: "(dom_sem \<times> u16) list \<Rightarrow> string \<Rightarrow> bool \<Rightarrow> u32 option \<Rightarrow> client_context \<Rightarrow> nat list" where
  "hits_at A name sub qbit ctx =
     filter (\<lambda>i. dsem_name (fst (A ! i)) = lower name \<and> live_at A sub qbit ctx i) [0..<length A]"

lemma slot_step_ok:
  assumes inv: "mb_inv self A" and bt: "built self A mt" and i: "i < length A"
    and full: "mb_policy_universe self AND ctx_policy_bit ctx \<noteq> 0"
  shows "slot_step mt name (tag_of (hash_domain name)) sub qbit ctx (slot_entry A i) b =
    Some (if \<not> (dsem_name (fst (A ! i)) = lower name \<and> live_at A sub qbit ctx i) then Inr b
          else if dsem_allow (fst (A ! i)) then Inl (of_nat i)
          else if b = None then Inr (Some (of_nat i)) else Inr b)"
proof -
  note e = slot_entry_parts [OF inv i]
  have "dom_sem_at self i = Some (fst (A ! i))" using inv i by (simp add: mb_inv_def)
  then obtain r domain where d: "index_at (mb_records self) i = Some r" "dom_slice (mb_arena self) r = Some domain"
    "dsem_name (fst (A ! i)) = lower domain"
    by (cases "fst (A ! i)") (auto simp: dom_sem_at_def dsem_name_def split: Option.bind_splits)
  have r: "index_at (mt_records mt) i = Some r" using d(1) bt by (simp add: built_def)
  have dom: "domain_of mt (of_nat i) = Some domain"
    using d r bt small_index(1) [OF inv i] by (simp add: domain_of_def built_def)
  have same: "eq_ignore_ascii_case domain name \<longleftrightarrow> dsem_name (fst (A ! i)) = lower name"
    by (simp add: d(3) eq_ignore_ascii_case_def)
  show ?thesis
  proof (cases "dsem_name (fst (A ! i)) = lower name")
    case True
    then have "hash_domain (dsem_name (fst (A ! i))) = hash_domain name" by (simp add: hash_domain_lower)
    with e r record_applies_ok [OF inv bt i full r] small_index(1) [OF inv i] dom same True show ?thesis
      by (simp add: slot_step_def Let_def)
  next
    case False
    with e dom same show ?thesis by (simp add: slot_step_def Let_def)
  qed
qed

lemma walk_suffix_ok:
  assumes inv: "mb_inv self A" and bt: "built self A mt"
    and full: "mb_policy_universe self AND ctx_policy_bit ctx \<noteq> 0"
  shows "walk_suffix mt name sub qbit ctx b =
    Some (case find (\<lambda>i. dsem_allow (fst (A ! i))) (hits_at A name sub qbit ctx) of
      Some i \<Rightarrow> Inl (of_nat i)
    | None \<Rightarrow> Inr (case b of Some x \<Rightarrow> Some x
                   | None \<Rightarrow> (case hits_at A name sub qbit ctx of [] \<Rightarrow> None | i # _ \<Rightarrow> Some (of_nat i))))"
proof -
  let ?T = "mt_slots mt" and ?es = "map (slot_entry A) [0..<length A]" and ?h = "hash_domain name"
  let ?home = "fastrange ?h (mt_slot_cap mt)"
  let ?step = "slot_step mt name (tag_of ?h) sub qbit ctx"
  let ?P = "\<lambda>e. dsem_name (fst (A ! slot_index e)) = lower name"
  have cap: "length ?T = mt_slot_cap mt" and room: "length A < length ?T"
    and tab: "table_inv EMPTY (\<lambda>cap e. fastrange (slot_key A e) cap) ?T ?es"
    using bt by (simp_all add: built_def)
  have home: "?home < length ?T" unfolding cap by (rule fastrange_less) (use room cap in simp)
  have blank: "EMPTY \<in> set ?T" using probing.has_blank [OF tab] room by simp
  have sel: "filter ?P (run EMPTY ?T ?home) = filter ?P ?es"
  proof (rule probing.run_select [OF tab home])
    fix e assume "?P e"
    then have "slot_key A e = ?h" by (simp add: slot_key_def hash_domain_lower)
    then show "fastrange (slot_key A e) (length ?T) = ?home" by (simp add: cap)
  qed
  have step: "?step (slot_entry A i) b = Some (if \<not> (dsem_name (fst (A ! i)) = lower name \<and> live_at A sub qbit ctx i) then Inr b
          else if dsem_allow (fst (A ! i)) then Inl (of_nat i)
          else if b = None then Inr (Some (of_nat i)) else Inr b)" if "i < length A" for i b
    by (rule slot_step_ok [OF inv bt that full])
  have "fold_exit ?step (run EMPTY ?T ?home) b = fold_exit ?step (filter ?P (run EMPTY ?T ?home)) b"
  proof (rule fold_exit_filter)
    fix e s assume "e \<in> set (run EMPTY ?T ?home)" "\<not> ?P e"
    then obtain i where "i < length A" "e = slot_entry A i" "dsem_name (fst (A ! i)) \<noteq> lower name"
      using probing.run_subset [OF tab] slot_entry_parts(2) [OF inv] by fastforce
    then show "?step e s = Some (Inr s)" by (simp add: step)
  qed
  also have "\<dots> = fold_exit ?step ?es b"
    unfolding sel
  proof (rule fold_exit_filter [symmetric])
    fix e s assume "e \<in> set ?es" "\<not> ?P e"
    then obtain i where "i < length A" "e = slot_entry A i" "dsem_name (fst (A ! i)) \<noteq> lower name"
      using slot_entry_parts(2) [OF inv] by fastforce
    then show "?step e s = Some (Inr s)" by (simp add: step)
  qed
  also have "\<dots> = Some (case find (\<lambda>i. dsem_allow (fst (A ! i))) (hits_at A name sub qbit ctx) of
      Some i \<Rightarrow> Inl (of_nat i)
    | None \<Rightarrow> Inr (case b of Some x \<Rightarrow> Some x
                   | None \<Rightarrow> (case hits_at A name sub qbit ctx of [] \<Rightarrow> None | i # _ \<Rightarrow> Some (of_nat i))))"
    unfolding fold_exit_map hits_at_def by (rule fold_exit_decide) (simp add: step)
  finally show ?thesis
    unfolding walk_suffix_def Let_def probe_total [OF home blank] by (auto split: option.splits list.splits)
qed

text \<open>The names a query stands under: itself and what follows each of its dots.\<close>

function label_suffixes :: "string \<Rightarrow> string list" where
  "label_suffixes q =
     q # (case position (\<lambda>b. b = CHR ''.'') q of None \<Rightarrow> [] | Some rel \<Rightarrow> label_suffixes (drop (rel + 1) q))"
  by pat_completeness auto
termination
  by (relation "measure length") (auto dest!: position_less)

declare label_suffixes.simps [simp del]

definition hits :: "(dom_sem \<times> u16) list \<Rightarrow> string \<Rightarrow> string list \<Rightarrow> u32 option \<Rightarrow> client_context \<Rightarrow> nat list" where
  "hits A query names qbit ctx = concat (map (\<lambda>s. hits_at A s (length s \<noteq> length query) qbit ctx) names)"

definition decide_hits :: "(dom_sem \<times> u16) list \<Rightarrow> u32 option \<Rightarrow> nat list \<Rightarrow> match_decision" where
  "decide_hits A b is =
     (case find (\<lambda>i. dsem_allow (fst (A ! i))) is of
        Some i \<Rightarrow> MAllow (RuleRef (of_nat i))
      | None \<Rightarrow> (case b of Some x \<Rightarrow> MBlock (RuleRef x)
                 | None \<Rightarrow> (case is of [] \<Rightarrow> MPass | i # _ \<Rightarrow> MBlock (RuleRef (of_nat i)))))"

lemma find_append: "find P (xs @ ys) = (case find P xs of Some x \<Rightarrow> Some x | None \<Rightarrow> find P ys)"
  by (induction xs) auto

lemma walk_labels_ok:
  assumes inv: "mb_inv self A" and bt: "built self A mt"
    and full: "mb_policy_universe self AND ctx_policy_bit ctx \<noteq> 0" and start: "start \<le> length query"
  shows "walk_labels mt query start qbit ctx b
    = Some (decide_hits A b (hits A query (label_suffixes (drop start query)) qbit ctx))"
  using start
proof (induction "length query - start" arbitrary: start b rule: less_induct)
  case less
  let ?s = "drop start query"
  let ?H = "hits_at A ?s (length ?s \<noteq> length query) qbit ctx"
  have s: "slice query start (length query) = Some ?s" using less.prems by (simp add: slice_Some)
  note w = walk_suffix_ok [OF inv bt full, of ?s "length ?s \<noteq> length query" qbit b]
  let ?b = "case b of Some x \<Rightarrow> Some x | None \<Rightarrow> (case ?H of [] \<Rightarrow> None | i # _ \<Rightarrow> Some (of_nat i))"
  show ?case
  proof (cases "find (\<lambda>i. dsem_allow (fst (A ! i))) ?H")
    case (Some i)
    then have "walk_labels mt query start qbit ctx b = Some (MAllow (RuleRef (of_nat i)))"
      using s w by (subst walk_labels.simps) simp
    with Some show ?thesis
      by (subst label_suffixes.simps) (simp add: hits_def decide_hits_def find_append)
  next
    case none: None
    then have ws: "walk_suffix mt ?s (length ?s \<noteq> length query) qbit ctx b = Some (Inr ?b)" using w by simp
    show ?thesis
    proof (cases "position (\<lambda>b. b = CHR ''.'') ?s")
      case None
      have "walk_labels mt query start qbit ctx b = Some (case ?b of Some idx \<Rightarrow> MBlock (RuleRef idx) | None \<Rightarrow> MPass)"
        using s ws None by (subst walk_labels.simps) simp
      with None none show ?thesis
        by (subst label_suffixes.simps) (simp add: hits_def decide_hits_def split: option.splits list.splits)
    next
      case (Some rel)
      then have rel: "start + (rel + 1) \<le> length query" by (auto dest!: position_less)
      have "walk_labels mt query start qbit ctx b = walk_labels mt query (start + (rel + 1)) qbit ctx ?b"
        using s ws Some by (subst walk_labels.simps) simp
      also have "\<dots> = Some (decide_hits A ?b (hits A query (label_suffixes (drop (start + (rel + 1)) query)) qbit ctx))"
        using rel by (intro less) auto
      also have "label_suffixes ?s = ?s # label_suffixes (drop (start + (rel + 1)) query)"
        using Some by (subst label_suffixes.simps) (simp add: add.commute add.left_commute)
      then have "decide_hits A ?b (hits A query (label_suffixes (drop (start + (rel + 1)) query)) qbit ctx)
          = decide_hits A b (hits A query (label_suffixes ?s) qbit ctx)"
        using none by (simp add: hits_def decide_hits_def find_append split: option.splits list.splits)
      finally show ?thesis .
    qed
  qed
qed

definition query_name :: "string \<Rightarrow> string" where
  "query_name domain = (case strip_suffix ''.'' domain of Some q \<Rightarrow> q | None \<Rightarrow> domain)"

lemma lookup_domain_hits:
  assumes "mb_inv self A" "built self A mt" "mb_policy_universe self AND ctx_policy_bit ctx \<noteq> 0"
  shows "lookup_domain mt domain qbit ctx =
    Some (decide_hits A None (hits A (query_name domain) (label_suffixes (query_name domain)) qbit ctx))"
  using walk_labels_ok [OF assms, of 0 "query_name domain" qbit None]
  by (simp add: lookup_domain_def query_name_def Let_def)
end
