(* ===== verification/Matcher_Spec.thy ===== *)
theory Matcher_Spec
  imports Matcher
begin

text \<open>
  What the domain tier decides, said over the rules of the lists: a rule covers a name when it is
  that name, or a parent of it and the rule takes subdomains; an exception that applies wins over
  every block, and among the rules of the winning kind the reported one has the longest name.
\<close>

section \<open>Rules and names\<close>

definition name_covers :: "bool \<Rightarrow> string \<Rightarrow> string \<Rightarrow> bool" where
  "name_covers sub domain query \<longleftrightarrow>
     lower domain = lower query \<or> sub \<and> suffix (CHR ''.'' # lower domain) (lower query)"

definition dom_rule_applies :: "domain_rule \<Rightarrow> string \<Rightarrow> u32 option \<Rightarrow> client_context \<Rightarrow> bool" where
  "dom_rule_applies rule query qbit ctx \<longleftrightarrow>
     name_covers (dr_include_subdomains rule) (dr_domain rule) query \<and>
     (case dr_dns_types rule of None \<Rightarrow> True
      | Some raw \<Rightarrow> (case qbit of None \<Rightarrow> False | Some b \<Rightarrow> parse_dnstype_mask raw AND b \<noteq> 0)) \<and>
     \<not> (dr_dns_rewrite rule \<noteq> None \<and> qbit = None) \<and>
     (case dr_client rule of None \<Rightarrow> True
      | Some raw \<Rightarrow> (case client_scope_parse raw of None \<Rightarrow> False | Some scope \<Rightarrow> admits scope (ctx_ip ctx) (ctx_name ctx)))"

type_synonym listed_rule = "u16 \<times> domain_rule \<times> u16"

definition dom_applicable :: "string \<Rightarrow> u32 option \<Rightarrow> client_context \<Rightarrow> listed_rule \<Rightarrow> bool" where
  "dom_applicable query qbit ctx = (\<lambda>(_, rule, m).
     dom_accepted rule \<and> m AND ctx_policy_bit ctx \<noteq> 0 \<and> dom_rule_applies rule query qbit ctx)"

definition dom_hits :: "listed_rule list \<Rightarrow> string \<Rightarrow> u32 option \<Rightarrow> client_context \<Rightarrow> bool \<Rightarrow> domain_rule list" where
  "dom_hits rules query qbit ctx allow =
     filter (\<lambda>rule. (dr_action rule = AllowRule) = allow)
       (map (\<lambda>(_, rule, _). rule) (filter (dom_applicable query qbit ctx) rules))"

definition dom_reference :: "listed_rule list \<Rightarrow> string \<Rightarrow> u32 option \<Rightarrow> client_context \<Rightarrow> bool option" where
  "dom_reference rules query qbit ctx =
     (if dom_hits rules query qbit ctx True \<noteq> [] then Some True
      else if dom_hits rules query qbit ctx False \<noteq> [] then Some False else None)"

definition match_class :: "match_decision \<Rightarrow> bool option" where
  "match_class d = (case d of MAllow _ \<Rightarrow> Some True | MBlock _ \<Rightarrow> Some False | MPass \<Rightarrow> None)"

definition longest :: "domain_rule list \<Rightarrow> domain_rule \<Rightarrow> bool" where
  "longest rules rule \<longleftrightarrow> rule \<in> set rules \<and> list_all (\<lambda>r. length (dr_domain r) \<le> length (dr_domain rule)) rules"

definition dom_entries :: "listed_rule list \<Rightarrow> (dom_sem \<times> u16) list" where
  "dom_entries rules = map (\<lambda>(_, rule, m). (dom_sem_of rule, m)) (filter (\<lambda>(_, rule, _). dom_accepted rule) rules)"

section \<open>The suffixes the walk visits\<close>

lemma set_label_suffixes: "s \<in> set (label_suffixes q) \<longleftrightarrow> s = q \<or> (\<exists>p. q = p @ CHR ''.'' # s)"
proof (induction q rule: label_suffixes.induct)
  case (1 q)
  show ?case
  proof (cases "position (\<lambda>b. b = CHR ''.'') q")
    case None
    then have "CHR ''.'' \<notin> set q" by (auto simp: position_None)
    with None show ?thesis by (subst label_suffixes.simps) auto
  next
    case (Some rel)
    then have rel: "rel < length q" "q ! rel = CHR ''.''" "\<And>i. i < rel \<Longrightarrow> q ! i \<noteq> CHR ''.''"
      by (auto simp: position_Some)
    have q: "q = take rel q @ CHR ''.'' # drop (rel + 1) q" using id_take_nth_drop [OF rel(1)] rel(2) by simp
    note IH = "1.IH" [OF Some]
    have "(\<exists>p. q = p @ CHR ''.'' # s) \<longleftrightarrow> s = drop (rel + 1) q \<or> (\<exists>p. drop (rel + 1) q = p @ CHR ''.'' # s)"
    proof
      assume "\<exists>p. q = p @ CHR ''.'' # s"
      then obtain p where p: "q = p @ CHR ''.'' # s" by blast
      then have "rel \<le> length p" using rel(3) [of "length p"] by (cases "rel \<le> length p") (auto simp: nth_append)
      then consider "rel = length p" | "rel < length p" by linarith
      then show "s = drop (rel + 1) q \<or> (\<exists>p. drop (rel + 1) q = p @ CHR ''.'' # s)"
      proof cases
        case 2
        then have "drop (rel + 1) q = drop (rel + 1) p @ CHR ''.'' # s" using p by simp
        then show ?thesis by blast
      qed (use p in simp)
    next
      assume "s = drop (rel + 1) q \<or> (\<exists>p. drop (rel + 1) q = p @ CHR ''.'' # s)"
      then show "\<exists>p. q = p @ CHR ''.'' # s"
      proof
        assume "\<exists>p. drop (rel + 1) q = p @ CHR ''.'' # s"
        then obtain p where "drop (rel + 1) q = p @ CHR ''.'' # s" by blast
        then have "q = (take rel q @ CHR ''.'' # p) @ CHR ''.'' # s" using q by simp
        then show ?thesis by blast
      qed (use q in blast)
    qed
    with Some IH show ?thesis by (subst label_suffixes.simps) simp
  qed
qed

lemma label_suffixes_shrink: "sorted_wrt (\<lambda>s t. length t < length s) (label_suffixes q)"
proof (induction q rule: label_suffixes.induct)
  case (1 q)
  have "length s < length q" if "position (\<lambda>b. b = CHR ''.'') q = Some rel" "s \<in> set (label_suffixes (drop (rel + 1) q))" for rel s
    using that by (auto simp: set_label_suffixes dest!: position_less arg_cong [where f = length])
  with 1 show ?case by (subst label_suffixes.simps) (auto split: option.splits)
qed

lemma suffix_lower_dot:
  "suffix (CHR ''.'' # lower s) (lower q) \<longleftrightarrow> (\<exists>p t. q = p @ CHR ''.'' # t \<and> lower t = lower s)"
proof
  assume "suffix (CHR ''.'' # lower s) (lower q)"
  then obtain z where "lower q = z @ CHR ''.'' # lower s" by (auto simp: suffix_def)
  then obtain p c t where "q = p @ c # t" "to_ascii_lowercase c = CHR ''.''" "lower t = lower s"
    by (auto simp: map_eq_append_conv map_eq_Cons_conv)
  then show "\<exists>p t. q = p @ CHR ''.'' # t \<and> lower t = lower s" by (auto simp: lower_dot)
next
  assume "\<exists>p t. q = p @ CHR ''.'' # t \<and> lower t = lower s"
  then obtain p t where "q = p @ CHR ''.'' # t" "lower t = lower s" by blast
  then have "lower q = lower p @ CHR ''.'' # lower s" by (simp add: lower_dot)
  then show "suffix (CHR ''.'' # lower s) (lower q)" by (auto simp: suffix_def)
qed

section \<open>The hits are the applicable rules, the longest names first\<close>

lemma set_hits:
  assumes sem: "fst (A ! i) = dom_sem_of rule"
  shows "i \<in> set (hits A q (label_suffixes q) qbit ctx) \<longleftrightarrow>
    i < length A \<and> snd (A ! i) AND ctx_policy_bit ctx \<noteq> 0 \<and> dom_rule_applies rule q qbit ctx"
proof -
  let ?rest = "(case dr_dns_types rule of None \<Rightarrow> True
      | Some raw \<Rightarrow> (case qbit of None \<Rightarrow> False | Some b \<Rightarrow> parse_dnstype_mask raw AND b \<noteq> 0)) \<and>
     \<not> (dr_dns_rewrite rule \<noteq> None \<and> qbit = None) \<and>
     (case dr_client rule of None \<Rightarrow> True
      | Some raw \<Rightarrow> (case client_scope_parse raw of None \<Rightarrow> False | Some scope \<Rightarrow> admits scope (ctx_ip ctx) (ctx_name ctx)))"
  let ?sub = "dr_include_subdomains rule" and ?d = "dr_domain rule"
  have sub: "dom_flags rule AND FLAG_SUBDOMAINS \<noteq> 0 \<longleftrightarrow> ?sub"
    using dom_flags_fields(2) [of "\<lparr> dm_dom_off = 0, dm_dom_len = 0, dm_flags = dom_flags rule, dm_list_id = 0 \<rparr>" rule]
    by (simp add: dm_include_subdomains_def)
  have live: "live_at A b qbit ctx i \<longleftrightarrow> snd (A ! i) AND ctx_policy_bit ctx \<noteq> 0 \<and> (\<not> b \<or> ?sub) \<and> ?rest" for b
    by (simp add: live_at_def sem dom_sem_of_def dsem_applies_def sub)
  have name: "dsem_name (fst (A ! i)) = lower ?d" by (simp add: sem dom_sem_of_def dsem_name_def)
  have cover: "(\<exists>s\<in>set (label_suffixes q). lower ?d = lower s \<and> (length s = length q \<or> ?sub)) \<longleftrightarrow> name_covers ?sub ?d q"
  proof
    assume "\<exists>s\<in>set (label_suffixes q). lower ?d = lower s \<and> (length s = length q \<or> ?sub)"
    then obtain s where s: "s = q \<or> (\<exists>p. q = p @ CHR ''.'' # s)" "lower ?d = lower s" "length s = length q \<or> ?sub"
      by (auto simp: set_label_suffixes)
    then have "?sub" if "s \<noteq> q" using that by auto
    with s show "name_covers ?sub ?d q" unfolding name_covers_def suffix_lower_dot by metis
  next
    assume "name_covers ?sub ?d q"
    then show "\<exists>s\<in>set (label_suffixes q). lower ?d = lower s \<and> (length s = length q \<or> ?sub)"
      unfolding name_covers_def suffix_lower_dot by (metis set_label_suffixes)
  qed
  have "i \<in> set (hits A q (label_suffixes q) qbit ctx) \<longleftrightarrow>
      i < length A \<and> (\<exists>s\<in>set (label_suffixes q). lower ?d = lower s \<and> live_at A (length s \<noteq> length q) qbit ctx i)"
    by (auto simp: hits_def hits_at_def name)
  also have "\<dots> \<longleftrightarrow> i < length A \<and> snd (A ! i) AND ctx_policy_bit ctx \<noteq> 0 \<and>
      (\<exists>s\<in>set (label_suffixes q). lower ?d = lower s \<and> (length s = length q \<or> ?sub)) \<and> ?rest"
    unfolding live by blast
  finally show ?thesis unfolding cover dom_rule_applies_def by blast
qed

lemma hits_longest_first:
  "sorted_wrt (\<lambda>i j. length (dsem_name (fst (A ! j))) \<le> length (dsem_name (fst (A ! i))))
     (hits A q (label_suffixes q) qbit ctx)"
proof -
  have len: "length (dsem_name (fst (A ! i))) = length s" if "i \<in> set (hits_at A s sub qbit ctx)" for i s sub
    using that by (auto simp: hits_at_def)
  have "sorted_wrt (\<lambda>i j. length (dsem_name (fst (A ! j))) \<le> length (dsem_name (fst (A ! i)))) (hits A q ss qbit ctx)"
    if "sorted_wrt (\<lambda>s t. length t < length s) ss" for ss
    using that
  proof (induction ss)
    case (Cons s ss)
    have "sorted_wrt (\<lambda>i j. length (dsem_name (fst (A ! j))) \<le> length (dsem_name (fst (A ! i)))) (hits_at A s b qbit ctx)" for b
      by (rule sorted_wrt_mono_rel [of _ "\<lambda>_ _. True"]) (auto simp: len sorted_wrt_true)
    moreover have "length (dsem_name (fst (A ! j))) \<le> length (dsem_name (fst (A ! i)))"
      if "i \<in> set (hits_at A s b qbit ctx)" "j \<in> set (hits A q ss qbit ctx)" for i j b
    proof -
      from that(2) obtain t c where "t \<in> set ss" "j \<in> set (hits_at A t c qbit ctx)" by (auto simp: hits_def)
      with Cons.prems len [OF that(1)] len [of j t c] show ?thesis by fastforce
    qed
    ultimately show ?case using Cons by (simp add: hits_def sorted_wrt_append)
  qed (simp add: hits_def)
  then show ?thesis using label_suffixes_shrink by blast
qed

section \<open>Against the lists\<close>

lemma dom_flags_of:
  "dsem_allow (dom_sem_of rule) \<longleftrightarrow> dr_action rule = AllowRule"
  "dom_flags rule AND FLAG_SUBDOMAINS \<noteq> 0 \<longleftrightarrow> dr_include_subdomains rule"
  using dom_flags_fields(1,2) [of "\<lparr> dm_dom_off = 0, dm_dom_len = 0, dm_flags = dom_flags rule, dm_list_id = 0 \<rparr>" rule]
  by (simp_all add: dm_is_allow_def dm_include_subdomains_def dsem_allow_def dom_sem_of_def)

lemma dom_sem_cong:
  assumes "dom_sem_of r1 = dom_sem_of r2"
  shows "dom_rule_applies r1 q qbit ctx = dom_rule_applies r2 q qbit ctx" "length (dr_domain r1) = length (dr_domain r2)"
    "dr_action r1 = AllowRule \<longleftrightarrow> dr_action r2 = AllowRule"
proof -
  have e: "dom_flags r1 = dom_flags r2" "lower (dr_domain r1) = lower (dr_domain r2)" "dr_dns_types r1 = dr_dns_types r2"
    "dr_dns_rewrite r1 = dr_dns_rewrite r2" "dr_client r1 = dr_client r2"
    using assms by (simp_all add: dom_sem_of_def)
  have "dr_include_subdomains r1 = dr_include_subdomains r2"
    using dom_flags_of(2) [of r1] dom_flags_of(2) [of r2] e(1) by simp
  with e show "dom_rule_applies r1 q qbit ctx = dom_rule_applies r2 q qbit ctx"
    by (simp add: dom_rule_applies_def name_covers_def)
  show "length (dr_domain r1) = length (dr_domain r2)" using arg_cong [OF e(2), of length] by simp
  show "dr_action r1 = AllowRule \<longleftrightarrow> dr_action r2 = AllowRule"
    using dom_flags_of(1) [of r1] dom_flags_of(1) [of r2] assms by simp
qed

lemma set_dom_hits:
  "rule \<in> set (dom_hits rules q qbit ctx a) \<longleftrightarrow>
     (\<exists>l m. (l, rule, m) \<in> set rules \<and> dom_applicable q qbit ctx (l, rule, m)) \<and> (dr_action rule = AllowRule) = a"
  by (force simp: dom_hits_def)

lemma hit_from_rules:
  assumes A: "A = fold merge_one (dom_entries rules) []" and i: "i \<in> set (hits A q (label_suffixes q) qbit ctx)"
  shows "\<exists>rule\<in>set (dom_hits rules q qbit ctx (dsem_allow (fst (A ! i)))). fst (A ! i) = dom_sem_of rule"
proof -
  let ?b = "ctx_policy_bit ctx"
  have len: "i < length A" "snd (A ! i) AND ?b \<noteq> 0" using i by (auto simp: hits_def hits_at_def live_at_def)
  then have "seen ?b (\<lambda>s. s = fst (A ! i)) A" unfolding seen_def by (auto intro!: bexI [of _ "A ! i"])
  then have "seen ?b (\<lambda>s. s = fst (A ! i)) (dom_entries rules)" unfolding A seen_fold by simp
  then obtain l rule m where x: "(l, rule, m) \<in> set rules" "dom_accepted rule" "m AND ?b \<noteq> 0" "fst (A ! i) = dom_sem_of rule"
    by (auto simp: seen_def dom_entries_def)
  have "dom_rule_applies rule q qbit ctx" using i set_hits [OF x(4)] by simp
  with x have "rule \<in> set (dom_hits rules q qbit ctx (dsem_allow (fst (A ! i))))"
    by (auto simp: set_dom_hits dom_applicable_def dom_flags_of)
  with x(4) show ?thesis by blast
qed

lemma hit_of_rule:
  assumes A: "A = fold merge_one (dom_entries rules) []" and r: "rule \<in> set (dom_hits rules q qbit ctx a)"
  shows "\<exists>i\<in>set (hits A q (label_suffixes q) qbit ctx). fst (A ! i) = dom_sem_of rule \<and> dsem_allow (fst (A ! i)) = a"
proof -
  let ?b = "ctx_policy_bit ctx"
  from r obtain l m where x: "(l, rule, m) \<in> set rules" "dom_accepted rule" "m AND ?b \<noteq> 0" "dom_rule_applies rule q qbit ctx"
    "(dr_action rule = AllowRule) = a" by (auto simp: set_dom_hits dom_applicable_def)
  then have "seen ?b (\<lambda>s. s = dom_sem_of rule) (dom_entries rules)" by (auto simp: seen_def dom_entries_def)
  then have "seen ?b (\<lambda>s. s = dom_sem_of rule) A" unfolding A seen_fold by simp
  then obtain i where i: "i < length A" "snd (A ! i) AND ?b \<noteq> 0" "fst (A ! i) = dom_sem_of rule"
    by (auto simp: seen_def in_set_conv_nth)
  then have "i \<in> set (hits A q (label_suffixes q) qbit ctx)" using x(4) set_hits by blast
  with i(3) x(5) show ?thesis by (auto simp: dom_flags_of)
qed

lemma find_first:
  assumes "find P xs = Some x" "sorted_wrt R xs" "\<And>a. R a a"
  shows "x \<in> set xs" "P x" "\<And>y. y \<in> set xs \<Longrightarrow> P y \<Longrightarrow> R x y"
  using assms by (induction xs) (auto split: if_splits)

text \<open>The reported compiled rule is, up to its identity, a longest of the class.\<close>

lemma decide_hits_ok:
  fixes q qbit ctx
  assumes A: "A = fold merge_one (dom_entries rules) []" and len: "length A < 2 ^ 32"
  defines "d \<equiv> decide_hits A None (hits A q (label_suffixes q) qbit ctx)"
  shows "match_class d = dom_reference rules q qbit ctx"
    and "d = MAllow (RuleRef i) \<Longrightarrow> unat i < length A \<and>
      (\<exists>rule. longest (dom_hits rules q qbit ctx True) rule \<and> fst (A ! unat i) = dom_sem_of rule)"
    and "d = MBlock (RuleRef i) \<Longrightarrow> unat i < length A \<and>
      (\<exists>rule. longest (dom_hits rules q qbit ctx False) rule \<and> fst (A ! unat i) = dom_sem_of rule)"
proof -
  let ?H = "hits A q (label_suffixes q) qbit ctx" and ?al = "\<lambda>i. dsem_allow (fst (A ! i))"
  let ?R = "\<lambda>i j. length (dsem_name (fst (A ! j))) \<le> length (dsem_name (fst (A ! i)))"
  have name: "length (dsem_name (dom_sem_of r)) = length (dr_domain r)" for r by (simp add: dom_sem_of_def dsem_name_def)
  have small: "j < length A \<and> unat (of_nat j :: u32) = j" if "j \<in> set ?H" for j
  proof -
    have "j < length A" using that by (auto simp: hits_def hits_at_def)
    with len show ?thesis by (auto intro!: unat_of_nat_small)
  qed
  have long: "\<exists>rule. longest (dom_hits rules q qbit ctx a) rule \<and> fst (A ! j) = dom_sem_of rule"
    if j: "j \<in> set ?H" "?al j = a" "\<And>k. k \<in> set ?H \<Longrightarrow> ?al k = a \<Longrightarrow> ?R j k" for j a
  proof -
    from hit_from_rules [OF A j(1)] j(2) obtain rule where r: "rule \<in> set (dom_hits rules q qbit ctx a)"
      "fst (A ! j) = dom_sem_of rule" by auto
    have "length (dr_domain r') \<le> length (dr_domain rule)" if "r' \<in> set (dom_hits rules q qbit ctx a)" for r'
      using hit_of_rule [OF A that] j(3) r(2) name by metis
    with r show ?thesis by (auto simp: longest_def list_all_iff)
  qed
  have none: "dom_hits rules q qbit ctx a = []" if "\<And>k. k \<in> set ?H \<Longrightarrow> ?al k \<noteq> a" for a
    using hit_of_rule [OF A] that by (metis list.set_intros(1) neq_Nil_conv)
  have some: "dom_hits rules q qbit ctx (?al j) \<noteq> []" if "j \<in> set ?H" for j
    using hit_from_rules [OF A that] by auto
  show "match_class d = dom_reference rules q qbit ctx"
  proof (cases "find ?al ?H")
    case None
    then have no: "\<not> ?al k" if "k \<in> set ?H" for k using that by (auto simp: find_None_iff)
    with none [of True] have "dom_hits rules q qbit ctx True = []" by blast
    with None no none [of False] some show ?thesis
      by (cases ?H) (auto simp: d_def decide_hits_def match_class_def dom_reference_def)
  next
    case (Some j)
    with some [of j] find_first(1,2) [OF Some hits_longest_first] show ?thesis
      by (simp add: d_def decide_hits_def match_class_def dom_reference_def)
  qed
  show "unat i < length A \<and> (\<exists>rule. longest (dom_hits rules q qbit ctx True) rule \<and> fst (A ! unat i) = dom_sem_of rule)"
    if "d = MAllow (RuleRef i)"
  proof -
    from that obtain j where j: "find ?al ?H = Some j" "i = of_nat j"
      by (auto simp: d_def decide_hits_def split: option.splits list.splits)
    note f = find_first [OF j(1) hits_longest_first order_refl]
    from long [OF f(1)] f(2,3) small [OF f(1)] j(2) show ?thesis by simp
  qed
  show "unat i < length A \<and> (\<exists>rule. longest (dom_hits rules q qbit ctx False) rule \<and> fst (A ! unat i) = dom_sem_of rule)"
    if "d = MBlock (RuleRef i)"
  proof -
    from that obtain j t where j: "find ?al ?H = None" "?H = j # t" "i = of_nat j"
      by (auto simp: d_def decide_hits_def split: option.splits list.splits)
    have "j \<in> set ?H" "\<not> ?al j" using j by (auto simp: find_None_iff)
    moreover have "?R j k" if "k \<in> set ?H" for k
      using hits_longest_first [of A q qbit ctx] that unfolding j(2) by auto
    ultimately show ?thesis using long [of j False] small [of j] j(3) by simp
  qed
qed
end
