(* ===== verification/Compile.thy ===== *)
theory Compile
  imports Parsers Matcher_Spec
begin

text \<open>
  Compiling a ruleset (\<open>ListManager::compile\<close> of \<open>fah-rules/src/lifecycle/mod.rs\<close>): the raw texts of
  the enabled lists are parsed in order, each under the mask of the policies that see it, and built
  into one matcher. The theorems tie the whole path together, from the bytes of the lists to the
  decision for a name or a request.
\<close>

section \<open>Statistics of one list\<close>

record refresh_stats =
  rs_active :: nat
  rs_url :: nat
  rs_inactive :: nat
  rs_parse_errors :: u32

definition refresh_stats_of :: "parsed_rule_list \<Rightarrow> refresh_stats" where
  "refresh_stats_of parsed =
     (let c = counts parsed
      in \<lparr> rs_active = rc_active c, rs_url = rc_url c, rs_inactive = rc_inactive c, rs_parse_errors = prl_parse_errors parsed \<rparr>)"

section \<open>The compile step\<close>

definition compile_text ::
  "policy_set \<Rightarrow> string \<times> string \<Rightarrow> matcher_builder \<times> (string \<Rightarrow> refresh_stats option)
     \<Rightarrow> (matcher_builder \<times> (string \<Rightarrow> refresh_stats option)) option" where
  "compile_text policies = (\<lambda>(id, text) (builder, stats).
     let policy_mask = mask_for_list policies id;
         parsed = parse text
     in map_option (\<lambda>builder. (builder, stats(id \<mapsto> refresh_stats_of parsed)))
          (add_parsed_list_masked builder id parsed policy_mask))"

definition compile ::
  "policy_set \<Rightarrow> (string \<times> string) list \<Rightarrow> (matcher \<times> (string \<Rightarrow> refresh_stats option)) option" where
  "compile policies texts = do {
     let upper_bound = sum_list (map (\<lambda>(_, text). rule_upper_bound text) texts);
     let builder = set_policy_universe (with_capacity upper_bound) (universe policies);
     (builder, stats) \<leftarrow> try_fold (compile_text policies) texts (builder, Map.empty);
     matcher \<leftarrow> build builder;
     Some (matcher, stats)
   }"

section \<open>The rules of the lists\<close>

text \<open>Every parsed rule, in order, with the number of its list and the mask of the policies that see
  the list.\<close>

definition listed :: "policy_set \<Rightarrow> nat \<Rightarrow> (string \<times> string) list \<Rightarrow> (u16 \<times> parsed_rule \<times> u16) list" where
  "listed policies k texts =
     concat (map (\<lambda>(n, id, text). map (\<lambda>rule. (of_nat n, rule, mask_for_list policies id)) (prl_rules (parse text)))
       (enumerate k texts))"

definition dom_rules :: "(u16 \<times> parsed_rule \<times> u16) list \<Rightarrow> listed_rule list" where
  "dom_rules = List.map_filter (\<lambda>(l, rule, m). case rule of Active r \<Rightarrow> Some (l, r, m) | _ \<Rightarrow> None)"

definition url_rules :: "(u16 \<times> parsed_rule \<times> u16) list \<Rightarrow> (u16 \<times> url_rule \<times> u16) list" where
  "url_rules = List.map_filter (\<lambda>(l, rule, m). case rule of Url r \<Rightarrow> Some (l, r, m) | _ \<Rightarrow> None)"

lemma rules_simps [simp]:
  "dom_rules [] = []" "url_rules [] = []"
  "dom_rules ((l, Active d, m) # xs) = (l, d, m) # dom_rules xs" "url_rules ((l, Active d, m) # xs) = url_rules xs"
  "dom_rules ((l, Url u, m) # xs) = dom_rules xs" "url_rules ((l, Url u, m) # xs) = (l, u, m) # url_rules xs"
  "dom_rules ((l, Inactive i, m) # xs) = dom_rules xs" "url_rules ((l, Inactive i, m) # xs) = url_rules xs"
  by (simp_all add: dom_rules_def url_rules_def)

lemma rules_append [simp]:
  "dom_rules (xs @ ys) = dom_rules xs @ dom_rules ys" "url_rules (xs @ ys) = url_rules xs @ url_rules ys"
  by (simp_all add: dom_rules_def url_rules_def List.map_filter_def)

lemma dom_entries_simps [simp]:
  "dom_entries [] = []"
  "dom_entries ((l, d, m) # xs) = (if dom_accepted d then (dom_sem_of d, m) # dom_entries xs else dom_entries xs)"
  "dom_entries (xs @ ys) = dom_entries xs @ dom_entries ys"
  by (simp_all add: dom_entries_def)

lemma listed_simps [simp]:
  "listed policies k [] = []"
  "listed policies k ((name, content) # texts) =
     map (\<lambda>rule. (of_nat k, rule, mask_for_list policies name)) (prl_rules (parse content)) @ listed policies (Suc k) texts"
  by (simp_all add: listed_def)

definition dom_weight :: "listed_rule list \<Rightarrow> nat" where
  "dom_weight rules = sum_list (map (\<lambda>(_, r, _). length (dr_domain r)) rules)"

lemma dom_weight_simps [simp]:
  "dom_weight [] = 0" "dom_weight ((l, r, m) # xs) = length (dr_domain r) + dom_weight xs"
  "dom_weight (xs @ ys) = dom_weight xs + dom_weight ys"
  by (simp_all add: dom_weight_def)

definition dom_fits :: "listed_rule list \<Rightarrow> bool" where
  "dom_fits rules \<longleftrightarrow> int (length rules) \<le> MAX_RECORDS \<and> int (dom_weight rules) < 2 ^ 32"

section \<open>Compiling refines merging\<close>

lemma mb_frame_trans: "mb_frame a b \<Longrightarrow> mb_frame b c \<Longrightarrow> mb_frame a c"
  by (simp add: mb_frame_def)

lemma mb_inv_frame [simp]:
  "mb_inv (self\<lparr> mb_url := u \<rparr>) A \<longleftrightarrow> mb_inv self A"
  "mb_inv (self\<lparr> mb_lists := ls, mb_list_policy := ms \<rparr>) A \<longleftrightarrow> mb_inv self A"
  "mb_inv (self\<lparr> mb_policy_universe := full \<rparr>) A \<longleftrightarrow> mb_inv self A"
  by (simp_all add: mb_inv_def dom_sem_at_def)

abbreviation add_urls :: "(u16 \<times> url_rule \<times> u16) list \<Rightarrow> url_builder \<Rightarrow> url_builder option" where
  "add_urls \<equiv> try_fold (\<lambda>(list_id, rule, m) self. url_add self list_id rule m)"

text \<open>The builder after the rules \<open>dn\<close>: they are merged, and every record names the first list that
  carries its rule.\<close>

definition merged :: "listed_rule list \<Rightarrow> (dom_sem \<times> u16) list" where
  "merged dn = fold merge_one (dom_entries dn) []"

definition first_list :: "listed_rule list \<Rightarrow> dom_sem \<Rightarrow> u16 option" where
  "first_list dn sem = map_option fst (find (\<lambda>(_, rule, _). dom_accepted rule \<and> dom_sem_of rule = sem) dn)"

definition compiled_from :: "matcher_builder \<Rightarrow> listed_rule list \<Rightarrow> bool" where
  "compiled_from self dn \<longleftrightarrow> mb_inv self (merged dn) \<and>
     (\<forall>i<length (merged dn). first_list dn (fst (merged dn ! i)) = Some (dm_list_id (mb_records self ! i)))"

lemma first_list_None: "first_list dn sem = None \<longleftrightarrow> sem \<notin> fst ` set (merged dn)"
  unfolding merged_def keys_fold_merge by (force simp: first_list_def find_None_iff dom_entries_def)

lemma first_list_snoc:
  "first_list (dn @ [(l, rule, m)]) sem = (case first_list dn sem of Some k \<Rightarrow> Some k
     | None \<Rightarrow> if dom_accepted rule \<and> dom_sem_of rule = sem then Some l else None)"
  by (simp add: first_list_def find_append split: option.splits)

lemma merged_snoc:
  "merged (dn @ [(l, rule, m)]) = (if dom_accepted rule then merge_one (dom_sem_of rule, m) (merged dn) else merged dn)"
  by (simp add: merged_def)

lemma length_merged: "length (merged dn) \<le> length dn"
proof -
  have "length (dom_entries dn) \<le> length dn" by (simp add: dom_entries_def)
  then show ?thesis using length_fold_merge [of "dom_entries dn" "[]"] by (simp add: merged_def)
qed

lemma add_rule_records:
  assumes "add_rule self l rule = Some self'"
  shows "mb_records self' = mb_records self \<or> (\<exists>r. mb_records self' = mb_records self @ [r] \<and> dm_list_id r = l)"
proof -
  have ded: "mb_records s' = mb_records s" if "dedup_slot_for s rule domain flags scope = Some (slot, s')" for s s' domain flags scope slot
    using that by (auto simp: dedup_slot_for_def reserve_dedup_def Let_def split: Option.bind_splits if_splits)
  have push: "\<exists>r. mb_records s' = mb_records s @ [r] \<and> dm_list_id r = l"
    if "push_record s l rule flags scope k slot = Some s'" for s s' flags scope k slot
    using that by (auto simp: push_record_def Let_def split: Option.bind_splits if_splits)
  show ?thesis
    using assms ded push unfolding add_rule_def Let_def
    by (auto split: if_splits option.splits Option.bind_splits dedup_slot.splits) metis+
qed

lemma add_rule_from:
  assumes cf: "compiled_from self dn" and mask: "index_at (mb_list_policy self) (unat l) = Some m"
    and sizes: "int (length dn) < MAX_RECORDS" "length (mb_arena self) < 2 ^ 32"
  shows "\<exists>self'. add_rule self l rule = Some self' \<and> compiled_from self' (dn @ [(l, rule, m)])
    \<and> length (mb_arena self') \<le> length (mb_arena self) + length (dr_domain rule)
    \<and> mb_frame self self' \<and> mb_url self' = mb_url self"
proof -
  let ?A = "merged dn" and ?B = "merged (dn @ [(l, rule, m)])" and ?sem = "dom_sem_of rule"
  have inv: "mb_inv self ?A" and old: "\<And>i. i < length ?A \<Longrightarrow> first_list dn (fst (?A ! i)) = Some (dm_list_id (mb_records self ! i))"
    using cf by (auto simp: compiled_from_def)
  have "int (length ?A) < MAX_RECORDS" using sizes(1) length_merged [of dn] by linarith
  from add_rule_merge [OF inv mask this sizes(2), of rule] obtain self' where s: "add_rule self l rule = Some self'"
    "mb_inv self' ?B" "length (mb_arena self') \<le> length (mb_arena self) + length (dr_domain rule)"
    "mb_frame self self'" "mb_url self' = mb_url self"
    unfolding merged_snoc by blast
  have len: "length (mb_records self) = length ?A" "length (mb_records self') = length ?B"
    using inv s(2) by (simp_all add: mb_inv_def)
  have keys: "map fst ?B = (if dom_accepted rule \<and> ?sem \<notin> fst ` set ?A then map fst ?A @ [?sem] else map fst ?A)"
    by (simp add: merged_snoc merge_one_keys)
  have key: "fst (?B ! i) = map fst ?B ! i" if "i < length ?B" for i using that by simp
  have "first_list (dn @ [(l, rule, m)]) (fst (?B ! i)) = Some (dm_list_id (mb_records self' ! i))" if i: "i < length ?B" for i
  proof (cases "dom_accepted rule \<and> ?sem \<notin> fst ` set ?A")
    case True
    then have k: "map fst ?B = map fst ?A @ [?sem]" using keys by simp
    have lb: "length ?B = Suc (length ?A)" using arg_cong [OF k, of length] by simp
    then obtain r where r: "mb_records self' = mb_records self @ [r]" "dm_list_id r = l"
      using add_rule_records [OF s(1)] len by auto
    show ?thesis
    proof (cases "i = length ?A")
      case i: True
      then have "fst (?B ! i) = ?sem" using key [OF that] k by (simp add: nth_append)
      then show ?thesis using True i r len(1) first_list_None [of dn ?sem] by (simp add: first_list_snoc nth_append)
    next
      case False
      with i lb have j: "i < length ?A" by simp
      then have "fst (?B ! i) = fst (?A ! i)" using key [OF i] k by (simp add: nth_append)
      then show ?thesis using j old [OF j] r(1) len(1) by (simp add: first_list_snoc nth_append)
    qed
  next
    case False
    then have k: "map fst ?B = map fst ?A" using keys by simp
    have lb: "length ?B = length ?A" using arg_cong [OF k, of length] by simp
    then have r: "mb_records self' = mb_records self" using add_rule_records [OF s(1)] len by auto
    have j: "i < length ?A" using i lb by simp
    then have "fst (?B ! i) = fst (?A ! i)" using key [OF i] k by simp
    then show ?thesis using old [OF j] r by (simp add: first_list_snoc)
  qed
  with s show ?thesis by (auto simp: compiled_from_def)
qed

lemma compiled_from_frame [simp]:
  "compiled_from (self\<lparr> mb_url := u \<rparr>) dn \<longleftrightarrow> compiled_from self dn"
  "compiled_from (self\<lparr> mb_lists := ls, mb_list_policy := ms \<rparr>) dn \<longleftrightarrow> compiled_from self dn"
  "compiled_from (self\<lparr> mb_policy_universe := full \<rparr>) dn \<longleftrightarrow> compiled_from self dn"
  by (simp_all add: compiled_from_def)

lemma add_rules_from:
  assumes "compiled_from self dn" "\<forall>(l, r, m)\<in>set xs. index_at (mb_list_policy self) (unat l) = Some m"
    "int (length dn + length (dom_rules xs)) \<le> MAX_RECORDS" "length (mb_arena self) + dom_weight (dom_rules xs) < 2 ^ 32"
    "add_urls (url_rules xs) (mb_url self) = Some u"
  shows "\<exists>self'. try_fold (\<lambda>(l, r, m). add_parsed_rule l r) xs self = Some self'
    \<and> compiled_from self' (dn @ dom_rules xs) \<and> mb_frame self self' \<and> mb_url self' = u
    \<and> length (mb_arena self') \<le> length (mb_arena self) + dom_weight (dom_rules xs)"
  using assms
proof (induction xs arbitrary: self dn)
  case Nil
  then show ?case by (simp add: mb_frame_def)
next
  case (Cons x xs)
  obtain l r m where x: "x = (l, r, m)" by (cases x)
  have m: "index_at (mb_list_policy self) (unat l) = Some m" using Cons.prems(2) x by simp
  show ?case
  proof (cases r)
    case (Active d)
    have "int (length dn) < MAX_RECORDS" "length (mb_arena self) < 2 ^ 32" using Cons.prems(3,4) x Active by simp_all
    from add_rule_from [OF Cons.prems(1) m this, of d] obtain s1 where s1: "add_rule self l d = Some s1"
      "compiled_from s1 (dn @ [(l, d, m)])" "length (mb_arena s1) \<le> length (mb_arena self) + length (dr_domain d)"
      "mb_frame self s1" "mb_url s1 = mb_url self" by blast
    have pol: "mb_list_policy s1 = mb_list_policy self" using s1(4) by (simp add: mb_frame_def)
    have p: "\<forall>(l, r, m)\<in>set xs. index_at (mb_list_policy s1) (unat l) = Some m"
      "int (length (dn @ [(l, d, m)]) + length (dom_rules xs)) \<le> MAX_RECORDS"
      "length (mb_arena s1) + dom_weight (dom_rules xs) < 2 ^ 32" "add_urls (url_rules xs) (mb_url s1) = Some u"
      using Cons.prems(2-5) x Active s1(3,5) pol by simp_all
    from Cons.IH [OF s1(2) p] obtain s2 where s2: "try_fold (\<lambda>(l, r, m). add_parsed_rule l r) xs s1 = Some s2"
      "compiled_from s2 (dn @ [(l, d, m)] @ dom_rules xs)" "mb_frame s1 s2" "mb_url s2 = u"
      "length (mb_arena s2) \<le> length (mb_arena s1) + dom_weight (dom_rules xs)" by auto
    have "try_fold (\<lambda>(l, r, m). add_parsed_rule l r) (x # xs) self = Some s2"
      using s1(1) s2(1) by (simp add: x Active add_parsed_rule_def)
    with s2 s1(3) mb_frame_trans [OF s1(4) s2(3)] show ?thesis by (auto simp: x Active)
  next
    case (Url w)
    then obtain u1 where u1: "url_add (mb_url self) l w m = Some u1" "add_urls (url_rules xs) u1 = Some u"
      using Cons.prems(5) x by (auto split: option.splits)
    let ?s = "self\<lparr> mb_url := u1 \<rparr>"
    have add: "add_parsed_rule l r self = Some ?s" using u1(1) m Url by (simp add: add_parsed_rule_def add_url_rule_def)
    have "compiled_from ?s dn" using Cons.prems(1) by simp
    from Cons.IH [OF this] Cons.prems(2-4) u1(2) x Url add show ?thesis by (auto simp: mb_frame_def)
  next
    case (Inactive w)
    with Cons.IH [OF Cons.prems(1)] Cons.prems(2-5) x show ?thesis by (auto simp: add_parsed_rule_def)
  qed
qed

fun text_stats :: "(string \<Rightarrow> refresh_stats option) \<Rightarrow> (string \<times> string) list \<Rightarrow> string \<Rightarrow> refresh_stats option" where
  "text_stats st [] = st"
| "text_stats st ((name, content) # texts) = text_stats (st(name \<mapsto> refresh_stats_of (parse content))) texts"

lemma compile_texts_from:
  assumes "compiled_from self dn" "length (mb_list_policy self) = length (mb_lists self)"
    "int (length (mb_lists self) + length texts) \<le> 2 ^ 16"
    "int (length dn + length (dom_rules (listed policies (length (mb_lists self)) texts))) \<le> MAX_RECORDS"
    "length (mb_arena self) + dom_weight (dom_rules (listed policies (length (mb_lists self)) texts)) < 2 ^ 32"
    "add_urls (url_rules (listed policies (length (mb_lists self)) texts)) (mb_url self) = Some u"
  shows "\<exists>self'. try_fold (compile_text policies) texts (self, stats) =
      Some (self', text_stats stats texts)
    \<and> compiled_from self' (dn @ dom_rules (listed policies (length (mb_lists self)) texts))
    \<and> mb_lists self' = mb_lists self @ map fst texts \<and> mb_policy_universe self' = mb_policy_universe self \<and> mb_url self' = u"
  using assms
proof (induction texts arbitrary: self dn stats)
  case (Cons t texts)
  obtain name content where t: "t = (name, content)" by (cases t)
  let ?k = "length (mb_lists self)" and ?m = "mask_for_list policies name" and ?rs = "prl_rules (parse content)"
  let ?xs = "map (\<lambda>rule. (of_nat ?k :: u16, rule, ?m)) ?rs"
  let ?s = "self\<lparr> mb_lists := mb_lists self @ [name], mb_list_policy := mb_list_policy self @ [?m] \<rparr>"
  have k: "int ?k < 2 ^ 16" using Cons.prems(3) by simp
  then have id: "unat (of_nat ?k :: u16) = ?k" by (intro unat_of_nat_small) simp
  have add: "add_list_masked self name ?m = Some (of_nat ?k, ?s)" using k by (simp add: add_list_masked_def)
  have inv: "compiled_from ?s dn" using Cons.prems(1) by simp
  obtain u1 where u1: "add_urls (url_rules ?xs) (mb_url ?s) = Some u1"
    "add_urls (url_rules (listed policies (Suc ?k) texts)) u1 = Some u"
    using Cons.prems(6) by (auto simp: t try_fold_append split: Option.bind_splits)
  have p: "\<forall>(l, r, m)\<in>set ?xs. index_at (mb_list_policy ?s) (unat l) = Some m"
    "int (length dn + length (dom_rules ?xs)) \<le> MAX_RECORDS" "length (mb_arena ?s) + dom_weight (dom_rules ?xs) < 2 ^ 32"
    using Cons.prems(2,4,5) id by (auto simp: t index_at_def nth_append)
  from add_rules_from [OF inv p u1(1)] obtain s1 where s1: "try_fold (\<lambda>(l, r, m). add_parsed_rule l r) ?xs ?s = Some s1"
    "compiled_from s1 (dn @ dom_rules ?xs)" "mb_frame ?s s1" "mb_url s1 = u1"
    "length (mb_arena s1) \<le> length (mb_arena self) + dom_weight (dom_rules ?xs)" by auto
  have step: "compile_text policies t (self, stats) = Some (s1, stats(name \<mapsto> refresh_stats_of (parse content)))"
    using s1(1) add by (simp add: compile_text_def t add_parsed_list_masked_def try_fold_map Let_def)
  have lists: "mb_lists s1 = mb_lists self @ [name]" "mb_list_policy s1 = mb_list_policy self @ [?m]"
    "mb_policy_universe s1 = mb_policy_universe self" using s1(3) by (simp_all add: mb_frame_def)
  have q: "length (mb_list_policy s1) = length (mb_lists s1)" "int (length (mb_lists s1) + length texts) \<le> 2 ^ 16"
    "int (length (dn @ dom_rules ?xs) + length (dom_rules (listed policies (length (mb_lists s1)) texts))) \<le> MAX_RECORDS"
    "length (mb_arena s1) + dom_weight (dom_rules (listed policies (length (mb_lists s1)) texts)) < 2 ^ 32"
    "add_urls (url_rules (listed policies (length (mb_lists s1)) texts)) (mb_url s1) = Some u"
    using Cons.prems(2-5) lists u1(2) s1(4,5) by (simp_all add: t)
  from Cons.IH [OF s1(2) q, of "stats(name \<mapsto> refresh_stats_of (parse content))"] step lists show ?case
    by (simp add: t del: fun_upd_apply)
qed simp

lemma compile_ok:
  fixes policies texts
  defines "rules \<equiv> listed policies 0 texts"
  assumes "int (length texts) \<le> 2 ^ 16" "dom_fits (dom_rules rules)" "url_fits (url_rules rules)"
  shows "\<exists>self mt stats. compile policies texts = Some (mt, stats) \<and> compiled_from self (dom_rules rules)
    \<and> built self (merged (dom_rules rules)) mt \<and> mb_policy_universe self = universe policies
    \<and> mt_lists mt = map fst texts \<and> url_compile (url_rules rules) (universe policies) = Some (mt_url mt)
    \<and> stats = text_stats Map.empty texts"
proof -
  let ?n = "sum_list (map (\<lambda>(_, content). rule_upper_bound content) texts)"
  let ?b = "set_policy_universe (with_capacity ?n) (universe policies)"
  have inv: "compiled_from ?b []" using mb_inv_with_capacity by (simp add: set_policy_universe_def compiled_from_def merged_def)
  have b: "mb_lists ?b = []" "mb_list_policy ?b = []" "mb_arena ?b = []" "mb_url ?b = url_builder_default"
    "mb_policy_universe ?b = universe policies"
    by (simp_all add: set_policy_universe_def with_capacity_def matcher_builder_default_def)
  from assms(4) obtain idx where idx: "url_compile (url_rules rules) (universe policies) = Some idx"
    by (rule url_compile_ok)
  then obtain u where u: "add_urls (url_rules rules) url_builder_default = Some u" "url_build u (universe policies) = Some idx"
    by (auto simp: url_compile_def split: Option.bind_splits)
  have pre: "length (mb_list_policy ?b) = length (mb_lists ?b)" "int (length (mb_lists ?b) + length texts) \<le> 2 ^ 16"
    "int (length ([] :: listed_rule list) + length (dom_rules (listed policies (length (mb_lists ?b)) texts))) \<le> MAX_RECORDS"
    "length (mb_arena ?b) + dom_weight (dom_rules (listed policies (length (mb_lists ?b)) texts)) < 2 ^ 32"
    "add_urls (url_rules (listed policies (length (mb_lists ?b)) texts)) (mb_url ?b) = Some u"
    using assms(2,3) u(1) unfolding b rules_def dom_fits_def by simp_all
  from compile_texts_from [OF inv pre, of Map.empty] obtain self where self: "try_fold (compile_text policies) texts (?b, Map.empty) =
      Some (self, text_stats Map.empty texts)"
    "compiled_from self (dom_rules rules)" "mb_lists self = map fst texts"
    "mb_policy_universe self = universe policies" "mb_url self = u"
    unfolding b rules_def by auto
  have "mb_inv self (merged (dom_rules rules))" using self(2) by (simp add: compiled_from_def)
  from build_ok [OF this, of idx] u(2) self(4,5) obtain mt where "build self = Some mt"
    "built self (merged (dom_rules rules)) mt" "mt_url mt = idx" by auto
  moreover from this self(3) have "mt_lists mt = map fst texts" by (simp add: built_def)
  ultimately show ?thesis using self idx by (auto simp: compile_def Let_def)
qed
end
