(* ===== verification/Ruleset.thy ===== *)
theory Ruleset
  imports Compile
begin

text \<open>
  From the bytes of the lists to the decision: the properties of a compiled ruleset as a whole.
  They are stated over the raw texts and the policy set the ruleset was compiled with, and hold for
  every name, query type, request and client.
\<close>

definition ruleset_fits :: "policy_set \<Rightarrow> (string \<times> string) list \<Rightarrow> bool" where
  "ruleset_fits policies texts \<longleftrightarrow>
     (let rules = listed policies 0 texts
      in int (length texts) \<le> 2 ^ 16 \<and> dom_fits (dom_rules rules) \<and> url_fits (url_rules rules))"

definition knows_policy :: "policy_set \<Rightarrow> client_context \<Rightarrow> bool" where
  "knows_policy policies ctx \<longleftrightarrow> universe policies AND ctx_policy_bit ctx \<noteq> 0"

abbreviation dom_texts :: "policy_set \<Rightarrow> (string \<times> string) list \<Rightarrow> listed_rule list" where
  "dom_texts policies texts \<equiv> dom_rules (listed policies 0 texts)"

abbreviation url_texts :: "policy_set \<Rightarrow> (string \<times> string) list \<Rightarrow> (u16 \<times> url_rule \<times> u16) list" where
  "url_texts policies texts \<equiv> url_rules (listed policies 0 texts)"

section \<open>Names\<close>

lemma ruleset_compiles:
  assumes "ruleset_fits policies texts"
  shows "\<exists>self mt stats. compile policies texts = Some (mt, stats) \<and> compiled_from self (dom_texts policies texts)
    \<and> built self (merged (dom_texts policies texts)) mt \<and> mb_policy_universe self = universe policies
    \<and> mt_lists mt = map fst texts \<and> url_compile (url_texts policies texts) (universe policies) = Some (mt_url mt)"
  using compile_ok [of texts policies] assms by (auto simp: ruleset_fits_def Let_def)

lemma merged_small:
  assumes "compiled_from self dn"
  shows "length (merged dn) < 2 ^ 32" "int (length (merged dn)) \<le> 16777215"
  using assms by (simp_all add: compiled_from_def mb_inv_def MAX_RECORDS_eq)

lemma lookup_domain_reference:
  fixes domain
  assumes "compiled_from self dn" "built self (merged dn) mt" "mb_policy_universe self AND ctx_policy_bit ctx \<noteq> 0"
  defines "q \<equiv> query_name domain"
  shows "\<exists>d. lookup_domain mt domain qbit ctx = Some d \<and> match_class d = dom_reference dn q qbit ctx
    \<and> (\<forall>i. d = MAllow (RuleRef i) \<longrightarrow> unat i < length (merged dn) \<and>
        (\<exists>rule. longest (dom_hits dn q qbit ctx True) rule \<and> fst (merged dn ! unat i) = dom_sem_of rule))
    \<and> (\<forall>i. d = MBlock (RuleRef i) \<longrightarrow> unat i < length (merged dn) \<and>
        (\<exists>rule. longest (dom_hits dn q qbit ctx False) rule \<and> fst (merged dn ! unat i) = dom_sem_of rule))"
proof -
  have inv: "mb_inv self (merged dn)" using assms(1) by (simp add: compiled_from_def)
  have A: "merged dn = fold merge_one (dom_entries dn) []" by (simp add: merged_def)
  note ok = decide_hits_ok [OF A merged_small(1) [OF assms(1)], of q qbit ctx]
  show ?thesis
    unfolding lookup_domain_hits [OF inv assms(2,3)] q_def [symmetric] using ok by blast
qed

lemma ruleset_lookup:
  assumes "ruleset_fits policies texts" "knows_policy policies ctx"
  shows "\<exists>mt stats d. compile policies texts = Some (mt, stats) \<and> lookup_domain mt domain qbit ctx = Some d
    \<and> match_class d = dom_reference (dom_texts policies texts) (query_name domain) qbit ctx"
  using ruleset_compiles [OF assms(1)] lookup_domain_reference assms(2) unfolding knows_policy_def by metis

text \<open>C1: Compiling the lists never panics, and neither does looking a name up in the result; the
  decision is the one reached by scanning every rule of every list. An exception the client's
  policy sees and that applies to the name, type and client wins, otherwise a block that does,
  otherwise the name passes.\<close>

theorem dns_decides:
  assumes "ruleset_fits policies texts" "knows_policy policies ctx"
  shows "\<exists>mt stats d. compile policies texts = Some (mt, stats) \<and> lookup_in mt domain qtype ctx = Some d
    \<and> match_class d = dom_reference (dom_texts policies texts) (query_name domain) (Some (qtype_bit qtype)) ctx"
  unfolding lookup_in_def by (rule ruleset_lookup [OF assms])

section \<open>The reported rule\<close>

lemma bit_URL_TIER: "bit URL_TIER n \<longleftrightarrow> n = 31"
  unfolding URL_TIER_def bit_push_bit_iff by (auto simp: bit_1_iff)

lemma domain_ref:
  assumes "uint (i :: u32) < MAX_RECORDS"
  shows "\<not> is_url_rule (RuleRef i)" "ref_index (RuleRef i) = i"
proof -
  have "\<not> bit i 31" using index_bit [OF assms, of 31] by auto
  then show "\<not> is_url_rule (RuleRef i)" using and_exp_eq_0_iff_not_bit [of i 31] by (simp add: URL_TIER_def push_bit_eq_mult)
  show "ref_index (RuleRef i) = i" unfolding ref_index.simps
  proof (rule bit_word_eqI)
    fix n assume "n < LENGTH(32)"
    then show "bit (i AND NOT URL_TIER) n \<longleftrightarrow> bit i n"
      using \<open>\<not> bit i 31\<close> by (auto simp: bit_URL_TIER bit_simps)
  qed
qed

text \<open>The text of a domain rule as the matcher reports it.\<close>

definition option_text :: "string \<times> char \<Rightarrow> string \<Rightarrow> string option \<Rightarrow> string \<times> char" where
  "option_text st key raw = (case raw of None \<Rightarrow> st | Some r \<Rightarrow> push_option st (key @ r))"

definition reported :: "domain_rule \<Rightarrow> string \<Rightarrow> string" where
  "reported rule domain =
     (let head = (if dr_action rule = AllowRule then ''@@'' else []) @ ''||'' @ domain @ ''^'';
          st = option_text (head, CHR ''$'') ''dnstype='' (dr_dns_types rule);
          st = option_text st ''dnsrewrite='' (dr_dns_rewrite rule)
      in fst (option_text st ''client='' (dr_client rule)))"

lemma option_text_None: "option_text st key None = st"
  by (simp add: option_text_def)

lemma decisive_rule_ok:
  assumes cf: "compiled_from self dn" and bt: "built self (merged dn) mt" and lists: "mt_lists mt = names"
    and ids: "\<forall>(l, _)\<in>set dn. unat l < length names" and i: "unat i < length (merged dn)" and rule: "fst (merged dn ! unat i) = dom_sem_of rule"
  shows "\<exists>l domain. first_list dn (dom_sem_of rule) = Some l \<and> eq_ignore_ascii_case domain (dr_domain rule)
    \<and> decisive_rule_of mt (RuleRef i) = Some \<lparr> dec_list = names ! unat l, dec_rule = reported rule domain \<rparr>"
proof -
  have inv: "mb_inv self (merged dn)" and
    first: "first_list dn (dom_sem_of rule) = Some (dm_list_id (mb_records self ! unat i))"
    using cf i rule by (auto simp: compiled_from_def)
  have "of_nat (unat i) = i" by simp
  note ix = small_index [OF inv i, unfolded this] and ref = domain_ref [OF small_index(2) [OF inv i, unfolded this]]
  from inv have "\<forall>i<length (merged dn). \<exists>rule. dom_accepted rule \<and> fst (merged dn ! i) = dom_sem_of rule"
    unfolding mb_inv_def by (elim conjE)
  with i rule obtain rule' where "dom_accepted rule'" "dom_sem_of rule' = dom_sem_of rule" by metis
  with dom_sem_cong(2) [OF this(2)] have size: "int (length (dr_domain rule)) \<le> 255" by (simp add: dom_accepted_def)
  from dom_record_at [OF inv i rule] obtain r domain where r: "index_at (mb_records self) (unat i) = Some r"
    "dom_slice (mb_arena self) r = Some domain" "lower domain = lower (dr_domain rule)" "dm_flags r = dom_flags rule"
    "map_option snd (mb_dnstype self i) = dr_dns_types rule" "mb_rewrite self i = dr_dns_rewrite rule"
    "map_option cs_raw (map_of (mb_clients self) i) = dr_client rule" by auto
  note f = dom_flags_fields [OF r(4)]
  have rec: "index_at (mt_records mt) (unat i) = Some r" "domain_of mt i = Some domain"
    using r(1,2) bt by (simp_all add: built_def domain_of_def)
  have len: "length domain = length (dr_domain rule)" using arg_cong [OF r(3), of length] by simp
  let ?head = "(if dr_action rule = AllowRule then ''@@'' else []) @ ''||'' @ domain @ ''^''"
  have head: "try_fold push_part [if dm_is_allow r then ''@@'' else [], ''||'', domain, ''^''] [] = Some ?head"
    using size len f(1) by (simp add: push_part_def PLAIN_RULE_MAX_def)
  have l: "dm_list_id (mb_records self ! unat i) = dm_list_id r" using r(1) by (simp add: index_at_eq_Some)
  have "unat (dm_list_id r) < length names"
    using first ids unfolding l by (auto simp: first_list_def find_Some_iff set_conv_nth)
  then have list: "index_at (mt_lists mt) (unat (dm_list_id r)) = Some (names ! unat (dm_list_id r))" by (simp add: lists)
  have plain: "dm_flags r AND (FLAG_DNSTYPE OR FLAG_REWRITE OR FLAG_CLIENT) = 0 \<longleftrightarrow>
      dr_dns_types rule = None \<and> dr_dns_rewrite rule = None \<and> dr_client rule = None"
    using f(3-5) unfolding dm_has_dnstype_def dm_has_rewrite_def dm_has_client_def
    by (auto simp: bit.conj_disj_distrib or_eq_0_iff)
  have t: "(if dm_has_dnstype r then map_option (\<lambda>(_, raw). push_option st (''dnstype='' @ raw)) (mt_dnstype mt i)
      else Some st) = Some (option_text st ''dnstype='' (dr_dns_types rule))" for st
    using bt r(5) [symmetric] f(3) by (cases "mb_dnstype self i") (auto simp: built_def option_text_def)
  have w: "(if dm_has_rewrite r then map_option (\<lambda>raw. push_option st (''dnsrewrite='' @ raw)) (mt_rewrite mt i)
      else Some st) = Some (option_text st ''dnsrewrite='' (dr_dns_rewrite rule))" for st
    using bt r(6) [symmetric] f(4) by (cases "mb_rewrite self i") (auto simp: built_def option_text_def)
  have c: "(if dm_has_client r then map_option (\<lambda>scope. push_option st (''client='' @ cs_raw scope)) (map_of (mt_clients mt) i)
      else Some st) = Some (option_text st ''client='' (dr_client rule))" for st
    using bt r(7) [symmetric] f(5) by (cases "map_of (mb_clients self) i") (auto simp: built_def option_text_def)
  have "decisive_rule_of mt (RuleRef i) = Some \<lparr> dec_list = names ! unat (dm_list_id r), dec_rule = reported rule domain \<rparr>"
    unfolding decisive_rule_of_def ref Let_def rec head list plain bind.bind_lunit t w c if_False
    using ref(1) option_text_None by (simp add: reported_def Let_def)
  with first l r(3) show ?thesis by (auto simp: eq_ignore_ascii_case_def)
qed

lemma listed_ids:
  assumes "int (k + length texts) \<le> 2 ^ 16" "(l, x) \<in> set (dom_rules (listed policies k texts))"
  shows "unat l < k + length texts"
  using assms
proof (induction texts arbitrary: k)
  case (Cons t texts)
  obtain name content where t: "t = (name, content)" by (cases t)
  have k: "unat (of_nat k :: u16) = k" using Cons.prems(1) by (intro unat_of_nat_small) simp
  from Cons.prems(2) consider "(l, x) \<in> set (dom_rules (map (\<lambda>rule. (of_nat k, rule, mask_for_list policies name)) (prl_rules (parse content))))"
    | "(l, x) \<in> set (dom_rules (listed policies (Suc k) texts))" unfolding t by auto
  then show ?case
  proof cases
    case 1
    then have "l = of_nat k" by (auto simp: dom_rules_def List.map_filter_def split: rule_kind.splits)
    with k show ?thesis by simp
  next
    case 2
    with Cons.IH [of "Suc k"] Cons.prems(1) show ?thesis by simp
  qed
qed simp

definition reports :: "policy_set \<Rightarrow> (string \<times> string) list \<Rightarrow> domain_rule list \<Rightarrow> decisive_rule \<Rightarrow> bool" where
  "reports policies texts hit_rules dec \<longleftrightarrow> (\<exists>rule l domain.
     longest hit_rules rule \<and> first_list (dom_texts policies texts) (dom_sem_of rule) = Some l \<and> unat l < length texts \<and>
     eq_ignore_ascii_case domain (dr_domain rule) \<and>
     dec = \<lparr> dec_list = fst (texts ! unat l), dec_rule = reported rule domain \<rparr>)"

lemma ruleset_reports:
  assumes fits: "ruleset_fits policies texts" and ctx: "knows_policy policies ctx"
  shows "\<exists>mt stats d v. compile policies texts = Some (mt, stats) \<and> lookup_in mt domain qtype ctx = Some d \<and> materialize mt d = Some v
    \<and> match_class d = dom_reference (dom_texts policies texts) (query_name domain) (Some (qtype_bit qtype)) ctx
    \<and> (case v of
         Allow dec \<Rightarrow> reports policies texts (dom_hits (dom_texts policies texts) (query_name domain) (Some (qtype_bit qtype)) ctx True) dec
       | Block dec \<Rightarrow> reports policies texts (dom_hits (dom_texts policies texts) (query_name domain) (Some (qtype_bit qtype)) ctx False) dec
       | Pass \<Rightarrow> d = MPass)"
proof -
  let ?dn = "dom_texts policies texts" and ?q = "query_name domain" and ?b = "Some (qtype_bit qtype)"
  from ruleset_compiles [OF fits] obtain self mt stats where c: "compile policies texts = Some (mt, stats)"
    "compiled_from self ?dn" "built self (merged ?dn) mt" "mb_policy_universe self = universe policies"
    "mt_lists mt = map fst texts" by blast
  have full: "mb_policy_universe self AND ctx_policy_bit ctx \<noteq> 0" using ctx c(4) by (simp add: knows_policy_def)
  have ids: "\<forall>(l, _)\<in>set ?dn. unat l < length (map fst texts)"
    using listed_ids [of 0 texts] fits by (fastforce simp: ruleset_fits_def Let_def)
  have rep: "\<exists>dec. decisive_rule_of mt (RuleRef i) = Some dec \<and> reports policies texts (dom_hits ?dn ?q ?b ctx a) dec"
    if "unat i < length (merged ?dn)" "longest (dom_hits ?dn ?q ?b ctx a) rule" "fst (merged ?dn ! unat i) = dom_sem_of rule" for i a rule
  proof -
    from decisive_rule_ok [OF c(2,3,5) ids that(1,3)] obtain l domain where d: "first_list ?dn (dom_sem_of rule) = Some l"
      "eq_ignore_ascii_case domain (dr_domain rule)"
      "decisive_rule_of mt (RuleRef i) = Some \<lparr> dec_list = map fst texts ! unat l, dec_rule = reported rule domain \<rparr>" by blast
    have "unat l < length texts" using d(1) ids by (auto simp: first_list_def find_Some_iff set_conv_nth)
    with d that(2) show ?thesis unfolding reports_def by auto
  qed
  from lookup_domain_reference [OF c(2,3) full, of domain ?b] obtain d where d: "lookup_domain mt domain ?b ctx = Some d"
    "match_class d = dom_reference ?dn ?q ?b ctx"
    "\<And>i. d = MAllow (RuleRef i) \<Longrightarrow> unat i < length (merged ?dn) \<and>
        (\<exists>rule. longest (dom_hits ?dn ?q ?b ctx True) rule \<and> fst (merged ?dn ! unat i) = dom_sem_of rule)"
    "\<And>i. d = MBlock (RuleRef i) \<Longrightarrow> unat i < length (merged ?dn) \<and>
        (\<exists>rule. longest (dom_hits ?dn ?q ?b ctx False) rule \<and> fst (merged ?dn ! unat i) = dom_sem_of rule)" by blast
  have "\<exists>v. materialize mt d = Some v \<and> (case v of
         Allow dec \<Rightarrow> reports policies texts (dom_hits ?dn ?q ?b ctx True) dec
       | Block dec \<Rightarrow> reports policies texts (dom_hits ?dn ?q ?b ctx False) dec
       | Pass \<Rightarrow> d = MPass)"
  proof (cases d)
    case (MAllow r)
    obtain i where "r = RuleRef i" by (cases r)
    with d(3) [of i] MAllow rep show ?thesis by (fastforce simp: materialize_def)
  next
    case (MBlock r)
    obtain i where "r = RuleRef i" by (cases r)
    with d(4) [of i] MBlock rep show ?thesis by (fastforce simp: materialize_def)
  qed (simp add: materialize_def)
  with c(1) d(1,2) show ?thesis unfolding lookup_in_def by blast
qed

text \<open>C7: The verdict handed to the query log names the right rule. It is built without a panic; when
  the name is allowed or blocked, the reported rule has, among all rules of the deciding kind that
  apply, a longest name, it is printed back with its options, and the list reported is the first
  that carries it.\<close>

theorem dns_reports_most_specific:
  assumes fits: "ruleset_fits policies texts" and ctx: "knows_policy policies ctx"
  shows "\<exists>mt stats d v. compile policies texts = Some (mt, stats) \<and> lookup_in mt domain qtype ctx = Some d \<and> materialize mt d = Some v
    \<and> (case v of
         Allow dec \<Rightarrow> reports policies texts (dom_hits (dom_texts policies texts) (query_name domain) (Some (qtype_bit qtype)) ctx True) dec
       | Block dec \<Rightarrow> reports policies texts (dom_hits (dom_texts policies texts) (query_name domain) (Some (qtype_bit qtype)) ctx False) dec
       | Pass \<Rightarrow> d = MPass)"
  using ruleset_reports [OF assms, of domain qtype] by blast

section \<open>Requests\<close>

definition both_tiers :: "bool option \<Rightarrow> bool option \<Rightarrow> bool option" where
  "both_tiers a b = (if a = Some True \<or> b = Some True then Some True
     else if a = Some False \<or> b = Some False then Some False else None)"

definition http_reference :: "policy_set \<Rightarrow> (string \<times> string) list \<Rightarrow> http_request \<Rightarrow> client_context \<Rightarrow> bool option" where
  "http_reference policies texts request ctx =
     both_tiers (url_reference (url_texts policies texts) request ctx)
       (dom_reference (dom_texts policies texts) (query_name (req_host request)) None ctx)"

definition url_hits :: "(u16 \<times> url_rule \<times> u16) list \<Rightarrow> http_request \<Rightarrow> client_context \<Rightarrow> bool \<Rightarrow> url_rule list" where
  "url_hits rules request ctx allow =
     filter (\<lambda>rule. (ur_action rule = AllowRule) = allow)
       (map (\<lambda>(_, rule, _). rule) (filter (url_applicable request ctx) rules))"

lemma url_hits_ne:
  "url_hits rules request ctx a \<noteq> [] \<longleftrightarrow>
     (\<exists>(l, rule, m)\<in>set rules. url_applicable request ctx (l, rule, m) \<and> (ur_action rule = AllowRule) = a)"
  by (force simp: url_hits_def filter_empty_conv)

lemma dom_reference_hits: "dom_reference rules q qbit ctx = Some a \<Longrightarrow> dom_hits rules q qbit ctx a \<noteq> []"
  by (auto simp: dom_reference_def split: if_splits)

lemma built_url: "built self A mt \<Longrightarrow> built self A (mt\<lparr> mt_url := u \<rparr>)"
  by (simp add: built_def)

text \<open>C5: A request is decided by both tiers together. The lookup never panics; whatever it answers is
  backed by a rule of the lists that applies to the request or its host, even when it gives up on
  its work allowance; and when it does not give up, the answer is the one of scanning all rules of
  both tiers, where an exception in either tier wins over a block in either. Which rules apply is
  the code's own choice for a request whose type the proxy could not tell: a block restricted to
  types does not apply to it, an exception restricted to types does.\<close>

theorem http_decides:
  assumes lib: "memchr_ok lib" and fits: "ruleset_fits policies texts" and ctx: "knows_policy policies ctx"
  shows "\<exists>mt stats d mt'. compile policies texts = Some (mt, stats) \<and> lookup_http_in lib mt request ctx = Some (d, mt')
    \<and> (\<forall>a. match_class d = Some a \<longrightarrow> url_hits (url_texts policies texts) request ctx a \<noteq> []
         \<or> dom_hits (dom_texts policies texts) (query_name (req_host request)) None ctx a \<noteq> [])
    \<and> (ui_budget_exhausted (mt_url mt') = 0 \<longrightarrow> match_class d = http_reference policies texts request ctx)"
proof -
  let ?dn = "dom_texts policies texts" and ?un = "url_texts policies texts" and ?q = "query_name (req_host request)"
  from ruleset_compiles [OF fits] obtain self mt stats where c: "compile policies texts = Some (mt, stats)"
    "compiled_from self ?dn" "built self (merged ?dn) mt" "mb_policy_universe self = universe policies"
    "url_compile ?un (universe policies) = Some (mt_url mt)" by blast
  have full: "mb_policy_universe self AND ctx_policy_bit ctx \<noteq> 0" "universe policies AND ctx_policy_bit ctx \<noteq> 0"
    using ctx c(4) by (simp_all add: knows_policy_def)
  have uf: "url_fits ?un" using fits by (simp add: ruleset_fits_def Let_def)
  from url_lookup_correct [OF lib uf full(2), of request] c(5) obtain d idx' where
    u: "url_lookup lib (mt_url mt) request ctx = Some (d, idx')"
    and ua: "\<And>i. d = UAllow i \<Longrightarrow> url_hits ?un request ctx True \<noteq> []"
    and ub: "\<And>i. d = UBlock i \<Longrightarrow> url_hits ?un request ctx False \<noteq> []"
    and uc: "ui_budget_exhausted idx' = 0 \<Longrightarrow> url_class d = url_reference ?un request ctx"
    unfolding url_hits_ne by fastforce
  let ?mt = "mt\<lparr> mt_url := idx' \<rparr>"
  from lookup_domain_reference [OF c(2) built_url [OF c(3)] full(1), of idx' "req_host request" None]
  obtain h where h: "lookup_domain ?mt (req_host request) None ctx = Some h" "match_class h = dom_reference ?dn ?q None ctx"
    by blast
  let ?d = "case d of UAllow index \<Rightarrow> MAllow (RuleRef (index OR URL_TIER))
     | _ \<Rightarrow> (let blocked = (case d of UBlock index \<Rightarrow> Some (RuleRef (index OR URL_TIER)) | _ \<Rightarrow> None)
             in case h of MAllow rule \<Rightarrow> MAllow rule
               | MBlock rule \<Rightarrow> MBlock (case blocked of Some r \<Rightarrow> r | None \<Rightarrow> rule)
               | MPass \<Rightarrow> (case blocked of Some r \<Rightarrow> MBlock r | None \<Rightarrow> MPass))"
  have look: "lookup_http_in lib mt request ctx = Some (?d, ?mt)"
    using h(1) by (cases d) (simp_all add: lookup_http_in_def u Let_def)
  have cls: "match_class ?d = both_tiers (url_class d) (match_class h)"
    by (cases d; cases h) (simp_all add: both_tiers_def url_class_def match_class_def)
  have sound: "url_hits ?un request ctx a \<noteq> [] \<or> dom_hits ?dn ?q None ctx a \<noteq> []" if "match_class ?d = Some a" for a
  proof -
    from that cls consider "url_class d = Some a" | "match_class h = Some a"
      by (auto simp: both_tiers_def split: if_splits)
    then show ?thesis
    proof cases
      case 1
      then show ?thesis using ua ub by (cases d) (auto simp: url_class_def)
    next
      case 2
      then show ?thesis using h(2) dom_reference_hits by metis
    qed
  qed
  have "match_class ?d = http_reference policies texts request ctx" if "ui_budget_exhausted (mt_url ?mt) = 0"
    using that uc cls h(2) by (simp add: http_reference_def)
  with c(1) look sound show ?thesis by blast
qed

section \<open>A ruleset of two lists\<close>

definition sample_texts :: "(string \<times> string) list" where
  "sample_texts = [(''ads'', ''||a.io^''), (''user-rules'', ''@@||b.a.io^'')]"

lemma parse_block: "parse ''||a.io^'' =
  \<lparr> prl_format = Adblock, prl_rules = [Active (plain_rule ''a.io'' BlockRule True)],
    prl_parse_errors = 0, prl_parse_error_lines = [] \<rparr>"
  by code_simp

lemma parse_allow: "parse ''@@||b.a.io^'' =
  \<lparr> prl_format = Adblock, prl_rules = [Active (plain_rule ''b.a.io'' AllowRule True)],
    prl_parse_errors = 0, prl_parse_error_lines = [] \<rparr>"
  by code_simp

lemma sample_listed: "listed policies 0 sample_texts =
  [(0, Active (plain_rule ''a.io'' BlockRule True), mask_for_list policies ''ads''),
   (1, Active (plain_rule ''b.a.io'' AllowRule True), mask_for_list policies ''user-rules'')]"
  by (simp add: sample_texts_def parse_block parse_allow)

lemma sample_rules:
  "dom_texts policies sample_texts =
     [(0, plain_rule ''a.io'' BlockRule True, mask_for_list policies ''ads''),
      (1, plain_rule ''b.a.io'' AllowRule True, mask_for_list policies ''user-rules'')]"
  "url_texts policies sample_texts = []"
  by (simp_all add: sample_listed)

lemma sample_fits: "ruleset_fits policies sample_texts"
  unfolding ruleset_fits_def Let_def sample_rules
  by (simp add: dom_fits_def MAX_RECORDS_eq plain_rule_def url_fits_def url_entries_def keys_apart_def sample_texts_def)

lemma sample_knows: "knows_policy single_default default_context"
  by code_simp

theorem dns_decides_witness:
  "\<exists>mt stats d. compile single_default sample_texts = Some (mt, stats)
     \<and> lookup_in mt ''B.A.io.'' QA default_context = Some d \<and> match_class d = Some True"
proof -
  have "dom_reference (dom_texts single_default sample_texts) (query_name ''B.A.io.'') (Some (qtype_bit QA)) default_context = Some True"
    unfolding sample_rules by code_simp
  with dns_decides [OF sample_fits sample_knows, of "''B.A.io.''" QA] show ?thesis by simp
qed

theorem dns_reports_most_specific_witness:
  "\<exists>mt stats d v. compile single_default sample_texts = Some (mt, stats)
     \<and> lookup_in mt ''x.a.io'' QAaaa default_context = Some d \<and> materialize mt d = Some v \<and> (v = Pass \<longleftrightarrow> d = MPass)"
  using dns_reports_most_specific [OF sample_fits sample_knows, of "''x.a.io''" QAaaa]
  by (fastforce simp: materialize_def split: verdict.splits)

theorem http_decides_witness:
  "\<exists>mt stats d mt'. compile single_default sample_texts = Some (mt, stats)
     \<and> lookup_http_in memchr_scalar mt (sample_request ''http://a.example/ads'') default_context = Some (d, mt')
     \<and> match_class d = None"
proof -
  let ?r = "sample_request ''http://a.example/ads''"
  have none: "url_hits (url_texts single_default sample_texts) ?r default_context a = []"
    "dom_hits (dom_texts single_default sample_texts) (query_name (req_host ?r)) None default_context a = []" for a
    unfolding sample_rules by (cases a; code_simp)+
  from http_decides [OF memchr_scalar_ok sample_fits sample_knows, of ?r] show ?thesis
    unfolding none by (metis option.exhaust)
qed
end
