(* ===== verification/Isolation.thy ===== *)
theory Isolation
  imports Ruleset
begin

text \<open>
  One ruleset serves every policy: rules carry the mask of the policies that see their list. The
  theorem here is what makes that sound. For a client under a policy, the combined ruleset decides
  as one compiled from the policy's own lists alone.
\<close>

section \<open>Numbering and leaving out lists\<close>

lemma subseq_sum_list: "subseq xs ys \<Longrightarrow> sum_list (map f xs) \<le> sum_list (map (f :: 'a \<Rightarrow> nat) ys)"
  by (induction rule: list_emb.induct) auto

lemma subseq_subset: "subseq xs ys \<Longrightarrow> set xs \<subseteq> set ys"
  by (induction rule: list_emb.induct) auto

lemma listed_subseq:
  "subseq (map snd (listed policies k (filter P texts))) (map snd (listed policies n texts))"
proof (induction texts arbitrary: k n)
  case (Cons t texts)
  obtain name content where t: "t = (name, content)" by (cases t)
  show ?case
  proof (cases "P t")
    case True
    with Cons.IH [of "Suc k" "Suc n"] show ?thesis by (simp add: t o_def list_emb_append_mono)
  next
    case False
    with Cons.IH [of k "Suc n"] show ?thesis by (simp add: t subseq_drop_many)
  qed
qed simp

definition actives :: "(parsed_rule \<times> u16) list \<Rightarrow> (domain_rule \<times> u16) list" where
  "actives = List.map_filter (\<lambda>(rule, m). case rule of Active r \<Rightarrow> Some (r, m) | _ \<Rightarrow> None)"

definition urls :: "(parsed_rule \<times> u16) list \<Rightarrow> (url_rule \<times> u16) list" where
  "urls = List.map_filter (\<lambda>(rule, m). case rule of Url r \<Rightarrow> Some (r, m) | _ \<Rightarrow> None)"

lemma snd_dom_rules: "map snd (dom_rules xs) = actives (map snd xs)"
  by (induction xs) (auto simp: dom_rules_def actives_def split: rule_kind.splits)

lemma snd_url_rules: "map snd (url_rules xs) = urls (map snd xs)"
  by (induction xs) (auto simp: url_rules_def urls_def split: rule_kind.splits)

lemma subseq_actives: "subseq xs ys \<Longrightarrow> subseq (actives xs) (actives ys)"
  and subseq_urls: "subseq xs ys \<Longrightarrow> subseq (urls xs) (urls ys)"
  by (auto simp: actives_def urls_def List.map_filter_def intro!: subseq_map subseq_filter)

lemma dom_fits_subseq:
  assumes "subseq (map snd xs) (map snd ys)" "dom_fits ys"
  shows "dom_fits xs"
proof -
  have w: "dom_weight zs = sum_list (map (\<lambda>(r, _). length (dr_domain r)) (map snd zs))" for zs :: "listed_rule list"
    by (induction zs) (auto simp: dom_weight_def)
  have "dom_weight xs \<le> dom_weight ys" unfolding w by (rule subseq_sum_list [OF assms(1)])
  moreover have "length xs \<le> length ys" using list_emb_length [OF assms(1)] by simp
  ultimately show ?thesis using assms(2) unfolding dom_fits_def by linarith
qed

lemma keys_apart_subset: "set xs \<subseteq> set ys \<Longrightarrow> keys_apart ys \<Longrightarrow> keys_apart xs"
  unfolding keys_apart_def list_all_iff Let_def by (meson subsetD)

lemma url_fits_subseq:
  assumes "subseq (map snd xs) (map snd ys)" "url_fits ys"
  shows "url_fits xs"
proof -
  have e: "map fst (url_entries zs) = map (\<lambda>(r, m). sem_of_rule r) (filter (\<lambda>(r, m). url_accepted r) (map snd zs))"
    for zs :: "(u16 \<times> url_rule \<times> u16) list"
    by (induction zs) (auto simp: url_entries_def)
  have "subseq (map fst (url_entries xs)) (map fst (url_entries ys))"
    unfolding e by (intro subseq_map subseq_filter assms(1))
  then have "set (map fst (url_entries xs)) \<subseteq> set (map fst (url_entries ys))"
    by (rule subseq_subset)
  then have k: "keys_apart (map fst (url_entries xs))" using assms(2) keys_apart_subset unfolding url_fits_def by blast
  have s: "sum_list (map (\<lambda>(_, r, _). f r) zs) = sum_list (map (\<lambda>(r, _). f r) (map snd zs))"
    for zs :: "(u16 \<times> url_rule \<times> u16) list" and f :: "url_rule \<Rightarrow> nat"
    by (induction zs) auto
  have "sum_list (map (\<lambda>(_, r, _). f r) xs) \<le> sum_list (map (\<lambda>(_, r, _). f r) ys)" for f :: "url_rule \<Rightarrow> nat"
    unfolding s by (rule subseq_sum_list [OF assms(1)])
  from this [of "\<lambda>r. length (ur_pattern r)"] this [of "\<lambda>r. length (rule_domains r)"]
  have "sum_list (map (\<lambda>(_, r, _). length (ur_pattern r)) xs) \<le> sum_list (map (\<lambda>(_, r, _). length (ur_pattern r)) ys)"
    "sum_list (map (\<lambda>(_, r, _). length (rule_domains r)) xs) \<le> sum_list (map (\<lambda>(_, r, _). length (rule_domains r)) ys)" .
  moreover have "length xs \<le> length ys" using list_emb_length [OF assms(1)] by simp
  ultimately show ?thesis using assms(2) k unfolding url_fits_def by linarith
qed

lemma ruleset_fits_filter:
  assumes "ruleset_fits policies texts"
  shows "ruleset_fits policies (filter P texts)"
proof -
  note s = listed_subseq [of policies 0 P texts 0]
  have "subseq (map snd (dom_texts policies (filter P texts))) (map snd (dom_texts policies texts))"
    "subseq (map snd (url_texts policies (filter P texts))) (map snd (url_texts policies texts))"
    unfolding snd_dom_rules snd_url_rules by (simp_all add: s subseq_actives subseq_urls)
  from dom_fits_subseq [OF this(1)] url_fits_subseq [OF this(2)] assms length_filter_le [of P texts]
  show ?thesis unfolding ruleset_fits_def Let_def by linarith
qed

section \<open>What a policy sees\<close>

definition in_view :: "policy_set \<Rightarrow> nat \<Rightarrow> string \<times> string \<Rightarrow> bool" where
  "in_view policies i = (\<lambda>(name, _). i = 0 \<or> policy_sees (ps_policies policies ! i) name)"

lemma policy_and_bit:
  assumes "i < 16" "ctx_policy ctx = PolicyId (of_nat i)"
  shows "m AND ctx_policy_bit ctx \<noteq> 0 \<longleftrightarrow> bit m i"
proof -
  have "bit (m AND ctx_policy_bit ctx) k \<longleftrightarrow> bit m i \<and> k = i" for k
    using policy_bit_of_nat [OF assms(1), of k] by (auto simp: ctx_policy_bit_def assms(2) bit_and_iff)
  moreover have "x = 0 \<longleftrightarrow> (\<forall>k. \<not> bit x k)" for x :: u16 by (auto intro: bit_word_eqI)
  ultimately show ?thesis by metis
qed

lemma view_bit:
  assumes "i < length (ps_policies policies)" "length (ps_policies policies) \<le> POLICY_MAX" "ctx_policy ctx = PolicyId (of_nat i)"
  shows "mask_for_list policies name AND ctx_policy_bit ctx \<noteq> 0 \<longleftrightarrow> in_view policies i (name, content)"
    "knows_policy policies ctx"
proof -
  have i: "i < 16" and n: "length (ps_policies policies) \<le> 16" using assms by (auto simp: POLICY_MAX_def)
  note b = policy_and_bit [OF i assms(3)]
  have "bit (mask_for_list policies name) i \<longleftrightarrow> i = 0 \<or> policy_sees (ps_policies policies ! i) name" "bit (universe policies) i"
  proof -
    have "bit ALL_POLICIES 0" by (simp add: ALL_POLICIES_def)
    moreover have "i = 0" if "is_default_only policies" using that assms(1) by (simp add: is_default_only_def)
    ultimately show "bit (mask_for_list policies name) i \<longleftrightarrow> i = 0 \<or> policy_sees (ps_policies policies ! i) name" "bit (universe policies) i"
      using mask_for_list_bit [OF _ n, of name i] universe_bit [OF _ n, of i] assms(1)
      by (cases "is_default_only policies"; auto simp: mask_for_list_def universe_def)+
  qed
  with b show "mask_for_list policies name AND ctx_policy_bit ctx \<noteq> 0 \<longleftrightarrow> in_view policies i (name, content)" "knows_policy policies ctx"
    by (simp_all add: in_view_def knows_policy_def)
qed

text \<open>Only the rules under a mask that meets the policy are hits, whatever number their list has.\<close>

lemma dom_hits_append: "dom_hits (xs @ ys) q qbit ctx a = dom_hits xs q qbit ctx a @ dom_hits ys q qbit ctx a"
  by (simp add: dom_hits_def)

lemma url_hits_append: "url_hits (xs @ ys) request ctx a = url_hits xs request ctx a @ url_hits ys request ctx a"
  by (simp add: url_hits_def)

lemma hits_of_list:
  "dom_hits (dom_rules (map (\<lambda>rule. (k, rule, m)) rs)) q qbit ctx a =
     (if m AND ctx_policy_bit ctx \<noteq> 0 then dom_hits (dom_rules (map (\<lambda>rule. (n, rule, m)) rs)) q qbit ctx a else [])"
  "url_hits (url_rules (map (\<lambda>rule. (k, rule, m)) rs)) request ctx a =
     (if m AND ctx_policy_bit ctx \<noteq> 0 then url_hits (url_rules (map (\<lambda>rule. (n, rule, m)) rs)) request ctx a else [])"
proof (induction rs)
  case (Cons r rs)
  {
    case 1
    show ?case using Cons(1) by (cases r) (auto simp: dom_hits_def dom_applicable_def)
  next
    case 2
    show ?case using Cons(2) by (cases r) (auto simp: url_hits_def url_applicable_def)
  }
qed (simp_all add: dom_hits_def url_hits_def)

lemma hits_in_view:
  assumes "\<And>name content. mask_for_list policies name AND ctx_policy_bit ctx \<noteq> 0 \<longleftrightarrow> P (name, content)"
  shows "dom_hits (dom_rules (listed policies n texts)) q qbit ctx a = dom_hits (dom_rules (listed policies k (filter P texts))) q qbit ctx a"
    "url_hits (url_rules (listed policies n texts)) request ctx a = url_hits (url_rules (listed policies k (filter P texts))) request ctx a"
proof (induction texts arbitrary: n k)
  case (Cons t texts)
  obtain name content where t: "t = (name, content)" by (cases t)
  {
    case 1
    show ?case using Cons.IH(1) [of "Suc n" "Suc k"] Cons.IH(1) [of "Suc n" k] assms [of name content] by (cases "P t") (simp_all add: t dom_hits_append hits_of_list(1) [where k = "of_nat n" and n = "of_nat k"])
  next
    case 2
    show ?case using Cons.IH(2) [of "Suc n" "Suc k"] Cons.IH(2) [of "Suc n" k] assms [of name content] by (cases "P t") (simp_all add: t url_hits_append hits_of_list(2) [where k = "of_nat n" and n = "of_nat k"])
  }
qed simp_all

lemma url_reference_hits:
  "url_reference rules request ctx =
     (if url_hits rules request ctx True \<noteq> [] then Some True
      else if url_hits rules request ctx False \<noteq> [] then Some False else None)"
  by (force simp: url_reference_def url_hits_def list_ex_iff filter_empty_conv Let_def)

text \<open>C6: Policies do not interfere. For a client under policy \<open>i\<close>, a name looked up in the ruleset
  compiled from all lists is decided as in the ruleset compiled from only the lists the policy
  sees, as if the others did not exist; and so is what scanning the rules says of any request.\<close>

theorem policies_isolated:
  assumes "ruleset_fits policies texts" "i < length (ps_policies policies)" "length (ps_policies policies) \<le> POLICY_MAX"
    "ctx_policy ctx = PolicyId (of_nat i)"
  shows "\<exists>all st own st' d d'. compile policies texts = Some (all, st)
    \<and> compile policies (filter (in_view policies i) texts) = Some (own, st')
    \<and> lookup_in all domain qtype ctx = Some d \<and> lookup_in own domain qtype ctx = Some d' \<and> match_class d = match_class d'
    \<and> http_reference policies texts request ctx = http_reference policies (filter (in_view policies i) texts) request ctx"
proof -
  let ?own = "filter (in_view policies i) texts"
  note v = view_bit [OF assms(2-4)]
  note h = hits_in_view [of policies ctx "in_view policies i", OF v(1), of 0 texts]
  have dom: "dom_reference (dom_texts policies texts) q qbit ctx = dom_reference (dom_texts policies ?own) q qbit ctx" for q qbit
    using h(1) [of q qbit] by (simp add: dom_reference_def)
  have url: "url_reference (url_texts policies texts) request ctx = url_reference (url_texts policies ?own) request ctx"
    using h(2) by (simp add: url_reference_hits)
  have "http_reference policies texts request ctx = http_reference policies ?own request ctx"
    by (simp add: http_reference_def dom url)
  moreover note dom ruleset_lookup [OF assms(1) v(2), of domain "Some (qtype_bit qtype)"]
    ruleset_lookup [OF ruleset_fits_filter [OF assms(1)] v(2), of "in_view policies i" domain "Some (qtype_bit qtype)"]
  ultimately show ?thesis unfolding lookup_in_def by metis
qed

definition two_policies :: policy_set where
  "two_policies = single_default\<lparr> ps_policies := ps_policies single_default @
     [\<lparr> cp_policy = \<lparr> pol_id = ''kids'', pol_name = ''Kids'', pol_lists = [''ads''], pol_blocking_mode = None \<rparr>,
        cp_lists = Some [''ads''] \<rparr>] \<rparr>"

theorem policies_isolated_witness:
  "\<exists>all st d. compile two_policies sample_texts = Some (all, st)
     \<and> lookup_in all ''b.a.io'' QA \<lparr> ctx_policy = PolicyId 1, ctx_ip = None, ctx_name = None \<rparr> = Some d
     \<and> (\<exists>own st' d'. compile two_policies [(''ads'', ''||a.io^'')] = Some (own, st')
          \<and> lookup_in own ''b.a.io'' QA \<lparr> ctx_policy = PolicyId 1, ctx_ip = None, ctx_name = None \<rparr> = Some d' \<and> match_class d = match_class d')"
proof -
  have len: "length (ps_policies two_policies) = 2" by code_simp
  have own: "filter (in_view two_policies 1) sample_texts = [(''ads'', ''||a.io^'')]" by code_simp
  have "1 < length (ps_policies two_policies)" "length (ps_policies two_policies) \<le> POLICY_MAX"
    using len by (simp_all add: POLICY_MAX_def)
  from policies_isolated [OF sample_fits this, of "\<lparr> ctx_policy = PolicyId 1, ctx_ip = None, ctx_name = None \<rparr>" "''b.a.io''" QA, unfolded own]
  show ?thesis by fastforce
qed
end
