(* ===== verification/Dns_Wire.thy ===== *)
theory Dns_Wire
  imports Matcher_Builder
begin

text \<open>
  DNS messages as the resolver sees them. The wire format belongs to the \<open>hickory-proto\<close> crate; what
  is written down here is the data the resolver reads and writes (the public fields of \<open>Message\<close>,
  \<open>Record\<close> and \<open>RData\<close>, and the variants the code names), and the bridge of
  \<open>fah-dns/src/qtype.rs\<close>. The crate's own functions are the fields of \<open>hickory\<close>, a parameter of every
  definition that uses them; \<open>hickory_ok\<close> collects what the code relies on.
\<close>

type_synonym wire_name = "string list"
type_synonym dns_class = u16

datatype record_type =
    RT_A | RT_AAAA | RT_HTTPS | RT_SVCB | RT_CNAME | RT_MX | RT_TXT | RT_NS | RT_PTR | RT_SRV
  | RT_SOA | RT_CAA | RT_DS | RT_DNSKEY | RT_NAPTR | RT_Other u16

datatype response_code = NoError | FormErr | ServFail | NXDomain | NotImp | Refused | OtherCode u16

datatype op_code = OpQuery | OpOther u8

datatype rdata = RData_A u32 | RData_AAAA "128 word" | RData_SOA u32 | RData_Other string

record rr =
  rr_name :: wire_name
  rr_ttl :: u32
  rr_data :: rdata

record wire_query =
  wq_name :: wire_name
  wq_type :: record_type
  wq_class :: dns_class

record edns =
  ed_max_payload :: u16
  ed_dnssec_ok :: bool

record message =
  msg_id :: u16
  msg_is_query :: bool
  msg_op_code :: op_code
  msg_response_code :: response_code
  msg_truncation :: bool
  msg_recursion_desired :: bool
  msg_recursion_available :: bool
  msg_authentic_data :: bool
  msg_queries :: "wire_query list"
  msg_answers :: "rr list"
  msg_authorities :: "rr list"
  msg_edns :: "edns option"

text \<open>\<open>hk_from_vec\<close> and \<open>hk_to_vec\<close> decode and encode, \<open>hk_truncate\<close> is \<open>Message::truncate\<close>,
  \<open>hk_response\<close> and \<open>hk_error\<close> are \<open>Message::response\<close> and \<open>Message::error_msg\<close>, \<open>hk_query\<close> is
  \<open>Message::query\<close> (which draws a random id, here its argument), \<open>hk_edns\<close> is \<open>Edns::new\<close>, \<open>hk_display\<close>
  prints a name and \<open>hk_name\<close> is \<open>Name::from_ascii\<close>.\<close>

record hickory =
  hk_from_vec :: "string \<Rightarrow> message option"
  hk_to_vec :: "message \<Rightarrow> string option"
  hk_truncate :: "message \<Rightarrow> message"
  hk_response :: "u16 \<Rightarrow> op_code \<Rightarrow> message"
  hk_error :: "u16 \<Rightarrow> op_code \<Rightarrow> response_code \<Rightarrow> message"
  hk_query :: "u16 \<Rightarrow> message"
  hk_edns :: edns
  hk_display :: "wire_name \<Rightarrow> string"
  hk_name :: "string \<Rightarrow> wire_name option"

text \<open>A new response carries its id and op code, is no query, has empty sections and no flag set.\<close>

definition fresh_response :: "u16 \<Rightarrow> op_code \<Rightarrow> message" where
  "fresh_response mid op =
     \<lparr> msg_id = mid, msg_is_query = False, msg_op_code = op, msg_response_code = NoError, msg_truncation = False,
       msg_recursion_desired = False, msg_recursion_available = False, msg_authentic_data = False,
       msg_queries = [], msg_answers = [], msg_authorities = [], msg_edns = None \<rparr>"

definition hickory_ok :: "hickory \<Rightarrow> bool" where
  "hickory_ok hk \<longleftrightarrow> (\<forall>mid op. hk_response hk mid op = fresh_response mid op)"

section \<open>The bridge to the rule engine\<close>

fun to_fah_query_type :: "record_type \<Rightarrow> query_type" where
  "to_fah_query_type RT_A = QA"
| "to_fah_query_type RT_AAAA = QAaaa"
| "to_fah_query_type RT_HTTPS = QHttps"
| "to_fah_query_type RT_SVCB = QSvcb"
| "to_fah_query_type RT_CNAME = QCname"
| "to_fah_query_type RT_MX = QMx"
| "to_fah_query_type RT_TXT = QTxt"
| "to_fah_query_type RT_NS = QNs"
| "to_fah_query_type RT_PTR = QPtr"
| "to_fah_query_type RT_SRV = QSrv"
| "to_fah_query_type RT_SOA = QSoa"
| "to_fah_query_type RT_CAA = QCaa"
| "to_fah_query_type RT_DS = QDs"
| "to_fah_query_type RT_DNSKEY = QDnskey"
| "to_fah_query_type RT_NAPTR = QNaptr"
| "to_fah_query_type (RT_Other code) = QOther code"

definition domain_of_name :: "hickory \<Rightarrow> wire_name \<Rightarrow> string" where
  "domain_of_name hk name = hk_display hk name"

end
