(* ===== verification/Cache.thy ===== *)
theory Cache
  imports Dns_Wire "HOL-Library.AList"
begin

text \<open>
  The answer cache (\<open>fah-dns/src/cache.rs\<close>): sixteen shards, each a map with an insertion-order queue,
  bounded in entries and in bytes; answers are fresh until their TTL, then servable as stale for a
  day, and a stale hit may claim the right to refresh.

  A shard is locked for the whole of an operation on it, so an operation is a function on the state.
  \<open>Instant\<close> is a number of nanoseconds and the clock an argument. A \<open>HashMap\<close> the code iterates over is
  an association list with distinct keys. The random hash function is a field of the cache, and the
  sizes of two structs are a parameter.
\<close>

section \<open>Constants and entries\<close>

definition SHARD_COUNT :: nat where
  "SHARD_COUNT = 16"

definition SECOND :: int where
  "SECOND = 1000000000"

definition MAX_STALE :: int where
  "MAX_STALE = 24 * 60 * 60 * SECOND"

definition STALE_SERVE_TTL :: u32 where
  "STALE_SERVE_TTL = 30"

definition DEFAULT_REFRESH_CLAIM_LEASE :: int where
  "DEFAULT_REFRESH_CLAIM_LEASE = 5 * SECOND"

definition REFRESH_FAILURE_COOLDOWN :: int where
  "REFRESH_FAILURE_COOLDOWN = 30 * SECOND"

definition RECORD_HEAP_ALLOWANCE :: nat where
  "RECORD_HEAP_ALLOWANCE = 48"

record cache_key =
  ck_domain :: string
  ck_qtype :: record_type
  ck_qclass :: dns_class

record cached_answer =
  an_records :: "rr list"
  an_authorities :: "rr list"
  an_response_code :: response_code

record cache_entry =
  ce_answer :: cached_answer
  ce_inserted_at :: int
  ce_ttl :: int
  ce_seq :: nat
  ce_suppressed_until :: "int option"

datatype entry_state = EFresh | EStale | EExpired

definition expires_at :: "cache_entry \<Rightarrow> int" where
  "expires_at e = ce_inserted_at e + ce_ttl e"

definition stale_deadline :: "cache_entry \<Rightarrow> int" where
  "stale_deadline e = expires_at e + MAX_STALE"

definition state_of :: "cache_entry \<Rightarrow> int \<Rightarrow> bool \<Rightarrow> entry_state" where
  "state_of e now serve_stale =
     (if now < expires_at e then EFresh
      else if serve_stale \<and> now < stale_deadline e then EStale
      else EExpired)"

text \<open>\<open>size_of\<close> of \<open>CachedAnswer\<close> and of \<open>Record\<close>; a \<open>usize\<close> has eight bytes.\<close>

record sizes =
  sz_answer :: nat
  sz_record :: nat

definition alloc_rounded :: "nat \<Rightarrow> nat" where
  "alloc_rounded bytes = (bytes + 15) div 16 * 16"

definition entry_heap_bytes :: "sizes \<Rightarrow> cache_key \<Rightarrow> cache_entry \<Rightarrow> nat" where
  "entry_heap_bytes sz key e =
     (let records = length (an_records (ce_answer e));
          authorities = length (an_authorities (ce_answer e))
      in alloc_rounded (length (ck_domain key))
       + alloc_rounded (2 * 8 + sz_answer sz)
       + alloc_rounded (records * sz_record sz)
       + alloc_rounded (authorities * sz_record sz)
       + (records + authorities) * RECORD_HEAP_ALLOWANCE)"

section \<open>One shard\<close>

record shard =
  sh_map :: "(cache_key \<times> cache_entry) list"
  sh_queue :: "(cache_key \<times> nat) list"
  sh_next_seq :: nat
  sh_capacity :: nat
  sh_byte_capacity :: nat
  sh_bytes :: nat

definition shard_remove :: "sizes \<Rightarrow> cache_key \<Rightarrow> shard \<Rightarrow> nat \<times> shard" where
  "shard_remove sz key sh =
     (case map_of (sh_map sh) key of
        Some e \<Rightarrow>
          let freed = entry_heap_bytes sz key e
          in (freed, sh\<lparr> sh_map := AList.delete key (sh_map sh), sh_bytes := sh_bytes sh - freed \<rparr>)
      | None \<Rightarrow> (0, sh))"

text \<open>Whether a queue node is the one of a live entry.\<close>

definition node_live :: "(cache_key \<times> cache_entry) list \<Rightarrow> cache_key \<times> nat \<Rightarrow> bool" where
  "node_live m = (\<lambda>(key, seq). case map_of m key of Some e \<Rightarrow> ce_seq e = seq | None \<Rightarrow> False)"

function evict_oldest :: "sizes \<Rightarrow> shard \<Rightarrow> shard" where
  "evict_oldest sz sh =
     (case sh_queue sh of
        node # queue \<Rightarrow>
          let sh = sh\<lparr> sh_queue := queue \<rparr>
          in if node_live (sh_map sh) node then snd (shard_remove sz (fst node) sh)
             else evict_oldest sz sh
      | [] \<Rightarrow>
          (case sh_map sh of
             [] \<Rightarrow> sh
           | (key, _) # _ \<Rightarrow> snd (shard_remove sz key sh)))"
  by pat_completeness auto
termination
  by (relation "measure (\<lambda>(sz, sh). length (sh_queue sh))") auto

declare evict_oldest.simps [simp del]

definition over_bounds :: "shard \<Rightarrow> bool" where
  "over_bounds sh \<longleftrightarrow> sh_capacity sh < length (sh_map sh) \<or> sh_byte_capacity sh < sh_bytes sh"

definition sweep_queue :: "shard \<Rightarrow> shard" where
  "sweep_queue sh = sh\<lparr> sh_queue := filter (node_live (sh_map sh)) (sh_queue sh) \<rparr>"

definition compact :: "shard \<Rightarrow> shard" where
  "compact sh = (if sh_capacity sh * 2 < length (sh_queue sh) then sweep_queue sh else sh)"

lemma length_delete_less: "map_of m k = Some e \<Longrightarrow> length (AList.delete k m) < length m"
  unfolding AList.delete_eq
  by (rule length_filter_less [where x = "(k, e)"]) (auto dest: map_of_SomeD)

lemma evict_oldest_shrinks: "sh_map sh \<noteq> [] \<Longrightarrow> length (sh_map (evict_oldest sz sh)) < length (sh_map sh)"
proof (induction sz sh rule: evict_oldest.induct)
  case (1 sz sh)
  show ?case
  proof (cases "sh_queue sh")
    case Nil
    obtain k e m where m: "sh_map sh = (k, e) # m" using 1(2) by (cases "sh_map sh") auto
    then show ?thesis
      using length_delete_less [of "sh_map sh" k e]
      by (subst evict_oldest.simps) (simp add: Nil shard_remove_def Let_def)
  next
    case (Cons node queue)
    show ?thesis
    proof (cases "node_live (sh_map sh) node")
      case True
      then obtain e where "map_of (sh_map sh) (fst node) = Some e"
        by (cases node) (auto simp: node_live_def split: option.splits)
      with True show ?thesis
        using length_delete_less [of "sh_map sh" "fst node" e]
        by (subst evict_oldest.simps) (simp add: Cons shard_remove_def Let_def)
    next
      case False
      with 1(1) [OF Cons refl] 1(2) show ?thesis
        by (subst evict_oldest.simps) (simp add: Cons)
    qed
  qed
qed

text \<open>Evicting until both bounds hold or one entry is left; the second component counts.\<close>

function evict_loop :: "sizes \<Rightarrow> shard \<Rightarrow> u64 \<Rightarrow> shard \<times> u64" where
  "evict_loop sz sh evictions =
     (if over_bounds sh \<and> 1 < length (sh_map sh)
      then evict_loop sz (evict_oldest sz sh) (evictions + 1)
      else (sh, evictions))"
  by pat_completeness auto
termination
  by (relation "measure (\<lambda>(sz, sh, _). length (sh_map sh))") (auto intro: evict_oldest_shrinks)

declare evict_loop.simps [simp del]

definition shard_insert ::
  "sizes \<Rightarrow> int \<Rightarrow> cache_key \<Rightarrow> cached_answer \<Rightarrow> u32 \<Rightarrow> shard \<Rightarrow> u64 \<Rightarrow> shard \<times> u64" where
  "shard_insert sz now key answer ttl_seconds sh evictions =
     (let entry = \<lparr> ce_answer = answer, ce_inserted_at = now, ce_ttl = uint ttl_seconds * SECOND,
                    ce_seq = sh_next_seq sh, ce_suppressed_until = None \<rparr>;
          added = entry_heap_bytes sz key entry;
          kept = (case map_of (sh_map sh) key of
                    Some previous \<Rightarrow> sh_bytes sh - entry_heap_bytes sz key previous
                  | None \<Rightarrow> sh_bytes sh);
          sh = sh\<lparr> sh_next_seq := sh_next_seq sh + 1, sh_queue := sh_queue sh @ [(key, ce_seq entry)],
                   sh_map := AList.update key entry (sh_map sh), sh_bytes := kept + added \<rparr>;
          (sh, evictions) = evict_loop sz sh evictions
      in (compact sh, evictions))"

section \<open>The cache\<close>

record dns_cache_config =
  cfg_max_entries :: u32
  cfg_max_bytes :: u64
  cfg_min_ttl_seconds :: u32
  cfg_max_ttl_seconds :: u32
  cfg_negative_ttl_max_seconds :: u32
  cfg_serve_stale :: bool
  cfg_swr_workers :: u32
  cfg_cleanup_interval_seconds :: u32

record dns_cache =
  dc_shards :: "shard list"
  dc_hash :: "cache_key \<Rightarrow> u64"
  dc_min_ttl :: u32
  dc_max_ttl :: u32
  dc_negative_ttl_max :: u32
  dc_serve_stale :: bool
  dc_refresh_claim_lease :: int
  dc_hits :: u64
  dc_misses :: u64
  dc_evictions :: u64
  dc_cleanup_runs :: u64
  dc_cleanup_entries_removed :: u64
  dc_cleanup_bytes_freed :: u64

definition empty_shard :: "nat \<Rightarrow> nat \<Rightarrow> shard" where
  "empty_shard capacity byte_capacity =
     \<lparr> sh_map = [], sh_queue = [], sh_next_seq = 0, sh_capacity = capacity, sh_byte_capacity = byte_capacity, sh_bytes = 0 \<rparr>"

definition cache_new :: "dns_cache_config \<Rightarrow> int \<Rightarrow> (cache_key \<Rightarrow> u64) \<Rightarrow> dns_cache" where
  "cache_new config refresh_claim_lease hash =
     (let capacity = max (unat (cfg_max_entries config) div SHARD_COUNT) 1;
          byte_capacity = max (unat (cfg_max_bytes config) div SHARD_COUNT) 1
      in \<lparr> dc_shards = replicate SHARD_COUNT (empty_shard capacity byte_capacity), dc_hash = hash,
           dc_min_ttl = cfg_min_ttl_seconds config,
           dc_max_ttl = max (cfg_max_ttl_seconds config) (cfg_min_ttl_seconds config),
           dc_negative_ttl_max = cfg_negative_ttl_max_seconds config, dc_serve_stale = cfg_serve_stale config,
           dc_refresh_claim_lease = refresh_claim_lease, dc_hits = 0, dc_misses = 0, dc_evictions = 0,
           dc_cleanup_runs = 0, dc_cleanup_entries_removed = 0, dc_cleanup_bytes_freed = 0 \<rparr>)"

definition cache_key_of :: "string \<Rightarrow> record_type \<Rightarrow> dns_class \<Rightarrow> cache_key" where
  "cache_key_of domain qtype qclass = \<lparr> ck_domain = domain, ck_qtype = qtype, ck_qclass = qclass \<rparr>"

definition shard_index :: "dns_cache \<Rightarrow> cache_key \<Rightarrow> nat" where
  "shard_index self key = unat (dc_hash self key AND of_nat (SHARD_COUNT - 1))"

text \<open>\<open>&self.shards[i]\<close>, locked, and put back changed.\<close>

definition with_shard :: "dns_cache \<Rightarrow> cache_key \<Rightarrow> (shard \<Rightarrow> 'a \<times> shard) \<Rightarrow> ('a \<times> dns_cache) option" where
  "with_shard self key f = do {
     sh \<leftarrow> index_at (dc_shards self) (shard_index self key);
     let (a, sh) = f sh;
     Some (a, self\<lparr> dc_shards := (dc_shards self)[shard_index self key := sh] \<rparr>)
   }"

datatype lookup_result = LFresh cached_answer u32 | LStale cached_answer bool | LMiss

definition lookup_shard ::
  "dns_cache \<Rightarrow> int \<Rightarrow> cache_key \<Rightarrow> bool \<Rightarrow> shard \<Rightarrow> lookup_result \<times> shard" where
  "lookup_shard self now key claim_refresh sh =
     (case map_of (sh_map sh) key of
        None \<Rightarrow> (LMiss, sh)
      | Some entry \<Rightarrow>
          if now < expires_at entry
          then (LFresh (ce_answer entry) (of_int ((expires_at entry - now) div SECOND)), sh)
          else if dc_serve_stale self \<and> now < stale_deadline entry
          then let suppressed = (case ce_suppressed_until entry of Some until \<Rightarrow> now < until | None \<Rightarrow> False);
                   claimed_refresh = (claim_refresh \<and> \<not> suppressed);
                   sh = (if claimed_refresh
                         then sh\<lparr> sh_map := AList.update key
                                (entry\<lparr> ce_suppressed_until := Some (now + dc_refresh_claim_lease self) \<rparr>) (sh_map sh) \<rparr>
                         else sh)
               in (LStale (ce_answer entry) claimed_refresh, sh)
          else (LMiss, sh))"

definition lookup_inner :: "dns_cache \<Rightarrow> int \<Rightarrow> cache_key \<Rightarrow> bool \<Rightarrow> (lookup_result \<times> dns_cache) option" where
  "lookup_inner self now key claim_refresh = with_shard self key (lookup_shard self now key claim_refresh)"

definition cache_lookup :: "dns_cache \<Rightarrow> int \<Rightarrow> cache_key \<Rightarrow> (lookup_result \<times> dns_cache) option" where
  "cache_lookup self now key = lookup_inner self now key False"

definition lookup_and_claim_refresh :: "dns_cache \<Rightarrow> int \<Rightarrow> cache_key \<Rightarrow> (lookup_result \<times> dns_cache) option" where
  "lookup_and_claim_refresh self now key = lookup_inner self now key True"

definition set_suppressed :: "cache_key \<Rightarrow> int option \<Rightarrow> shard \<Rightarrow> unit \<times> shard" where
  "set_suppressed key until sh =
     (case map_of (sh_map sh) key of
        Some entry \<Rightarrow> ((), sh\<lparr> sh_map := AList.update key (entry\<lparr> ce_suppressed_until := until \<rparr>) (sh_map sh) \<rparr>)
      | None \<Rightarrow> ((), sh))"

definition suppress_refresh :: "dns_cache \<Rightarrow> int \<Rightarrow> cache_key \<Rightarrow> int \<Rightarrow> dns_cache option" where
  "suppress_refresh self now key cooldown = map_option snd (with_shard self key (set_suppressed key (Some (now + cooldown))))"

definition release_refresh_claim :: "dns_cache \<Rightarrow> cache_key \<Rightarrow> dns_cache option" where
  "release_refresh_claim self key = map_option snd (with_shard self key (set_suppressed key None))"

definition positive_ttl :: "rr list \<Rightarrow> u32 \<Rightarrow> u32 \<Rightarrow> u32" where
  "positive_ttl records min_ttl max_ttl =
     (let ttl = (case map rr_ttl records of [] \<Rightarrow> max_ttl | t # ts \<Rightarrow> fold min ts t)
      in min (max ttl min_ttl) max_ttl)"

definition soa_minimum :: "rr \<Rightarrow> u32 option" where
  "soa_minimum r = (case rr_data r of RData_SOA minimum \<Rightarrow> Some minimum | _ \<Rightarrow> None)"

definition negative_ttl :: "message \<Rightarrow> u32 \<Rightarrow> u32" where
  "negative_ttl response negative_ttl_max =
     min (case List.map_filter soa_minimum (msg_authorities response) of [] \<Rightarrow> negative_ttl_max | m # _ \<Rightarrow> m) negative_ttl_max"

definition cache_insert :: "sizes \<Rightarrow> dns_cache \<Rightarrow> int \<Rightarrow> cache_key \<Rightarrow> cached_answer \<Rightarrow> u32 \<Rightarrow> dns_cache option" where
  "cache_insert sz self now key answer ttl_seconds =
     map_option (\<lambda>(evictions, self). self\<lparr> dc_evictions := evictions \<rparr>)
       (with_shard self key (\<lambda>sh. prod.swap (shard_insert sz now key answer ttl_seconds sh (dc_evictions self))))"

definition cache_store :: "sizes \<Rightarrow> dns_cache \<Rightarrow> int \<Rightarrow> cache_key \<Rightarrow> message \<Rightarrow> (bool \<times> dns_cache) option" where
  "cache_store sz self now key response =
     (if msg_truncation response then Some (False, self)
      else let code = msg_response_code response
        in if msg_answers response \<noteq> [] then
             if code \<noteq> NoError then Some (False, self)
             else let ttl = positive_ttl (msg_answers response) (dc_min_ttl self) (dc_max_ttl self)
               in map_option (Pair True)
                    (cache_insert sz self now key
                      \<lparr> an_records = msg_answers response, an_authorities = [], an_response_code = NoError \<rparr> ttl)
           else if code = NoError \<or> code = NXDomain then
             let ttl = negative_ttl response (dc_negative_ttl_max self)
             in map_option (Pair True)
                  (cache_insert sz self now key
                    \<lparr> an_records = [], an_authorities = msg_authorities response, an_response_code = code \<rparr> ttl)
           else Some (False, self))"

definition note_lookup :: "dns_cache \<Rightarrow> bool \<Rightarrow> dns_cache" where
  "note_lookup self hit =
     (if hit then self\<lparr> dc_hits := dc_hits self + 1 \<rparr> else self\<lparr> dc_misses := dc_misses self + 1 \<rparr>)"

section \<open>Cleaning and statistics\<close>

record cache_clean =
  cc_removed_expired :: nat
  cc_removed_stale :: nat
  cc_entries_before :: nat
  cc_entries_after :: nat
  cc_freed_bytes :: nat

definition kept_by_clean :: "int \<Rightarrow> bool \<Rightarrow> bool \<Rightarrow> cache_key \<times> cache_entry \<Rightarrow> bool" where
  "kept_by_clean now serve_stale purge_stale = (\<lambda>(_, e).
     case state_of e now serve_stale of EFresh \<Rightarrow> True | EStale \<Rightarrow> \<not> purge_stale | EExpired \<Rightarrow> False)"

definition heap_sum :: "sizes \<Rightarrow> (cache_key \<times> cache_entry) list \<Rightarrow> nat" where
  "heap_sum sz m = sum_list (map (\<lambda>(k, e). entry_heap_bytes sz k e) m)"

definition clean_shard :: "sizes \<Rightarrow> int \<Rightarrow> bool \<Rightarrow> bool \<Rightarrow> shard \<Rightarrow> cache_clean \<Rightarrow> shard \<times> cache_clean" where
  "clean_shard sz now serve_stale purge_stale sh outcome =
     (let (kept, dropped) = partition (kept_by_clean now serve_stale purge_stale) (sh_map sh);
          stale = length (filter (\<lambda>(_, e). state_of e now serve_stale = EStale) dropped);
          sh' = sh\<lparr> sh_map := kept, sh_bytes := heap_sum sz kept \<rparr>;
          sh' = (if dropped \<noteq> [] then sweep_queue sh' else sh')
      in (sh', outcome\<lparr> cc_entries_before := cc_entries_before outcome + length (sh_map sh),
                        cc_removed_stale := cc_removed_stale outcome + stale,
                        cc_removed_expired := cc_removed_expired outcome + (length dropped - stale),
                        cc_freed_bytes := cc_freed_bytes outcome + heap_sum sz dropped,
                        cc_entries_after := cc_entries_after outcome + length kept \<rparr>))"

fun clean_shards :: "sizes \<Rightarrow> int \<Rightarrow> bool \<Rightarrow> bool \<Rightarrow> shard list \<Rightarrow> cache_clean \<Rightarrow> shard list \<times> cache_clean" where
  "clean_shards sz now serve_stale purge_stale [] outcome = ([], outcome)"
| "clean_shards sz now serve_stale purge_stale (sh # shs) outcome =
     (let (sh, outcome) = clean_shard sz now serve_stale purge_stale sh outcome;
          (shs, outcome) = clean_shards sz now serve_stale purge_stale shs outcome
      in (sh # shs, outcome))"

definition clean :: "sizes \<Rightarrow> dns_cache \<Rightarrow> int \<Rightarrow> bool \<Rightarrow> cache_clean \<times> dns_cache" where
  "clean sz self now purge_stale =
     (let (shs, outcome) = clean_shards sz now (dc_serve_stale self) purge_stale (dc_shards self)
            \<lparr> cc_removed_expired = 0, cc_removed_stale = 0, cc_entries_before = 0, cc_entries_after = 0, cc_freed_bytes = 0 \<rparr>
      in (outcome, self\<lparr> dc_shards := shs, dc_cleanup_runs := dc_cleanup_runs self + 1,
             dc_cleanup_entries_removed := dc_cleanup_entries_removed self + of_nat (cc_removed_expired outcome + cc_removed_stale outcome),
             dc_cleanup_bytes_freed := dc_cleanup_bytes_freed self + of_nat (cc_freed_bytes outcome) \<rparr>))"

record cache_stats =
  cs_entries :: nat
  cs_capacity :: nat
  cs_fresh :: nat
  cs_stale :: nat
  cs_expired :: nat
  cs_hits :: u64
  cs_misses :: u64
  cs_evictions :: u64
  cs_bytes :: nat
  cs_max_bytes :: nat

text \<open>The estimate of table and queue slabs, which only reports allocator figures, is left out.\<close>

definition count_state :: "dns_cache \<Rightarrow> int \<Rightarrow> entry_state \<Rightarrow> nat" where
  "count_state self now st =
     sum_list (map (\<lambda>sh. length (filter (\<lambda>(_, e). state_of e now (dc_serve_stale self) = st) (sh_map sh))) (dc_shards self))"

definition cache_stats_of :: "dns_cache \<Rightarrow> int \<Rightarrow> cache_stats" where
  "cache_stats_of self now =
     \<lparr> cs_entries = sum_list (map (\<lambda>sh. length (sh_map sh)) (dc_shards self)),
       cs_capacity = sum_list (map sh_capacity (dc_shards self)),
       cs_fresh = count_state self now EFresh, cs_stale = count_state self now EStale, cs_expired = count_state self now EExpired,
       cs_hits = dc_hits self, cs_misses = dc_misses self, cs_evictions = dc_evictions self,
       cs_bytes = sum_list (map sh_bytes (dc_shards self)), cs_max_bytes = sum_list (map sh_byte_capacity (dc_shards self)) \<rparr>"

end
