(* ===== verification/Cache_Inv.thy ===== *)
theory Cache_Inv
  imports Cache
begin

text \<open>
  The invariant of a shard and what its operations do to it: the byte total is exact, every live
  entry has one node in the queue, eviction removes the oldest insertion and never the one just
  made, and both bounds hold after every insertion.
\<close>

section \<open>The invariant\<close>

definition shard_ok :: "sizes \<Rightarrow> shard \<Rightarrow> bool" where
  "shard_ok sz sh \<longleftrightarrow>
     distinct (map fst (sh_map sh)) \<and> sh_bytes sh = heap_sum sz (sh_map sh) \<and> 1 \<le> sh_capacity sh \<and>
     sorted_wrt (<) (map snd (sh_queue sh)) \<and> (\<forall>(k, s)\<in>set (sh_queue sh). s < sh_next_seq sh) \<and>
     (\<forall>(k, e)\<in>set (sh_map sh). (k, ce_seq e) \<in> set (sh_queue sh))"

definition shard_bounded :: "shard \<Rightarrow> bool" where
  "shard_bounded sh \<longleftrightarrow>
     length (sh_map sh) \<le> sh_capacity sh \<and> (length (sh_map sh) \<le> 1 \<or> sh_bytes sh \<le> sh_byte_capacity sh) \<and>
     length (sh_queue sh) \<le> 2 * sh_capacity sh"

definition same_limits :: "shard \<Rightarrow> shard \<Rightarrow> bool" where
  "same_limits sh sh' \<longleftrightarrow> sh_capacity sh' = sh_capacity sh \<and> sh_byte_capacity sh' = sh_byte_capacity sh
     \<and> sh_next_seq sh' = sh_next_seq sh"

lemma shard_ok_seqs:
  assumes "shard_ok sz sh" "(k, e) \<in> set (sh_map sh)" "(k', e') \<in> set (sh_map sh)" "ce_seq e = ce_seq e'"
  shows "k = k'" "e = e'"
proof -
  have dist: "distinct (map snd (sh_queue sh))"
    using assms(1) by (simp add: shard_ok_def strict_sorted_iff)
  have "(k, ce_seq e) \<in> set (sh_queue sh)" "(k', ce_seq e) \<in> set (sh_queue sh)"
    using assms by (fastforce simp: shard_ok_def)+
  with dist show k: "k = k'" unfolding distinct_map inj_on_def by force
  have "distinct (map fst (sh_map sh))" using assms(1) by (simp add: shard_ok_def)
  then show "e = e'" using assms(2,3) k by (meson eq_key_imp_eq_value)
qed

lemma heap_sum_delete:
  assumes "distinct (map fst m)" "map_of m k = Some e"
  shows "heap_sum sz m = entry_heap_bytes sz k e + heap_sum sz (AList.delete k m)"
  using assms
proof (induction m)
  case (Cons x m)
  obtain k' e' where x: "x = (k', e')" by (cases x)
  show ?case
  proof (cases "k' = k")
    case True
    with Cons.prems x have "AList.delete k m = m" by (intro AList.delete_id) auto
    with True Cons.prems x show ?thesis by (simp add: heap_sum_def)
  next
    case False
    with Cons x show ?thesis by (simp add: heap_sum_def)
  qed
qed simp

lemma node_live_iff:
  assumes "distinct (map fst m)"
  shows "node_live m (k, s) \<longleftrightarrow> (\<exists>e. (k, e) \<in> set m \<and> ce_seq e = s)"
  unfolding map_of_eq_Some_iff [OF assms, symmetric] by (auto simp: node_live_def split: option.splits)

section \<open>Eviction\<close>

text \<open>Removing the entry whose node is at the front of the queue.\<close>

lemma remove_front_ok:
  assumes ok: "shard_ok sz sh" and q: "sh_queue sh = (k, s) # queue" and live: "node_live (sh_map sh) (k, s)"
  shows "\<exists>e. (k, e) \<in> set (sh_map sh) \<and> ce_seq e = s
    \<and> (\<forall>(k', e')\<in>set (sh_map sh). k' \<noteq> k \<longrightarrow> s < ce_seq e')
    \<and> sh_map (snd (shard_remove sz k (sh\<lparr> sh_queue := queue \<rparr>))) = filter (\<lambda>(_, e'). Suc s \<le> ce_seq e') (sh_map sh)
    \<and> shard_ok sz (snd (shard_remove sz k (sh\<lparr> sh_queue := queue \<rparr>)))"
proof -
  have dist: "distinct (map fst (sh_map sh))" and sorted: "sorted_wrt (<) (s # map snd queue)"
    and nodes: "\<And>k' e'. (k', e') \<in> set (sh_map sh) \<Longrightarrow> (k', ce_seq e') \<in> insert (k, s) (set queue)"
    using ok q by (auto simp: shard_ok_def)
  from live obtain e where e: "(k, e) \<in> set (sh_map sh)" "ce_seq e = s" using node_live_iff [OF dist] by blast
  have later: "s < ce_seq e'" if "(k', e') \<in> set (sh_map sh)" "k' \<noteq> k" for k' e'
    using nodes [OF that(1)] that(2) sorted by auto
  have me: "map_of (sh_map sh) k = Some e" using dist e(1) by (simp add: map_of_is_SomeI)
  have del: "AList.delete k (sh_map sh) = filter (\<lambda>(_, e'). Suc s \<le> ce_seq e') (sh_map sh)"
    unfolding AList.delete_eq
  proof (rule filter_cong [OF refl])
    fix x assume x: "x \<in> set (sh_map sh)"
    obtain k' e' where k': "x = (k', e')" by (cases x)
    have "e' = e" if "k' = k" using dist e(1) x k' that by (metis eq_key_imp_eq_value)
    with later [of k' e'] x k' e(2) show "(case x of (k', uu) \<Rightarrow> k \<noteq> k') \<longleftrightarrow> (case x of (_, e') \<Rightarrow> Suc s \<le> ce_seq e')"
      by (cases "k' = k") auto
  qed
  have "shard_ok sz (snd (shard_remove sz k (sh\<lparr> sh_queue := queue \<rparr>)))"
    unfolding shard_ok_def
  proof (intro conjI)
    show "distinct (map fst (sh_map (snd (shard_remove sz k (sh\<lparr>sh_queue := queue\<rparr>)))))"
      using dist me by (simp add: shard_remove_def Let_def distinct_delete)
    show "sh_bytes (snd (shard_remove sz k (sh\<lparr>sh_queue := queue\<rparr>))) = heap_sum sz (sh_map (snd (shard_remove sz k (sh\<lparr>sh_queue := queue\<rparr>))))"
      using ok me heap_sum_delete [OF dist me, of sz] by (simp add: shard_remove_def Let_def shard_ok_def)
    show "\<forall>(k', e')\<in>set (sh_map (snd (shard_remove sz k (sh\<lparr>sh_queue := queue\<rparr>)))).
        (k', ce_seq e') \<in> set (sh_queue (snd (shard_remove sz k (sh\<lparr>sh_queue := queue\<rparr>))))"
      using me nodes by (auto simp: shard_remove_def Let_def AList.delete_eq)
  qed (use ok q me in \<open>auto simp: shard_remove_def Let_def shard_ok_def\<close>)
  with e later del me show ?thesis by (auto simp: shard_remove_def Let_def)
qed

lemma drop_ghost_ok:
  assumes ok: "shard_ok sz sh" and q: "sh_queue sh = node # queue" and ghost: "\<not> node_live (sh_map sh) node"
  shows "shard_ok sz (sh\<lparr> sh_queue := queue \<rparr>)"
proof -
  have dist: "distinct (map fst (sh_map sh))" using ok by (simp add: shard_ok_def)
  have "(k, ce_seq e) \<noteq> node" if "(k, e) \<in> set (sh_map sh)" for k e
    using ghost node_live_iff [OF dist, of k "ce_seq e"] that by auto
  with ok q show ?thesis by (fastforce simp: shard_ok_def)
qed

lemma evict_oldest_ok:
  assumes "shard_ok sz sh" "sh_map sh \<noteq> []"
  shows "\<exists>k e. (k, e) \<in> set (sh_map sh) \<and> (\<forall>(k', e')\<in>set (sh_map sh). k' \<noteq> k \<longrightarrow> ce_seq e < ce_seq e')
    \<and> sh_map (evict_oldest sz sh) = filter (\<lambda>(_, e'). Suc (ce_seq e) \<le> ce_seq e') (sh_map sh)
    \<and> shard_ok sz (evict_oldest sz sh) \<and> same_limits sh (evict_oldest sz sh)"
  using assms
proof (induction sz sh rule: evict_oldest.induct)
  case (1 sz sh)
  have "set (sh_queue sh) \<noteq> {}" using 1(2,3) by (cases "sh_map sh") (auto simp: shard_ok_def)
  then obtain k s queue where q: "sh_queue sh = (k, s) # queue" by (cases "sh_queue sh") auto
  show ?case
  proof (cases "node_live (sh_map sh) (k, s)")
    case True
    then have e: "evict_oldest sz sh = snd (shard_remove sz k (sh\<lparr> sh_queue := queue \<rparr>))"
      using q by (subst evict_oldest.simps) simp
    have lim: "same_limits sh (snd (shard_remove sz k (sh\<lparr> sh_queue := queue \<rparr>)))"
      by (simp add: same_limits_def shard_remove_def Let_def split: option.splits)
    from remove_front_ok [OF 1(2) q True] lim show ?thesis unfolding e by auto
  next
    case False
    then have e: "evict_oldest sz sh = evict_oldest sz (sh\<lparr> sh_queue := queue \<rparr>)"
      using q by (subst evict_oldest.simps) simp
    from 1(1) [OF q refl] False drop_ghost_ok [OF 1(2) q False] 1(3) show ?thesis unfolding e by (simp add: same_limits_def)
  qed
qed

lemma evict_loop_ok:
  assumes "shard_ok sz sh"
  shows "\<exists>t. sh_map (fst (evict_loop sz sh n)) = filter (\<lambda>(_, e). t \<le> ce_seq e) (sh_map sh)
    \<and> shard_ok sz (fst (evict_loop sz sh n)) \<and> same_limits sh (fst (evict_loop sz sh n))
    \<and> (\<not> over_bounds (fst (evict_loop sz sh n)) \<or> length (sh_map (fst (evict_loop sz sh n))) \<le> 1)
    \<and> (\<forall>x\<in>set (sh_map sh). (\<forall>y\<in>set (sh_map sh). ce_seq (snd y) \<le> ce_seq (snd x)) \<longrightarrow> t \<le> ce_seq (snd x))"
  using assms
proof (induction sz sh n rule: evict_loop.induct)
  case (1 sz sh n)
  show ?case
  proof (cases "over_bounds sh \<and> 1 < length (sh_map sh)")
    case False
    then have "evict_loop sz sh n = (sh, n)" by (subst evict_loop.simps) auto
    moreover have "sh_map sh = filter (\<lambda>(_, e). 0 \<le> ce_seq e) (sh_map sh)" by (simp add: case_prod_beta)
    ultimately show ?thesis using False 1(2) by (intro exI [of _ 0]) (auto simp: same_limits_def case_prod_beta)
  next
    case True
    let ?sh = "evict_oldest sz sh"
    have loop: "evict_loop sz sh n = evict_loop sz ?sh (n + 1)" using True by (subst evict_loop.simps) simp
    have ne: "sh_map sh \<noteq> []" using True by auto
    from evict_oldest_ok [OF 1(2) ne] obtain k e where e: "(k, e) \<in> set (sh_map sh)"
      "\<And>k' e'. (k', e') \<in> set (sh_map sh) \<Longrightarrow> k' \<noteq> k \<Longrightarrow> ce_seq e < ce_seq e'"
      "sh_map ?sh = filter (\<lambda>(_, e'). Suc (ce_seq e) \<le> ce_seq e') (sh_map sh)" "shard_ok sz ?sh" "same_limits sh ?sh" by blast
    from 1(1) [OF True e(4)] obtain t where t: "sh_map (fst (evict_loop sz ?sh (n + 1))) = filter (\<lambda>(_, e). t \<le> ce_seq e) (sh_map ?sh)"
      "shard_ok sz (fst (evict_loop sz ?sh (n + 1)))" "same_limits ?sh (fst (evict_loop sz ?sh (n + 1)))"
      "\<not> over_bounds (fst (evict_loop sz ?sh (n + 1))) \<or> length (sh_map (fst (evict_loop sz ?sh (n + 1)))) \<le> 1"
      "\<And>x. x \<in> set (sh_map ?sh) \<Longrightarrow> (\<And>y. y \<in> set (sh_map ?sh) \<Longrightarrow> ce_seq (snd y) \<le> ce_seq (snd x)) \<Longrightarrow> t \<le> ce_seq (snd x)" by blast
    let ?t = "max t (Suc (ce_seq e))"
    have m: "sh_map (fst (evict_loop sz sh n)) = filter (\<lambda>(_, e). ?t \<le> ce_seq e) (sh_map sh)"
      unfolding loop t(1) e(3) filter_filter by (rule filter_cong) auto
    have top: "?t \<le> ce_seq (snd x)" if x: "x \<in> set (sh_map sh)" "\<forall>y\<in>set (sh_map sh). ce_seq (snd y) \<le> ce_seq (snd x)" for x
    proof -
      have dist: "distinct (map fst (sh_map sh))" using 1(2) by (simp add: shard_ok_def)
      obtain y where y: "y \<in> set (sh_map sh)" "fst y \<noteq> k"
      proof -
        have "2 \<le> card (set (map fst (sh_map sh)))" using True distinct_card [OF dist] by simp
        then have "\<not> set (map fst (sh_map sh)) \<subseteq> {k}" by (metis card.empty card_insert_disjoint card_mono empty_iff finite.intros not_less_eq_eq numeral_2_eq_2 One_nat_def)
        with that show ?thesis by auto
      qed
      with e(2) [of "fst y" "snd y"] x(2) have "Suc (ce_seq e) \<le> ce_seq (snd x)" by fastforce
      moreover from this have "t \<le> ce_seq (snd x)" using x e(3) by (intro t(5)) (auto simp: case_prod_beta)
      ultimately show ?thesis by simp
    qed
    from t(2-4) e(5) have "shard_ok sz (fst (evict_loop sz sh n))" "same_limits sh (fst (evict_loop sz sh n))"
      "\<not> over_bounds (fst (evict_loop sz sh n)) \<or> length (sh_map (fst (evict_loop sz sh n))) \<le> 1"
      unfolding loop by (auto simp: same_limits_def)
    with m top show ?thesis by blast
  qed
qed

section \<open>The queue\<close>

lemma sweep_ok:
  assumes "shard_ok sz sh"
  shows "shard_ok sz (sweep_queue sh)" "length (sh_queue (sweep_queue sh)) = length (sh_map sh)"
proof -
  have dist: "distinct (map fst (sh_map sh))" using assms by (simp add: shard_ok_def)
  have "sorted_wrt (<) (map snd (filter (node_live (sh_map sh)) (sh_queue sh)))"
    using assms by (auto simp: shard_ok_def sorted_wrt_map sorted_wrt_filter)
  then show "shard_ok sz (sweep_queue sh)"
    using assms by (auto simp: shard_ok_def sweep_queue_def node_live_iff [OF dist])
  let ?f = "\<lambda>(k, e). (k, ce_seq e)"
  have "distinct (map snd (sh_queue sh))" using assms by (simp add: shard_ok_def strict_sorted_iff)
  then have "distinct (filter (node_live (sh_map sh)) (sh_queue sh))" by (simp add: distinct_map)
  moreover have "set (filter (node_live (sh_map sh)) (sh_queue sh)) = ?f ` set (sh_map sh)"
  proof
    show "set (filter (node_live (sh_map sh)) (sh_queue sh)) \<subseteq> ?f ` set (sh_map sh)"
    proof
      fix x assume "x \<in> set (filter (node_live (sh_map sh)) (sh_queue sh))"
      then obtain e where "(fst x, e) \<in> set (sh_map sh)" "ce_seq e = snd x"
        using node_live_iff [OF dist, of "fst x" "snd x"] by auto
      then show "x \<in> ?f ` set (sh_map sh)" by (cases x) force
    qed
    show "?f ` set (sh_map sh) \<subseteq> set (filter (node_live (sh_map sh)) (sh_queue sh))"
      using assms by (auto simp: shard_ok_def node_live_iff [OF dist])
  qed
  moreover have "distinct (map ?f (sh_map sh))"
  proof -
    have keys: "map fst (map ?f (sh_map sh)) = map fst (sh_map sh)" by auto
    have "distinct (map fst (map ?f (sh_map sh)))" unfolding keys by (rule dist)
    then show ?thesis unfolding distinct_map by (rule conjunct1)
  qed
  ultimately have "length (filter (node_live (sh_map sh)) (sh_queue sh)) = length (map ?f (sh_map sh))"
    by (metis distinct_card set_map)
  then show "length (sh_queue (sweep_queue sh)) = length (sh_map sh)" by (simp add: sweep_queue_def)
qed

lemma compact_ok:
  assumes "shard_ok sz sh" "length (sh_map sh) \<le> sh_capacity sh"
  shows "shard_ok sz (compact sh)" "length (sh_queue (compact sh)) \<le> 2 * sh_capacity sh" "sh_map (compact sh) = sh_map sh"
    "same_limits sh (compact sh)" "sh_bytes (compact sh) = sh_bytes sh"
  using assms sweep_ok [OF assms(1)] by (auto simp: compact_def sweep_queue_def same_limits_def)

section \<open>Insertion\<close>

lemma map_of_filter_distinct:
  assumes "distinct (map fst m)"
  shows "map_of (filter P m) k = (case map_of m k of Some e \<Rightarrow> if P (k, e) then Some e else None | None \<Rightarrow> None)"
  using assms
proof (induction m)
  case (Cons x m)
  obtain k' e' where x: "x = (k', e')" by (cases x)
  have "map_of m k' = None" using Cons.prems x by (simp add: map_of_eq_None_iff)
  with Cons x show ?case by (auto split: option.splits)
qed simp

lemma heap_sum_update:
  assumes "distinct (map fst m)"
  shows "heap_sum sz (AList.update k e m) =
    entry_heap_bytes sz k e + (case map_of m k of Some p \<Rightarrow> heap_sum sz m - entry_heap_bytes sz k p | None \<Rightarrow> heap_sum sz m)"
  using assms
proof (induction m)
  case (Cons x m)
  obtain k' e' where x: "x = (k', e')" by (cases x)
  show ?case
  proof (cases "k' = k")
    case True
    with x show ?thesis by (simp add: heap_sum_def)
  next
    case False
    have le: "entry_heap_bytes sz k p \<le> heap_sum sz m" if "map_of m k = Some p" for p
      using heap_sum_delete [OF _ that, of sz] Cons.prems by simp
    from False Cons x le show ?thesis by (auto simp: heap_sum_def split: option.splits)
  qed
qed (simp add: heap_sum_def)

lemma set_update:
  assumes "distinct (map fst m)"
  shows "(k', e') \<in> set (AList.update k e m) \<longleftrightarrow> (if k' = k then e' = e else (k', e') \<in> set m)"
proof -
  have "(k', e') \<in> set (AList.update k e m) \<longleftrightarrow> map_of (AList.update k e m) k' = Some e'"
    using map_of_eq_Some_iff [OF distinct_update [OF assms]] by metis
  also have "\<dots> \<longleftrightarrow> (if k' = k then e' = e else map_of m k' = Some e')" by (auto simp: update_conv')
  finally show ?thesis using map_of_eq_Some_iff [OF assms] by simp
qed

lemma shard_insert_ok:
  fixes answer now ttl key n
  assumes ok: "shard_ok sz sh"
  defines "entry \<equiv> \<lparr> ce_answer = answer, ce_inserted_at = now, ce_ttl = uint ttl * SECOND, ce_seq = sh_next_seq sh, ce_suppressed_until = None \<rparr>"
  defines "sh' \<equiv> fst (shard_insert sz now key answer ttl sh n)"
  shows "shard_ok sz sh'" "shard_bounded sh'" "sh_capacity sh' = sh_capacity sh" "sh_byte_capacity sh' = sh_byte_capacity sh"
    "map_of (sh_map sh') key = Some entry"
    "\<exists>t. \<forall>k. k \<noteq> key \<longrightarrow> map_of (sh_map sh') k =
       (case map_of (sh_map sh) k of Some e \<Rightarrow> if t \<le> ce_seq e then Some e else None | None \<Rightarrow> None)"
proof -
  define mid where "mid = sh\<lparr> sh_next_seq := sh_next_seq sh + 1, sh_queue := sh_queue sh @ [(key, sh_next_seq sh)],
       sh_map := AList.update key entry (sh_map sh), sh_bytes := heap_sum sz (AList.update key entry (sh_map sh)) \<rparr>"
  have dist: "distinct (map fst (sh_map sh))" using ok by (simp add: shard_ok_def)
  have "(case map_of (sh_map sh) key of Some previous \<Rightarrow> sh_bytes sh - entry_heap_bytes sz key previous | None \<Rightarrow> sh_bytes sh)
      + entry_heap_bytes sz key entry = heap_sum sz (AList.update key entry (sh_map sh))"
    using heap_sum_update [OF dist, of sz key entry] ok by (simp add: shard_ok_def split: option.splits)
  then have sh': "sh' = compact (fst (evict_loop sz mid n))"
    unfolding sh'_def shard_insert_def mid_def Let_def
    by (simp add: case_prod_beta entry_def [symmetric]) (simp add: entry_def)
  have mid: "shard_ok sz mid"
    unfolding shard_ok_def
  proof (intro conjI)
    show "\<forall>(k, e)\<in>set (sh_map mid). (k, ce_seq e) \<in> set (sh_queue mid)"
      using ok set_update [OF dist] by (auto simp: mid_def shard_ok_def entry_def split: if_splits)
    show "\<forall>(k, s)\<in>set (sh_queue mid). s < sh_next_seq mid" using ok by (auto simp: mid_def shard_ok_def)
    show "sorted_wrt (<) (map snd (sh_queue mid))" using ok by (auto simp: mid_def shard_ok_def sorted_wrt_append)
  qed (use ok dist in \<open>auto simp: mid_def shard_ok_def distinct_update\<close>)
  from evict_loop_ok [OF mid, of n] obtain t where t:
    "sh_map (fst (evict_loop sz mid n)) = filter (\<lambda>(_, e). t \<le> ce_seq e) (sh_map mid)"
    "shard_ok sz (fst (evict_loop sz mid n))" "same_limits mid (fst (evict_loop sz mid n))"
    "\<not> over_bounds (fst (evict_loop sz mid n)) \<or> length (sh_map (fst (evict_loop sz mid n))) \<le> 1"
    "\<And>x. x \<in> set (sh_map mid) \<Longrightarrow> (\<And>y. y \<in> set (sh_map mid) \<Longrightarrow> ce_seq (snd y) \<le> ce_seq (snd x)) \<Longrightarrow> t \<le> ce_seq (snd x)" by blast
  have cap: "1 \<le> sh_capacity (fst (evict_loop sz mid n))" using t(2) by (simp add: shard_ok_def)
  then have len: "length (sh_map (fst (evict_loop sz mid n))) \<le> sh_capacity (fst (evict_loop sz mid n))"
    using t(4) by (auto simp: over_bounds_def)
  note c = compact_ok [OF t(2) len]
  show "shard_ok sz sh'" unfolding sh' by (rule c(1))
  show "shard_bounded sh'" using len t(4) c by (auto simp: sh' shard_bounded_def same_limits_def over_bounds_def)
  show "sh_capacity sh' = sh_capacity sh" "sh_byte_capacity sh' = sh_byte_capacity sh"
    using c(4) t(3) by (auto simp: sh' same_limits_def mid_def)
  have md: "distinct (map fst (sh_map mid))" using mid by (simp add: shard_ok_def)
  have of: "map_of (filter (\<lambda>(_, e). t \<le> ce_seq e) (sh_map mid)) k =
      (case map_of (sh_map mid) k of Some e \<Rightarrow> if t \<le> ce_seq e then Some e else None | None \<Rightarrow> None)" for k
    using map_of_filter_distinct [OF md, of "\<lambda>(_, e). t \<le> ce_seq e" k] by (simp split: option.splits)
  have get: "map_of (sh_map mid) k = (if k = key then Some entry else map_of (sh_map sh) k)" for k
    by (simp add: mid_def update_conv')
  have "ce_seq e \<le> ce_seq entry" if "(k, e) \<in> set (sh_map mid)" for k e
    using that ok set_update [OF dist] by (fastforce simp: mid_def entry_def shard_ok_def split: if_splits)
  moreover have "(key, entry) \<in> set (sh_map mid)" using map_of_SomeD get by metis
  ultimately have te: "t \<le> ce_seq entry" using t(5) [of "(key, entry)"] by auto
  show "map_of (sh_map sh') key = Some entry" using te by (simp add: sh' c(3) t(1) of get)
  show "\<exists>t. \<forall>k. k \<noteq> key \<longrightarrow> map_of (sh_map sh') k =
       (case map_of (sh_map sh) k of Some e \<Rightarrow> if t \<le> ce_seq e then Some e else None | None \<Rightarrow> None)"
    by (rule exI [of _ t]) (simp add: sh' c(3) t(1) of get)
qed
end
