(* ===== verification/Cache_Spec.thy ===== *)
theory Cache_Spec
  imports Cache_Inv
begin

text \<open>
  The cache as its users see it: every state reachable by storing, looking up, claiming,
  suppressing and cleaning, with a clock that never goes back, is within its bounds; what it serves
  is the latest answer stored for the key, for as long as that answer lives.
\<close>

section \<open>Operations on a shard\<close>

lemma resuppress_ok:
  fixes u
  assumes ok: "shard_ok sz sh" and e: "map_of (sh_map sh) key = Some e"
  defines "sh' \<equiv> sh\<lparr> sh_map := AList.update key (e\<lparr> ce_suppressed_until := u \<rparr>) (sh_map sh) \<rparr>"
  shows "shard_ok sz sh'" "shard_bounded sh \<Longrightarrow> shard_bounded sh'"
proof -
  have dist: "distinct (map fst (sh_map sh))" using ok by (simp add: shard_ok_def)
  have same: "entry_heap_bytes sz key (e\<lparr> ce_suppressed_until := u \<rparr>) = entry_heap_bytes sz key e"
    by (simp add: entry_heap_bytes_def)
  have "entry_heap_bytes sz key e \<le> heap_sum sz (sh_map sh)" using heap_sum_delete [OF dist e, of sz] by simp
  then have heap: "heap_sum sz (sh_map sh') = heap_sum sz (sh_map sh)"
    using heap_sum_update [OF dist, of sz key "e\<lparr> ce_suppressed_until := u \<rparr>"] e same by (simp add: sh'_def)
  have mem: "(key, e) \<in> set (sh_map sh)" using e by (rule map_of_SomeD)
  have old: "(k, ce_seq e') \<in> set (sh_queue sh)" if "(k, e') \<in> set (sh_map sh)" for k e'
    using ok that by (auto simp: shard_ok_def)
  have "(k, ce_seq e') \<in> set (sh_queue sh')" if "(k, e') \<in> set (sh_map sh')" for k e'
  proof (cases "k = key")
    case True
    with that have "e' = e\<lparr> ce_suppressed_until := u \<rparr>" using set_update [OF dist] by (simp add: sh'_def)
    with True old [OF mem] show ?thesis by (simp add: sh'_def)
  next
    case False
    with that have "(k, e') \<in> set (sh_map sh)" using set_update [OF dist] by (simp add: sh'_def)
    from old [OF this] show ?thesis by (simp add: sh'_def)
  qed
  then have nodes: "\<forall>(k, e')\<in>set (sh_map sh'). (k, ce_seq e') \<in> set (sh_queue sh')" by blast
  have "distinct (map fst (sh_map sh'))" using dist by (simp add: sh'_def distinct_update)
  with ok heap nodes show "shard_ok sz sh'" by (simp add: shard_ok_def sh'_def)
  have "length (AList.update k v m) = length m" if "map_of m k = Some w" for k v w and m :: "(cache_key \<times> cache_entry) list"
    using that by (induction m) (auto split: if_splits)
  from this [OF e] show "shard_bounded sh \<Longrightarrow> shard_bounded sh'" by (simp add: shard_bounded_def sh'_def)
qed

lemma lookup_shard_ok:
  assumes "shard_ok sz sh" "shard_bounded sh"
  shows "shard_ok sz (snd (lookup_shard c now key claim sh))" "shard_bounded (snd (lookup_shard c now key claim sh))"
  using assms resuppress_ok [OF assms(1), of key] by (auto simp: lookup_shard_def Let_def split: option.splits)

lemma set_suppressed_ok:
  assumes "shard_ok sz sh" "shard_bounded sh"
  shows "shard_ok sz (snd (set_suppressed key u sh))" "shard_bounded (snd (set_suppressed key u sh))"
  using assms resuppress_ok [OF assms(1), of key] by (auto simp: set_suppressed_def split: option.splits)

lemma heap_sum_filter: "heap_sum sz (filter P m) \<le> heap_sum sz m"
  by (induction m) (auto simp: heap_sum_def)

lemma clean_shard_ok:
  fixes now ss purge out
  assumes ok: "shard_ok sz sh" and bound: "shard_bounded sh"
  defines "sh' \<equiv> fst (clean_shard sz now ss purge sh out)"
  shows "shard_ok sz sh'" "shard_bounded sh'" "sh_map sh' = filter (kept_by_clean now ss purge) (sh_map sh)"
    "sh_capacity sh' = sh_capacity sh" "sh_byte_capacity sh' = sh_byte_capacity sh"
proof -
  let ?kept = "filter (kept_by_clean now ss purge) (sh_map sh)"
  define mid where "mid = sh\<lparr> sh_map := ?kept, sh_bytes := heap_sum sz ?kept \<rparr>"
  have sh': "sh' = (if filter (\<lambda>x. \<not> kept_by_clean now ss purge x) (sh_map sh) \<noteq> [] then sweep_queue mid else mid)"
    by (simp add: sh'_def clean_shard_def mid_def Let_def o_def)
  have mid: "shard_ok sz mid" using ok by (auto simp: shard_ok_def mid_def distinct_map_filter)
  have "heap_sum sz ?kept \<le> sh_bytes sh" using ok heap_sum_filter by (simp add: shard_ok_def)
  then have b: "shard_bounded mid" using bound unfolding shard_bounded_def mid_def by (auto intro: order_trans [OF length_filter_le])
  show "shard_ok sz sh'" using mid sweep_ok(1) [OF mid] by (simp add: sh')
  from b show "shard_bounded sh'"
    by (auto simp: sh' shard_bounded_def sweep_queue_def intro: order_trans [OF length_filter_le])
  show "sh_map sh' = ?kept" "sh_capacity sh' = sh_capacity sh" "sh_byte_capacity sh' = sh_byte_capacity sh"
    by (simp_all add: sh' sweep_queue_def mid_def)
qed

section \<open>The whole cache\<close>

definition cache_ok :: "sizes \<Rightarrow> dns_cache \<Rightarrow> bool" where
  "cache_ok sz c \<longleftrightarrow> length (dc_shards c) = SHARD_COUNT \<and> (\<forall>sh\<in>set (dc_shards c). shard_ok sz sh \<and> shard_bounded sh)"

lemma shard_index_less: "shard_index c key < SHARD_COUNT"
proof -
  have "dc_hash c key AND 15 \<le> 15" by (rule word_and_le1)
  then have "unat (dc_hash c key AND 15) \<le> 15" by (simp add: word_le_nat_alt)
  then show ?thesis by (simp add: shard_index_def SHARD_COUNT_def)
qed

definition held :: "dns_cache \<Rightarrow> cache_key \<Rightarrow> cache_entry option" where
  "held c key = map_of (sh_map (dc_shards c ! shard_index c key)) key"

lemma with_shard_ok:
  fixes key
  assumes ok: "cache_ok sz c"
    and f: "\<And>sh. shard_ok sz sh \<Longrightarrow> shard_bounded sh \<Longrightarrow> shard_ok sz (snd (f sh)) \<and> shard_bounded (snd (f sh))"
  defines "sh \<equiv> dc_shards c ! shard_index c key"
  shows "with_shard c key f = Some (fst (f sh), c\<lparr> dc_shards := (dc_shards c)[shard_index c key := snd (f sh)] \<rparr>)"
    "cache_ok sz (c\<lparr> dc_shards := (dc_shards c)[shard_index c key := snd (f sh)] \<rparr>)" "shard_ok sz sh" "shard_bounded sh"
proof -
  have i: "shard_index c key < length (dc_shards c)" using ok shard_index_less by (simp add: cache_ok_def)
  then show "with_shard c key f = Some (fst (f sh), c\<lparr> dc_shards := (dc_shards c)[shard_index c key := snd (f sh)] \<rparr>)"
    by (simp add: with_shard_def sh_def Let_def case_prod_beta)
  have "sh \<in> set (dc_shards c)" using i by (simp add: sh_def)
  then show s: "shard_ok sz sh" "shard_bounded sh" using ok by (auto simp: cache_ok_def)
  with f ok show "cache_ok sz (c\<lparr> dc_shards := (dc_shards c)[shard_index c key := snd (f sh)] \<rparr>)"
    by (auto simp: cache_ok_def dest!: set_update_subset_insert [THEN subsetD])
qed

text \<open>What \<open>store\<close> remembers of a response, and for how long.\<close>

definition storable :: "dns_cache \<Rightarrow> message \<Rightarrow> (cached_answer \<times> u32) option" where
  "storable c response =
     (if msg_truncation response then None
      else if msg_answers response \<noteq> [] then
        if msg_response_code response \<noteq> NoError then None
        else Some (\<lparr> an_records = msg_answers response, an_authorities = [], an_response_code = NoError \<rparr>,
                   positive_ttl (msg_answers response) (dc_min_ttl c) (dc_max_ttl c))
      else if msg_response_code response = NoError \<or> msg_response_code response = NXDomain
      then Some (\<lparr> an_records = [], an_authorities = msg_authorities response, an_response_code = msg_response_code response \<rparr>,
                 negative_ttl response (dc_negative_ttl_max c))
      else None)"

lemma cache_store_storable:
  "cache_store sz c now key response =
     (case storable c response of None \<Rightarrow> Some (False, c)
      | Some (answer, ttl) \<Rightarrow> map_option (Pair True) (cache_insert sz c now key answer ttl))"
  by (simp add: cache_store_def storable_def Let_def)

lemma cache_insert_ok:
  fixes answer ttl now key
  assumes ok: "cache_ok sz c"
  defines "entry seq \<equiv> \<lparr> ce_answer = answer, ce_inserted_at = now, ce_ttl = uint ttl * SECOND, ce_seq = seq, ce_suppressed_until = None \<rparr>"
  shows "\<exists>c'. cache_insert sz c now key answer ttl = Some c' \<and> cache_ok sz c' \<and> dc_hash c' = dc_hash c \<and> dc_serve_stale c' = dc_serve_stale c
    \<and> dc_refresh_claim_lease c' = dc_refresh_claim_lease c
    \<and> (\<exists>seq. held c' key = Some (entry seq))
    \<and> (\<exists>t. \<forall>k. k \<noteq> key \<longrightarrow> held c' k = (case held c k of
          Some e \<Rightarrow> if shard_index c k = shard_index c key \<and> ce_seq e < t then None else Some e | None \<Rightarrow> None))"
proof -
  let ?i = "shard_index c key" and ?f = "\<lambda>sh. prod.swap (shard_insert sz now key answer ttl sh (dc_evictions c))"
  let ?sh = "dc_shards c ! ?i"
  have f: "shard_ok sz (snd (?f sh)) \<and> shard_bounded (snd (?f sh))" if "shard_ok sz sh" "shard_bounded sh" for sh
    using shard_insert_ok(1,2) [OF that(1)] by (simp add: case_prod_beta)
  note w = with_shard_ok [OF ok, of ?f key, OF f]
  note s = shard_insert_ok [OF w(3), where now = now and key = key and answer = answer and ttl = ttl and n = "dc_evictions c"]
  define c' where "c' = c\<lparr> dc_shards := (dc_shards c)[?i := snd (?f ?sh)], dc_evictions := fst (?f ?sh) \<rparr>"
  have ins: "cache_insert sz c now key answer ttl = Some c'" using w(1) by (simp add: cache_insert_def c'_def)
  have ix: "shard_index c' k = shard_index c k" for k by (simp add: shard_index_def c'_def)
  have i: "?i < length (dc_shards c)" using ok shard_index_less by (simp add: cache_ok_def)
  have at: "dc_shards c' ! shard_index c k = (if shard_index c k = ?i then fst (shard_insert sz now key answer ttl ?sh (dc_evictions c))
      else dc_shards c ! shard_index c k)" for k
    using i by (auto simp: c'_def case_prod_beta)
  have "cache_ok sz c'" using w(2) by (simp add: cache_ok_def c'_def)
  moreover have "held c' key = Some (entry (sh_next_seq ?sh))" using s(5) by (simp add: held_def ix at entry_def)
  moreover obtain t where t: "\<And>k. k \<noteq> key \<Longrightarrow> map_of (sh_map (fst (shard_insert sz now key answer ttl ?sh (dc_evictions c)))) k =
       (case map_of (sh_map ?sh) k of Some e \<Rightarrow> if t \<le> ce_seq e then Some e else None | None \<Rightarrow> None)"
    using s(6) by blast
  then have "held c' k = (case held c k of
          Some e \<Rightarrow> if shard_index c k = ?i \<and> ce_seq e < t then None else Some e | None \<Rightarrow> None)" if "k \<noteq> key" for k
    using that by (auto simp: held_def ix at split: option.splits)
  ultimately show ?thesis using ins by (auto simp: c'_def)
qed

definition same_config :: "dns_cache \<Rightarrow> dns_cache \<Rightarrow> bool" where
  "same_config c c' \<longleftrightarrow> dc_hash c' = dc_hash c \<and> dc_serve_stale c' = dc_serve_stale c
     \<and> dc_refresh_claim_lease c' = dc_refresh_claim_lease c"

definition suppressed :: "int \<Rightarrow> cache_entry \<Rightarrow> bool" where
  "suppressed now e \<longleftrightarrow> (case ce_suppressed_until e of Some until \<Rightarrow> now < until | None \<Rightarrow> False)"

text \<open>What a lookup answers, from the entry held for the key.\<close>

definition answer_for :: "dns_cache \<Rightarrow> int \<Rightarrow> bool \<Rightarrow> cache_entry option \<Rightarrow> lookup_result" where
  "answer_for c now claim held_entry =
     (case held_entry of None \<Rightarrow> LMiss
      | Some e \<Rightarrow>
          if now < expires_at e then LFresh (ce_answer e) (of_int ((expires_at e - now) div SECOND))
          else if dc_serve_stale c \<and> now < stale_deadline e then LStale (ce_answer e) (claim \<and> \<not> suppressed now e)
          else LMiss)"

lemma held_update:
  assumes "cache_ok sz c" "\<And>k. k \<noteq> key \<Longrightarrow> map_of (sh_map sh) k = map_of (sh_map (dc_shards c ! shard_index c key)) k"
  shows "held (c\<lparr> dc_shards := (dc_shards c)[shard_index c key := sh] \<rparr>) k = (if k = key then map_of (sh_map sh) key else held c k)"
proof -
  let ?c = "c\<lparr> dc_shards := (dc_shards c)[shard_index c key := sh] \<rparr>"
  have ix: "shard_index ?c k = shard_index c k" for k by (simp add: shard_index_def)
  have "shard_index c key < length (dc_shards c)" using assms(1) shard_index_less by (simp add: cache_ok_def)
  then show ?thesis using assms(2) [of k] by (cases "shard_index c k = shard_index c key") (auto simp: held_def ix)
qed

lemma lookup_inner_ok:
  assumes ok: "cache_ok sz c"
  shows "\<exists>c'. lookup_inner c now key claim = Some (answer_for c now claim (held c key), c') \<and> cache_ok sz c' \<and> same_config c c'
    \<and> (\<forall>k. held c' k = (if k = key \<and> (\<exists>a. answer_for c now claim (held c key) = LStale a True)
          then map_option (\<lambda>e. e\<lparr> ce_suppressed_until := Some (now + dc_refresh_claim_lease c) \<rparr>) (held c key) else held c k))"
proof -
  let ?f = "lookup_shard c now key claim" and ?sh = "dc_shards c ! shard_index c key"
  note w = with_shard_ok [OF ok, of ?f key, OF conjI, OF lookup_shard_ok]
  have r: "fst (?f ?sh) = answer_for c now claim (held c key)"
    by (auto simp: lookup_shard_def answer_for_def held_def suppressed_def Let_def split: option.splits)
  have other: "map_of (sh_map (snd (?f ?sh))) k = map_of (sh_map ?sh) k" if "k \<noteq> key" for k
    using that by (auto simp: lookup_shard_def update_conv' Let_def split: option.splits)
  have own: "map_of (sh_map (snd (?f ?sh))) key = (if \<exists>a. answer_for c now claim (held c key) = LStale a True
      then map_option (\<lambda>e. e\<lparr> ce_suppressed_until := Some (now + dc_refresh_claim_lease c) \<rparr>) (held c key) else held c key)"
    by (auto simp: lookup_shard_def answer_for_def held_def suppressed_def update_conv' Let_def split: option.splits)
  let ?c = "c\<lparr> dc_shards := (dc_shards c)[shard_index c key := snd (?f ?sh)] \<rparr>"
  have "held ?c k = (if k = key then map_of (sh_map (snd (?f ?sh))) key else held c k)" for k
    by (rule held_update [OF ok]) (rule other)
  with w r own show ?thesis by (intro exI [of _ ?c]) (auto simp: lookup_inner_def same_config_def)
qed

lemma set_suppressed_cache:
  assumes ok: "cache_ok sz c"
  shows "\<exists>c'. map_option snd (with_shard c key (set_suppressed key u)) = Some c' \<and> cache_ok sz c' \<and> same_config c c'
    \<and> (\<forall>k. held c' k = (if k = key then map_option (\<lambda>e. e\<lparr> ce_suppressed_until := u \<rparr>) (held c key) else held c k))"
proof -
  let ?f = "set_suppressed key u" and ?sh = "dc_shards c ! shard_index c key"
  note w = with_shard_ok [OF ok, of ?f key, OF conjI, OF set_suppressed_ok]
  have other: "map_of (sh_map (snd (?f ?sh))) k = map_of (sh_map ?sh) k" if "k \<noteq> key" for k
    using that by (auto simp: set_suppressed_def update_conv' split: option.splits)
  have own: "map_of (sh_map (snd (?f ?sh))) key = map_option (\<lambda>e. e\<lparr> ce_suppressed_until := u \<rparr>) (held c key)"
    by (auto simp: set_suppressed_def held_def update_conv' split: option.splits)
  let ?c = "c\<lparr> dc_shards := (dc_shards c)[shard_index c key := snd (?f ?sh)] \<rparr>"
  have "held ?c k = (if k = key then map_of (sh_map (snd (?f ?sh))) key else held c k)" for k
    by (rule held_update [OF ok]) (rule other)
  with w own show ?thesis by (intro exI [of _ ?c]) (auto simp: same_config_def)
qed

lemma fst_clean_shards:
  "fst (clean_shards sz now ss purge shs out) = map (\<lambda>sh. fst (clean_shard sz now ss purge sh out0)) shs"
proof (induction shs arbitrary: out)
  case (Cons sh shs)
  have "fst (clean_shard sz now ss purge sh out) = fst (clean_shard sz now ss purge sh out0)"
    by (simp add: clean_shard_def Let_def case_prod_beta)
  with Cons show ?case by (simp add: case_prod_beta Let_def)
qed simp

lemma clean_ok:
  assumes ok: "cache_ok sz c"
  shows "cache_ok sz (snd (clean sz c now purge))" "same_config c (snd (clean sz c now purge))"
    "held (snd (clean sz c now purge)) k = (case held c k of
       Some e \<Rightarrow> if kept_by_clean now (dc_serve_stale c) purge (k, e) then Some e else None | None \<Rightarrow> None)"
proof -
  let ?out = "\<lparr> cc_removed_expired = 0, cc_removed_stale = 0, cc_entries_before = 0, cc_entries_after = 0, cc_freed_bytes = 0 \<rparr>"
  let ?g = "\<lambda>sh. fst (clean_shard sz now (dc_serve_stale c) purge sh ?out)"
  have shs: "dc_shards (snd (clean sz c now purge)) = map ?g (dc_shards c)"
    by (simp add: clean_def Let_def case_prod_beta fst_clean_shards [of sz now _ purge _ _ ?out])
  show "same_config c (snd (clean sz c now purge))" by (simp add: same_config_def clean_def Let_def case_prod_beta)
  show "cache_ok sz (snd (clean sz c now purge))"
    using ok clean_shard_ok(1,2) unfolding cache_ok_def shs by auto
  have ix: "shard_index (snd (clean sz c now purge)) k = shard_index c k"
    by (simp add: shard_index_def clean_def Let_def case_prod_beta)
  have i: "shard_index c k < length (dc_shards c)" using ok shard_index_less by (simp add: cache_ok_def)
  let ?sh = "dc_shards c ! shard_index c k"
  have s: "shard_ok sz ?sh" "shard_bounded ?sh" using ok i by (auto simp: cache_ok_def)
  then have "distinct (map fst (sh_map ?sh))" by (simp add: shard_ok_def)
  from map_of_filter_distinct [OF this]
  show "held (snd (clean sz c now purge)) k = (case held c k of
       Some e \<Rightarrow> if kept_by_clean now (dc_serve_stale c) purge (k, e) then Some e else None | None \<Rightarrow> None)"
    using i by (simp add: held_def ix shs clean_shard_ok(3) [OF s])
qed
end
