(* ===== verification/Cache_Run.thy ===== *)
theory Cache_Run
  imports Cache_Spec
begin

text \<open>
  Runs of the cache: any sequence of its operations under a clock that never goes back, with a log of
  what was stored. The properties of the cache are invariants of these runs.
\<close>

section \<open>Runs\<close>

datatype cache_op =
    OpStore cache_key message | OpLookup cache_key bool | OpSuppress cache_key int | OpRelease cache_key
  | OpClean bool | OpNote bool

fun cache_apply :: "sizes \<Rightarrow> int \<Rightarrow> cache_op \<Rightarrow> dns_cache \<Rightarrow> dns_cache option" where
  "cache_apply sz now (OpStore key response) c = map_option snd (cache_store sz c now key response)"
| "cache_apply sz now (OpLookup key claim) c = map_option snd (lookup_inner c now key claim)"
| "cache_apply sz now (OpSuppress key cooldown) c = suppress_refresh c now key cooldown"
| "cache_apply sz now (OpRelease key) c = release_refresh_claim c key"
| "cache_apply sz now (OpClean purge) c = Some (snd (clean sz c now purge))"
| "cache_apply sz now (OpNote hit) c = Some (note_lookup c hit)"

type_synonym store_log = "(cache_key \<times> cached_answer \<times> u32 \<times> int) list"

fun logged :: "dns_cache \<Rightarrow> int \<Rightarrow> cache_op \<Rightarrow> store_log" where
  "logged c now (OpStore key response) =
     (case storable c response of Some (answer, ttl) \<Rightarrow> [(key, answer, ttl, now)] | None \<Rightarrow> [])"
| "logged c now _ = []"

inductive cache_run :: "sizes \<Rightarrow> dns_cache \<Rightarrow> int \<Rightarrow> store_log \<Rightarrow> bool" for sz where
  start: "cache_run sz (cache_new config lease hash) now []"
| step: "cache_run sz c t log \<Longrightarrow> t \<le> now \<Longrightarrow> cache_apply sz now op c = Some c' \<Longrightarrow>
    cache_run sz c' now (logged c now op @ log)"

section \<open>The invariant of runs\<close>

definition log_ok :: "dns_cache \<Rightarrow> int \<Rightarrow> store_log \<Rightarrow> bool" where
  "log_ok c t log \<longleftrightarrow> (\<forall>key e. held c key = Some e \<longrightarrow>
     (\<exists>ttl. map_of log key = Some (ce_answer e, ttl, ce_inserted_at e) \<and> ce_ttl e = uint ttl * SECOND \<and> ce_inserted_at e \<le> t))"

lemma cache_new_ok: "cache_ok sz (cache_new config lease hash)"
  by (auto simp: cache_ok_def cache_new_def empty_shard_def shard_ok_def shard_bounded_def heap_sum_def Let_def SHARD_COUNT_def)

lemma held_new: "held (cache_new config lease hash) key = None"
  using shard_index_less [of "cache_new config lease hash" key]
  by (simp add: held_def cache_new_def empty_shard_def Let_def SHARD_COUNT_def)

lemma note_lookup_ok: "cache_ok sz (note_lookup c hit) = cache_ok sz c" "held (note_lookup c hit) key = held c key"
  "same_config c (note_lookup c hit)"
  by (simp_all add: note_lookup_def cache_ok_def held_def shard_index_def same_config_def)

text \<open>One operation: it does not panic, keeps the invariant, and keeps of the entries what the log
  justifies.\<close>

lemma cache_store_ok:
  assumes ok: "cache_ok sz c"
  shows "\<exists>stored c'. cache_store sz c now key response = Some (stored, c') \<and> cache_ok sz c' \<and> same_config c c'
    \<and> (case storable c response of
         None \<Rightarrow> \<not> stored \<and> (\<forall>k. held c' k = held c k)
       | Some (answer, ttl) \<Rightarrow> stored
           \<and> (\<exists>seq. held c' key = Some \<lparr> ce_answer = answer, ce_inserted_at = now, ce_ttl = uint ttl * SECOND, ce_seq = seq, ce_suppressed_until = None \<rparr>)
           \<and> (\<exists>t. \<forall>k. k \<noteq> key \<longrightarrow> held c' k = (case held c k of
                Some e \<Rightarrow> if shard_index c k = shard_index c key \<and> ce_seq e < t then None else Some e | None \<Rightarrow> None)))"
proof (cases "storable c response")
  case None
  with ok show ?thesis by (auto simp: cache_store_storable same_config_def)
next
  case (Some x)
  obtain answer ttl where x: "x = (answer, ttl)" by (cases x)
  from cache_insert_ok [OF ok, of now key answer ttl] Some x show ?thesis
    by (auto simp: cache_store_storable same_config_def)
qed

lemma cache_apply_ok:
  assumes ok: "cache_ok sz c" and log: "log_ok c t log" and le: "t \<le> now"
  shows "\<exists>c'. cache_apply sz now op c = Some c' \<and> cache_ok sz c' \<and> log_ok c' now (logged c now op @ log)"
proof -
  have keep: "log_ok c' now log" if "\<And>k. held c' k = held c k \<or> held c' k = None
      \<or> (\<exists>u. held c' k = map_option (\<lambda>e. e\<lparr> ce_suppressed_until := u \<rparr>) (held c k))" for c'
    unfolding log_ok_def
  proof (intro allI impI)
    fix key e assume "held c' key = Some e"
    with that [of key] obtain e0 where e0: "held c key = Some e0" "ce_answer e = ce_answer e0" "ce_ttl e = ce_ttl e0"
      "ce_inserted_at e = ce_inserted_at e0" by (cases "held c key") auto
    with log [unfolded log_ok_def, rule_format, OF e0(1)] le
    show "\<exists>ttl. map_of log key = Some (ce_answer e, ttl, ce_inserted_at e) \<and> ce_ttl e = uint ttl * SECOND \<and> ce_inserted_at e \<le> now"
      by auto
  qed
  show ?thesis
  proof (cases op)
    case (OpStore key response)
    from cache_store_ok [OF ok, of now key response] obtain stored c' where c': "cache_store sz c now key response = Some (stored, c')"
      "cache_ok sz c'" and st: "case storable c response of
         None \<Rightarrow> \<not> stored \<and> (\<forall>k. held c' k = held c k)
       | Some (answer, ttl) \<Rightarrow> stored
           \<and> (\<exists>seq. held c' key = Some \<lparr> ce_answer = answer, ce_inserted_at = now, ce_ttl = uint ttl * SECOND, ce_seq = seq, ce_suppressed_until = None \<rparr>)
           \<and> (\<exists>t. \<forall>k. k \<noteq> key \<longrightarrow> held c' k = (case held c k of
                Some e \<Rightarrow> if shard_index c k = shard_index c key \<and> ce_seq e < t then None else Some e | None \<Rightarrow> None))" by blast
    have "log_ok c' now (logged c now op @ log)"
    proof (cases "storable c response")
      case None
      with st keep [of c'] OpStore show ?thesis by simp
    next
      case (Some x)
      obtain answer ttl where x: "x = (answer, ttl)" by (cases x)
      from st Some x obtain seq t' where h: "held c' key = Some \<lparr> ce_answer = answer, ce_inserted_at = now, ce_ttl = uint ttl * SECOND, ce_seq = seq, ce_suppressed_until = None \<rparr>"
        "\<And>k. k \<noteq> key \<Longrightarrow> held c' k = (case held c k of
                Some e \<Rightarrow> if shard_index c k = shard_index c key \<and> ce_seq e < t' then None else Some e | None \<Rightarrow> None)" by auto
      show ?thesis
        unfolding log_ok_def
      proof (intro allI impI)
        fix k e assume k: "held c' k = Some e"
        show "\<exists>ttl. map_of (logged c now op @ log) k = Some (ce_answer e, ttl, ce_inserted_at e) \<and> ce_ttl e = uint ttl * SECOND \<and> ce_inserted_at e \<le> now"
        proof (cases "k = key")
          case True
          with k h(1) Some x OpStore show ?thesis by auto
        next
          case False
          with h(2) k have "held c k = Some e" by (auto split: option.splits if_splits)
          with log [unfolded log_ok_def, rule_format, OF this] le False Some x OpStore show ?thesis by auto
        qed
      qed
    qed
    with c' OpStore show ?thesis by auto
  next
    case (OpLookup key claim)
    from lookup_inner_ok [OF ok, of now key claim] obtain c' where c': "lookup_inner c now key claim = Some (answer_for c now claim (held c key), c')"
      "cache_ok sz c'" "\<And>k. held c' k = (if k = key \<and> (\<exists>a. answer_for c now claim (held c key) = LStale a True)
          then map_option (\<lambda>e. e\<lparr> ce_suppressed_until := Some (now + dc_refresh_claim_lease c) \<rparr>) (held c key) else held c k)" by blast
    have "log_ok c' now log" using c'(3) by (intro keep) metis
    with c' OpLookup show ?thesis by auto
  next
    case (OpSuppress key cooldown)
    from set_suppressed_cache [OF ok, of key "Some (now + cooldown)"] obtain c' where c': "suppress_refresh c now key cooldown = Some c'"
      "cache_ok sz c'" "\<And>k. held c' k = (if k = key then map_option (\<lambda>e. e\<lparr> ce_suppressed_until := Some (now + cooldown) \<rparr>) (held c key) else held c k)"
      unfolding suppress_refresh_def by blast
    have "log_ok c' now log" using c'(3) by (intro keep) metis
    with c' OpSuppress show ?thesis by auto
  next
    case (OpRelease key)
    from set_suppressed_cache [OF ok, of key None] obtain c' where c': "release_refresh_claim c key = Some c'"
      "cache_ok sz c'" "\<And>k. held c' k = (if k = key then map_option (\<lambda>e. e\<lparr> ce_suppressed_until := None \<rparr>) (held c key) else held c k)"
      unfolding release_refresh_claim_def by blast
    have "log_ok c' now log" using c'(3) by (intro keep) metis
    with c' OpRelease show ?thesis by auto
  next
    case (OpClean purge)
    have "log_ok (snd (clean sz c now purge)) now log"
      using clean_ok(3) [OF ok, of now purge] by (intro keep) (auto split: option.splits)
    with clean_ok(1) [OF ok] OpClean show ?thesis by simp
  next
    case (OpNote hit)
    have "log_ok (note_lookup c hit) now log" using note_lookup_ok(2) by (intro keep) auto
    with ok note_lookup_ok(1) OpNote show ?thesis by simp
  qed
qed

lemma cache_run_inv: "cache_run sz c t log \<Longrightarrow> cache_ok sz c \<and> log_ok c t log"
proof (induction rule: cache_run.induct)
  case (start config lease hash now)
  show ?case using cache_new_ok held_new by (simp add: log_ok_def)
next
  case (step c t log now op c')
  with cache_apply_ok [of sz c t log now op] show ?case by auto
qed

text \<open>C12: The cache stays within its bounds. In every reachable state no operation panics, and every
  shard holds at most its share of entries, at most its share of bytes unless a single answer
  exceeds it, and at most twice its share of queue nodes; its byte counter is exactly what the
  entries it holds weigh.\<close>

theorem cache_bounded:
  assumes run: "cache_run sz c t log"
  shows "cache_apply sz now op c \<noteq> None \<and> length (dc_shards c) = SHARD_COUNT
    \<and> (\<forall>sh\<in>set (dc_shards c). length (sh_map sh) \<le> sh_capacity sh
        \<and> (length (sh_map sh) \<le> 1 \<or> sh_bytes sh \<le> sh_byte_capacity sh)
        \<and> length (sh_queue sh) \<le> 2 * sh_capacity sh \<and> sh_bytes sh = heap_sum sz (sh_map sh))"
proof -
  from cache_run_inv [OF run] have inv: "cache_ok sz c" "log_ok c t log" by blast+
  have "cache_apply sz now op c \<noteq> None"
  proof (cases op)
    case (OpStore key response)
    then show ?thesis using cache_store_ok [OF inv(1), of now key response] by auto
  next
    case (OpLookup key claim)
    then show ?thesis using lookup_inner_ok [OF inv(1), of now key claim] by auto
  next
    case (OpSuppress key cooldown)
    then show ?thesis using set_suppressed_cache [OF inv(1), of key "Some (now + cooldown)"] by (auto simp: suppress_refresh_def)
  next
    case (OpRelease key)
    then show ?thesis using set_suppressed_cache [OF inv(1), of key None] by (auto simp: release_refresh_claim_def)
  qed simp_all
  with inv(1) show ?thesis by (auto simp: cache_ok_def shard_ok_def shard_bounded_def)
qed

lemma cache_served:
  assumes run: "cache_run sz c t log" and later: "t \<le> now" and look: "lookup_inner c now key claim = Some (r, c')"
  shows "case r of
      LFresh answer remaining \<Rightarrow> \<exists>ttl stored_at. map_of log key = Some (answer, ttl, stored_at) \<and> stored_at \<le> now
        \<and> now < stored_at + uint ttl * SECOND \<and> uint remaining = (stored_at + uint ttl * SECOND - now) div SECOND
    | LStale answer claimed \<Rightarrow> \<exists>ttl stored_at. map_of log key = Some (answer, ttl, stored_at) \<and> dc_serve_stale c
        \<and> stored_at + uint ttl * SECOND \<le> now \<and> now < stored_at + uint ttl * SECOND + MAX_STALE \<and> (claimed \<longrightarrow> claim)
    | LMiss \<Rightarrow> True"
proof -
  from cache_run_inv [OF run] have inv: "cache_ok sz c" "log_ok c t log" by blast+
  from lookup_inner_ok [OF inv(1), of now key claim] look have r: "r = answer_for c now claim (held c key)" by auto
  show ?thesis
  proof (cases "held c key")
    case None
    then show ?thesis by (simp add: r answer_for_def)
  next
    case (Some e)
    with inv(2) obtain ttl where ttl: "map_of log key = Some (ce_answer e, ttl, ce_inserted_at e)" "ce_ttl e = uint ttl * SECOND"
      "ce_inserted_at e \<le> t" by (auto simp: log_ok_def)
    let ?left = "(ce_inserted_at e + uint ttl * SECOND - now) div SECOND"
    have le: "ce_inserted_at e \<le> now" using ttl(3) later by simp
    have "uint (of_int ?left :: u32) = ?left" if "now < ce_inserted_at e + uint ttl * SECOND"
    proof -
      have "?left \<le> uint ttl * SECOND div SECOND" using le by (intro zdiv_mono1) (simp_all add: SECOND_def)
      also have "\<dots> = uint ttl" by (simp add: SECOND_def)
      also have "uint ttl < 2 ^ 32" using uint_bounded [of ttl] by simp
      finally have "?left < 2 ^ 32" .
      moreover have "0 \<le> ?left" using that by (simp add: SECOND_def pos_imp_zdiv_nonneg_iff)
      ultimately show ?thesis by (simp add: uint_word_of_int take_bit_int_eq_self)
    qed
    with Some ttl le show ?thesis
      by (auto simp: r answer_for_def expires_at_def stale_deadline_def)
  qed
qed

text \<open>C9: The cache serves the latest answer stored for the very key asked, never another, and never
  longer than it may. A fresh answer is within its TTL and is handed out with what is left of it,
  rounded down; a stale one is past its TTL by less than a day and only where serving stale is
  configured.\<close>

theorem cache_serves_latest:
  assumes run: "cache_run sz c t log" and later: "t \<le> now" and look: "lookup_inner c now key claim = Some (r, c')"
  shows "case r of
      LFresh answer remaining \<Rightarrow> \<exists>ttl stored_at. map_of log key = Some (answer, ttl, stored_at) \<and> stored_at \<le> now
        \<and> now < stored_at + uint ttl * SECOND \<and> uint remaining = (stored_at + uint ttl * SECOND - now) div SECOND
    | LStale answer claimed \<Rightarrow> \<exists>ttl stored_at. map_of log key = Some (answer, ttl, stored_at) \<and> dc_serve_stale c
        \<and> stored_at + uint ttl * SECOND \<le> now \<and> now < stored_at + uint ttl * SECOND + MAX_STALE \<and> (claimed \<longrightarrow> claim)
    | LMiss \<Rightarrow> True"
  using cache_served [OF assms] .

text \<open>C10: A response worth remembering is there when it is asked for. Storing it succeeds, and until
  its TTL is over a lookup of the key answers with it; what was pushed out to make room are the
  oldest insertions of the same shard, all others stay as they were.\<close>

theorem cache_store_available:
  assumes run: "cache_run sz c t log" and st: "storable c response = Some (answer, ttl)" and before: "now' < now + uint ttl * SECOND"
  shows "\<exists>c'. cache_store sz c now key response = Some (True, c')
    \<and> (\<exists>c''. cache_lookup c' now' key = Some (LFresh answer (of_int ((now + uint ttl * SECOND - now') div SECOND)), c''))
    \<and> (\<exists>oldest. \<forall>k. k \<noteq> key \<longrightarrow> held c' k = (case held c k of
          Some e \<Rightarrow> if shard_index c k = shard_index c key \<and> ce_seq e < oldest then None else Some e | None \<Rightarrow> None))"
proof -
  from cache_run_inv [OF run] have ok: "cache_ok sz c" by blast
  note stored = cache_store_ok [OF ok, of now key response, unfolded st option.case prod.case]
  from stored obtain s c' seq oldest where c': "cache_store sz c now key response = Some (s, c')" "cache_ok sz c'" "s"
    "held c' key = Some \<lparr> ce_answer = answer, ce_inserted_at = now, ce_ttl = uint ttl * SECOND, ce_seq = seq, ce_suppressed_until = None \<rparr>"
    "\<forall>k. k \<noteq> key \<longrightarrow> held c' k = (case held c k of
          Some e \<Rightarrow> if shard_index c k = shard_index c key \<and> ce_seq e < oldest then None else Some e | None \<Rightarrow> None)"
    by (elim exE conjE)
  have "answer_for c' now' False (held c' key) = LFresh answer (of_int ((now + uint ttl * SECOND - now') div SECOND))"
    using before by (simp add: answer_for_def c'(4) expires_at_def)
  with lookup_inner_ok [OF c'(2), of now' key False] have
    "\<exists>c''. cache_lookup c' now' key = Some (LFresh answer (of_int ((now + uint ttl * SECOND - now') div SECOND)), c'')"
    by (auto simp: cache_lookup_def)
  with c'(1,3,5) show ?thesis by auto
qed

section \<open>Refresh claims\<close>

fun cache_steps :: "sizes \<Rightarrow> (int \<times> cache_op) list \<Rightarrow> dns_cache \<Rightarrow> dns_cache option" where
  "cache_steps sz [] c = Some c"
| "cache_steps sz ((now, op) # ops) c = (case cache_apply sz now op c of None \<Rightarrow> None | Some c' \<Rightarrow> cache_steps sz ops c')"

text \<open>Operations that do not end a claim on \<open>key\<close>: all but storing it, suppressing it, releasing it.\<close>

fun leaves_claim :: "cache_key \<Rightarrow> cache_op \<Rightarrow> bool" where
  "leaves_claim key (OpStore k _) \<longleftrightarrow> k \<noteq> key"
| "leaves_claim key (OpSuppress k _) \<longleftrightarrow> k \<noteq> key"
| "leaves_claim key (OpRelease k) \<longleftrightarrow> k \<noteq> key"
| "leaves_claim key _ \<longleftrightarrow> True"

fun claims :: "cache_key \<Rightarrow> cache_op \<Rightarrow> bool" where
  "claims key (OpLookup k claim) \<longleftrightarrow> k = key \<and> claim"
| "claims key _ \<longleftrightarrow> False"

definition held_until :: "dns_cache \<Rightarrow> cache_key \<Rightarrow> (int \<Rightarrow> bool) \<Rightarrow> bool" where
  "held_until c key P \<longleftrightarrow> (\<forall>e. held c key = Some e \<longrightarrow> (\<exists>u. ce_suppressed_until e = Some u \<and> P u))"

lemma cache_store_other:
  assumes ok: "cache_ok sz c" and st: "cache_store sz c now k response = Some (stored, c')" and k: "key \<noteq> k"
  shows "held c' key = held c key \<or> held c' key = None"
proof (cases "storable c response")
  case None
  then show ?thesis using cache_store_ok [OF ok, of now k response] st by auto
next
  case (Some x)
  obtain answer ttl where x: "x = (answer, ttl)" by (cases x)
  from cache_store_ok [OF ok, of now k response, unfolded Some x option.case prod.case] obtain s c1 oldest where
    c1: "cache_store sz c now k response = Some (s, c1)" "\<forall>k'. k' \<noteq> k \<longrightarrow> held c1 k' = (case held c k' of
        Some e \<Rightarrow> if shard_index c k' = shard_index c k \<and> ce_seq e < oldest then None else Some e | None \<Rightarrow> None)"
    by (elim exE conjE)
  with k st show ?thesis by (simp split: option.splits)
qed

lemma leaves_claim_step:
  assumes ok: "cache_ok sz c" and op: "leaves_claim key op" and a: "cache_apply sz now op c = Some c'"
    and h: "held_until c key P" and claim: "claims key op \<Longrightarrow> P (now + dc_refresh_claim_lease c)"
  shows "cache_ok sz c' \<and> same_config c c' \<and> held_until c' key P"
proof -
  have kept: "held_until c' key P" if "held c' key = held c key \<or> held c' key = None" for c'
    using that h by (auto simp: held_until_def)
  show ?thesis
  proof (cases op)
    case (OpStore k response)
    from a OpStore obtain stored where st: "cache_store sz c now k response = Some (stored, c')" by (auto split: option.splits)
    from cache_store_ok [OF ok, of now k response] st have "cache_ok sz c'" "same_config c c'" by auto
    moreover have "held c' key = held c key \<or> held c' key = None" using cache_store_other [OF ok st] op OpStore by auto
    ultimately show ?thesis using kept by blast
  next
    case (OpLookup k b)
    from lookup_inner_ok [OF ok, of now k b] a OpLookup have l: "cache_ok sz c'" "same_config c c'"
      "held c' key = (if key = k \<and> (\<exists>a. answer_for c now b (held c k) = LStale a True)
          then map_option (\<lambda>e. e\<lparr> ce_suppressed_until := Some (now + dc_refresh_claim_lease c) \<rparr>) (held c k) else held c key)" by auto
    have only: "answer_for c now b x \<noteq> LStale a True" if "\<not> b" for a x
      using that by (auto simp: answer_for_def split: option.splits if_splits)
    have "held_until c' key P" if "\<not> b" using l(3) h only [OF that] by (auto simp: held_until_def)
    moreover have "held_until c' key P" if "b" using that l(3) h claim OpLookup
      by (auto simp: held_until_def split: if_splits)
    ultimately show ?thesis using l(1,2) by blast
  next
    case (OpSuppress k cooldown)
    from set_suppressed_cache [OF ok, of k "Some (now + cooldown)"] a OpSuppress op kept show ?thesis
      by (auto simp: suppress_refresh_def)
  next
    case (OpRelease k)
    from set_suppressed_cache [OF ok, of k None] a OpRelease op kept show ?thesis by (auto simp: release_refresh_claim_def)
  next
    case (OpClean purge)
    have "held c' key = held c key \<or> held c' key = None"
      using clean_ok(3) [OF ok, of now purge key] a OpClean by (auto split: option.splits)
    with kept clean_ok(1,2) [OF ok, of now purge] a OpClean show ?thesis by auto
  next
    case (OpNote hit)
    with a kept note_lookup_ok ok show ?thesis by auto
  qed
qed

lemma leaves_claim_steps:
  assumes "cache_ok sz c" "\<forall>(t, op)\<in>set ops. leaves_claim key op" "cache_steps sz ops c = Some c'" "held_until c key P"
    "\<forall>(t, op)\<in>set ops. claims key op \<longrightarrow> P (t + dc_refresh_claim_lease c)"
  shows "cache_ok sz c' \<and> same_config c c' \<and> held_until c' key P"
  using assms
proof (induction ops arbitrary: c)
  case (Cons x ops)
  obtain t op where x: "x = (t, op)" by (cases x)
  from Cons.prems(3) x obtain c1 where c1: "cache_apply sz t op c = Some c1" "cache_steps sz ops c1 = Some c'" by (auto split: option.splits)
  have "cache_ok sz c1 \<and> same_config c c1 \<and> held_until c1 key P"
    by (rule leaves_claim_step [OF Cons.prems(1) _ c1(1) Cons.prems(4)]) (use Cons.prems x in auto)
  with Cons.IH [of c1] c1(2) Cons.prems(2,5) show ?case by (auto simp: same_config_def)
qed (simp add: same_config_def)

text \<open>C11: A claimed refresh is claimed once, and not for ever. After a lookup has taken the claim on a
  stale entry, and whatever else happens to the cache short of a new answer, a failure report or a
  release for that key, no other lookup takes it before the lease is over; and if nobody took it
  since, the first stale lookup after the lease takes it again, so a worker that died does not
  strand the entry.\<close>

theorem refresh_claim_lease:
  assumes run: "cache_run sz c t log" and claimed: "lookup_and_claim_refresh c now key = Some (LStale answer True, c1)"
    and ops: "\<forall>(t, op)\<in>set ops. now \<le> t \<and> leaves_claim key op" "cache_steps sz ops c1 = Some c2"
  shows "\<exists>r c3. lookup_and_claim_refresh c2 now' key = Some (r, c3)
    \<and> (now' < now + dc_refresh_claim_lease c \<longrightarrow> (\<forall>a. r \<noteq> LStale a True))
    \<and> ((\<forall>(t, op)\<in>set ops. \<not> claims key op) \<and> now + dc_refresh_claim_lease c \<le> now' \<longrightarrow> (\<forall>a. r \<noteq> LStale a False))"
proof -
  let ?lease = "dc_refresh_claim_lease c"
  from cache_run_inv [OF run] have ok: "cache_ok sz c" by blast
  from lookup_inner_ok [OF ok, of now key True] claimed have stale: "answer_for c now True (held c key) = LStale answer True"
    by (auto simp: lookup_and_claim_refresh_def)
  from lookup_inner_ok [OF ok, of now key True, unfolded stale] claimed have c1: "cache_ok sz c1" "same_config c c1"
    "held c1 key = map_option (\<lambda>e. e\<lparr> ce_suppressed_until := Some (now + ?lease) \<rparr>) (held c key)"
    by (auto simp: lookup_and_claim_refresh_def)
  have lease: "dc_refresh_claim_lease c1 = ?lease" using c1(2) by (simp add: same_config_def)
  have leaves: "\<forall>(t, op)\<in>set ops. leaves_claim key op" using ops(1) by auto
  have first: "held_until c1 key (\<lambda>u. now + ?lease \<le> u)" "held_until c1 key (\<lambda>u. u = now + ?lease)"
    by (auto simp: held_until_def c1(3))
  have at_least: "cache_ok sz c2 \<and> same_config c1 c2 \<and> held_until c2 key (\<lambda>u. now + ?lease \<le> u)"
    by (rule leaves_claim_steps [OF c1(1) leaves ops(2) first(1)]) (use ops(1) lease in auto)
  have exact: "held_until c2 key (\<lambda>u. u = now + ?lease)" if "\<forall>(t, op)\<in>set ops. \<not> claims key op"
    using leaves_claim_steps [OF c1(1) leaves ops(2) first(2)] that by auto
  let ?r = "answer_for c2 now' True (held c2 key)"
  from lookup_inner_ok [of sz c2 now' key True] at_least obtain c3 where
    c3: "lookup_and_claim_refresh c2 now' key = Some (?r, c3)" by (auto simp: lookup_and_claim_refresh_def)
  have "?r \<noteq> LStale a True" if "now' < now + ?lease" for a
    using at_least that by (auto simp: answer_for_def held_until_def suppressed_def split: option.splits)
  moreover have "?r \<noteq> LStale a False" if "\<forall>(t, op)\<in>set ops. \<not> claims key op" "now + ?lease \<le> now'" for a
    using exact [OF that(1)] that(2) by (auto simp: answer_for_def held_until_def suppressed_def split: option.splits)
  ultimately show ?thesis using c3 by blast
qed

section \<open>A run\<close>

text \<open>A cache of 32 entries and 64 KiB that serves stale answers, one answer of sixty seconds stored
  at time 0, and a lookup that claims its refresh after the TTL.\<close>

definition sample_sizes :: sizes where
  "sample_sizes = \<lparr> sz_answer = 56, sz_record = 256 \<rparr>"

definition sample_config :: dns_cache_config where
  "sample_config = \<lparr> cfg_max_entries = 32, cfg_max_bytes = 65536, cfg_min_ttl_seconds = 10, cfg_max_ttl_seconds = 3600,
     cfg_negative_ttl_max_seconds = 300, cfg_serve_stale = True, cfg_swr_workers = 2, cfg_cleanup_interval_seconds = 3600 \<rparr>"

definition sample_cache :: dns_cache where
  "sample_cache = cache_new sample_config DEFAULT_REFRESH_CLAIM_LEASE (\<lambda>key. of_nat (length (ck_domain key)))"

definition sample_key :: cache_key where
  "sample_key = cache_key_of ''a.io'' RT_A 1"

definition sample_response :: message where
  "sample_response = (fresh_response 7 OpQuery)\<lparr> msg_answers := [\<lparr> rr_name = [''a'', ''io''], rr_ttl = 60, rr_data = RData_A 42 \<rparr>] \<rparr>"

definition sample_answer :: cached_answer where
  "sample_answer = \<lparr> an_records = msg_answers sample_response, an_authorities = [], an_response_code = NoError \<rparr>"

definition sample_stored :: dns_cache where
  "sample_stored = the (cache_apply sample_sizes 0 (OpStore sample_key sample_response) sample_cache)"

definition sample_claimed :: dns_cache where
  "sample_claimed = snd (the (lookup_and_claim_refresh sample_stored (61 * SECOND) sample_key))"

lemma sample_storable: "storable sample_cache sample_response = Some (sample_answer, 60)"
  by (simp add: storable_def sample_response_def sample_answer_def sample_cache_def cache_new_def sample_config_def Let_def
      fresh_response_def positive_ttl_def)

lemma sample_start: "cache_run sample_sizes sample_cache 0 []"
  unfolding sample_cache_def by (rule cache_run.start)

lemma sample_stored: "\<exists>seq. cache_apply sample_sizes 0 (OpStore sample_key sample_response) sample_cache = Some sample_stored
  \<and> same_config sample_cache sample_stored
  \<and> held sample_stored sample_key = Some \<lparr> ce_answer = sample_answer, ce_inserted_at = 0, ce_ttl = 60 * SECOND, ce_seq = seq, ce_suppressed_until = None \<rparr>"
proof -
  from cache_run_inv [OF sample_start] have "cache_ok sample_sizes sample_cache" by blast
  from cache_store_ok [OF this, of 0 sample_key sample_response] show ?thesis
    by (auto simp: sample_stored_def sample_storable)
qed

lemma sample_stored_run: "cache_run sample_sizes sample_stored 0 [(sample_key, sample_answer, 60, 0)]"
  using cache_run.step [OF sample_start, of 0 "OpStore sample_key sample_response" sample_stored] sample_stored
  by (auto simp: sample_storable)

lemma sample_lease: "dc_refresh_claim_lease sample_stored = 5 * SECOND" "dc_serve_stale sample_stored"
  using sample_stored
  by (auto simp: same_config_def sample_cache_def cache_new_def sample_config_def DEFAULT_REFRESH_CLAIM_LEASE_def Let_def)

lemma sample_claim: "lookup_and_claim_refresh sample_stored (61 * SECOND) sample_key = Some (LStale sample_answer True, sample_claimed)"
proof -
  from cache_run_inv [OF sample_stored_run] have "cache_ok sample_sizes sample_stored" by blast
  from lookup_inner_ok [OF this, of "61 * SECOND" sample_key True] sample_stored sample_lease(2) show ?thesis
    by (auto simp: sample_claimed_def lookup_and_claim_refresh_def answer_for_def expires_at_def stale_deadline_def MAX_STALE_def
        SECOND_def suppressed_def)
qed

theorem cache_bounded_witness:
  "cache_run sample_sizes sample_stored 0 [(sample_key, sample_answer, 60, 0)]
   \<and> cache_apply sample_sizes SECOND (OpClean True) sample_stored \<noteq> None
   \<and> list_all (\<lambda>sh. length (sh_map sh) \<le> sh_capacity sh \<and> length (sh_queue sh) \<le> 2 * sh_capacity sh) (dc_shards sample_stored)"
  using cache_bounded [OF sample_stored_run, of SECOND "OpClean True"] sample_stored_run by (auto simp: list_all_iff)

theorem cache_serves_latest_witness:
  "\<exists>ttl stored_at. map_of [(sample_key, sample_answer, 60 :: u32, 0)] sample_key = Some (sample_answer, ttl, stored_at)
     \<and> dc_serve_stale sample_stored \<and> stored_at + uint ttl * SECOND \<le> 61 * SECOND"
  using cache_serves_latest [OF sample_stored_run, of "61 * SECOND" sample_key True] sample_claim
  by (auto simp: lookup_and_claim_refresh_def SECOND_def)

theorem cache_store_available_witness:
  "\<exists>c c'. cache_store sample_sizes sample_cache 0 sample_key sample_response = Some (True, c)
     \<and> cache_lookup c (20 * SECOND) sample_key = Some (LFresh sample_answer 40, c')"
  using cache_store_available [OF sample_start sample_storable, of "20 * SECOND" 0 sample_key] by (auto simp: SECOND_def)

theorem refresh_claim_lease_witness:
  "\<exists>r c3. lookup_and_claim_refresh sample_claimed (66 * SECOND) sample_key = Some (r, c3) \<and> r \<noteq> LStale sample_answer False"
  using refresh_claim_lease [OF sample_stored_run sample_claim, of "[]" sample_claimed "66 * SECOND"]
  by (auto simp: sample_lease SECOND_def)
end
