(* ===== verification/Saturating.thy ===== *)
theory Saturating
  imports Prelude
begin

text \<open>Saturating and narrowing integer operations of the standard library, on machine words.\<close>

definition sat_add :: "'a::len word \<Rightarrow> 'a word \<Rightarrow> 'a word" where
  "sat_add a b = (if a + b < a then - 1 else a + b)"

definition sat_sub :: "'a::len word \<Rightarrow> 'a word \<Rightarrow> 'a word" where
  "sat_sub a b = (if a < b then 0 else a - b)"

definition sat_mul :: "'a::len word \<Rightarrow> 'a word \<Rightarrow> 'a word" where
  "sat_mul a b = (if 2 ^ LENGTH('a) \<le> uint a * uint b then - 1 else a * b)"

text \<open>\<open>uN::try_from(v).unwrap_or(uN::MAX)\<close> of a natural number or wider integer.\<close>

definition word_or_max :: "int \<Rightarrow> 'a::len word" where
  "word_or_max v = (if v < 2 ^ LENGTH('a) then word_of_int v else - 1)"

lemma uint_minus_1: "uint (- 1 :: 'a::len word) = 2 ^ LENGTH('a) - 1"
  by (simp add: unsigned_minus_1_eq_mask mask_eq_exp_minus_1)

lemma uint_sat_add: "uint (sat_add a b) = min (uint a + uint b) (2 ^ LENGTH('a) - 1)" for a b :: "'a::len word"
proof (cases "a + b < a")
  case True
  then have "\<not> uint a + uint b < 2 ^ LENGTH('a)"
    using no_olen_add [of a b] leD by blast
  with True show ?thesis by (simp add: sat_add_def uint_minus_1)
next
  case False
  then have "uint a + uint b < 2 ^ LENGTH('a)" using no_olen_add [of a b] by (simp add: not_less)
  with False show ?thesis by (simp add: sat_add_def uint_add_lem)
qed

lemma uint_sat_sub: "uint (sat_sub a b) = max 0 (uint a - uint b)"
  by (auto simp: sat_sub_def word_less_def uint_sub_lem not_less)

lemma uint_sat_mul: "uint (sat_mul a b) = min (uint a * uint b) (2 ^ LENGTH('a) - 1)" for a b :: "'a::len word"
  by (auto simp: sat_mul_def uint_minus_1 uint_mult_lem [symmetric] not_le min_def)

lemma uint_word_or_max: "0 \<le> v \<Longrightarrow> uint (word_or_max v :: 'a::len word) = min v (2 ^ LENGTH('a) - 1)"
  by (auto simp: word_or_max_def uint_minus_1 uint_word_of_int take_bit_int_eq_self)

end
