(* ===== verification/Health.thy ===== *)
theory Health
  imports Dns_Wire Saturating
begin

unbundle bit_operations_syntax

text \<open>
  Upstream health (\<open>fah-dns/src/upstream/health.rs\<close>): one packed 64-bit word per endpoint, its transition
  function, the compare-and-swap loops that update it, and the choice of the endpoint to ask.

  The atomics are modelled by what a thread reads: a retry loop takes the list of values its failed
  exchanges returned, and selection takes for every endpoint the word it loaded and whether its exchange
  succeeded. A clock read lazily and at most once is its value.
\<close>

section \<open>The packed word\<close>

definition STATE_MASK :: u64 where "STATE_MASK = 3"
definition ROUND_SHIFT :: nat where "ROUND_SHIFT = 2"
definition ROUND_MASK :: u64 where "ROUND_MASK = 15"
definition ROUND_MAX :: u8 where "ROUND_MAX = 15"
definition CF_SHIFT :: nat where "CF_SHIFT = 6"
definition CF_MASK :: u64 where "CF_MASK = 255"
definition TS_SHIFT :: nat where "TS_SHIFT = 14"
definition TS_MASK :: u64 where "TS_MASK = push_bit 50 1 - 1"

lemmas layout_defs = STATE_MASK_def ROUND_SHIFT_def ROUND_MASK_def CF_SHIFT_def CF_MASK_def TS_SHIFT_def TS_MASK_def

datatype health_state = Healthy | Penalized | Probing

record health_word =
  hw_state :: health_state
  hw_penalty_round :: u8
  hw_consecutive_failures :: u8
  hw_timestamp_ms :: u64

fun state_bits :: "health_state \<Rightarrow> u64" where
  "state_bits Healthy = 0"
| "state_bits Penalized = 1"
| "state_bits Probing = 2"

definition pack :: "health_state \<Rightarrow> u8 \<Rightarrow> u8 \<Rightarrow> u64 \<Rightarrow> u64" where
  "pack state penalty_round consecutive_failures timestamp_ms =
     state_bits state
     OR push_bit ROUND_SHIFT (ucast penalty_round AND ROUND_MASK)
     OR push_bit CF_SHIFT (ucast consecutive_failures AND CF_MASK)
     OR push_bit TS_SHIFT (timestamp_ms AND TS_MASK)"

text \<open>\<open>u8::try_from(..).unwrap_or(0)\<close>.\<close>

definition u8_or_zero :: "u64 \<Rightarrow> u8" where
  "u8_or_zero w = (if w < 256 then ucast w else 0)"

definition unpack :: "u64 \<Rightarrow> health_word" where
  "unpack word =
     (let bits = word AND STATE_MASK
      in \<lparr> hw_state = (if bits = 1 then Penalized else if bits = 2 then Probing else Healthy),
           hw_penalty_round = u8_or_zero (drop_bit ROUND_SHIFT word AND ROUND_MASK),
           hw_consecutive_failures = u8_or_zero (drop_bit CF_SHIFT word AND CF_MASK),
           hw_timestamp_ms = drop_bit TS_SHIFT word \<rparr>)"

definition deadline_passed :: "health_word \<Rightarrow> u64 \<Rightarrow> bool" where
  "deadline_passed w now_ms \<longleftrightarrow> hw_timestamp_ms w \<le> now_ms"

lemma TS_MASK_mask: "TS_MASK = mask 50"
  by (simp add: TS_MASK_def mask_eq_exp_minus_1)

lemma bit_of_mask: "bit (3 :: u64) n = (n < 2)" "bit (15 :: u64) n = (n < 4)" "bit (255 :: u64) n = (n < 8)"
proof -
  have "(3 :: u64) = mask 2" "(15 :: u64) = mask 4" "(255 :: u64) = mask 8" by (simp_all add: mask_numeral)
  then show "bit (3 :: u64) n = (n < 2)" "bit (15 :: u64) n = (n < 4)" "bit (255 :: u64) n = (n < 8)"
    by (simp_all only: bit_mask_iff) auto
qed

lemma bit_state_bits: "bit (state_bits s) n = (s = Penalized \<and> n = 0 \<or> s = Probing \<and> n = 1)"
proof -
  have "(2 :: u64) = push_bit 1 1" by simp
  then show ?thesis by (cases s) (simp_all only: state_bits.simps bit_push_bit_iff bit_1_iff, auto)
qed

lemma bit_pack:
  "bit (pack s r c t) n = (if n < 2 then bit (state_bits s) n else if n < 6 then bit r (n - 2) \<and> n - 2 < 4
     else if n < 14 then bit c (n - 6) else n < 64 \<and> bit t (n - 14))"
proof -
  have s: "bit (state_bits s) n \<Longrightarrow> n < 2" by (auto simp: bit_state_bits)
  have r: "bit r m \<Longrightarrow> m < 8" and c: "bit c m \<Longrightarrow> m < 8" for m using bit_imp_le_length [of r m] bit_imp_le_length [of c m] by simp_all
  show ?thesis
    unfolding pack_def layout_defs(1-6) TS_MASK_mask bit_or_iff bit_push_bit_iff bit_and_iff bit_of_mask bit_mask_iff bit_unsigned_iff
    using s r [of "n - 2"] c [of "n - 6"] by auto
qed

text \<open>What is packed is read back: the round modulo 16, the timestamp modulo 2^50.\<close>

lemma unpack_pack: "unpack (pack s r c t) =
  \<lparr> hw_state = s, hw_penalty_round = take_bit 4 r, hw_consecutive_failures = c, hw_timestamp_ms = take_bit 50 t \<rparr>"
proof -
  have state: "pack s r c t AND 3 = state_bits s"
    by (rule bit_word_eqI, unfold bit_and_iff bit_of_mask bit_pack) (auto simp: bit_state_bits)
  have r: "drop_bit 2 (pack s r c t) AND 15 = ucast (take_bit 4 r)"
    by (rule bit_word_eqI, unfold bit_and_iff bit_of_mask bit_drop_bit_eq comp_def bit_pack bit_unsigned_iff bit_take_bit_iff) auto
  have c: "drop_bit 6 (pack s r c t) AND 255 = ucast c"
    using bit_imp_le_length [of c]
    by (intro bit_word_eqI, unfold bit_and_iff bit_of_mask bit_drop_bit_eq comp_def bit_pack bit_unsigned_iff) auto
  have t: "drop_bit 14 (pack s r c t) = take_bit 50 t"
    by (rule bit_word_eqI, unfold bit_drop_bit_eq comp_def bit_pack bit_take_bit_iff)
      (use bit_imp_le_length [of t] in auto)
  have small: "(ucast x :: u64) < 256" "ucast (ucast x :: u64) = x" for x :: u8
  proof -
    have "uint x < 256" using uint_lt2p [of x] by simp
    then show "(ucast x :: u64) < 256" by (simp add: word_less_def unsigned_ucast_eq take_bit_int_eq_self)
    show "ucast (ucast x :: u64) = x" by (rule bit_word_eqI) (auto simp: bit_simps)
  qed
  show ?thesis
    unfolding unpack_def layout_defs(1-6) Let_def state r c t u8_or_zero_def
    by (cases s) (simp_all add: small)
qed

section \<open>Outcomes and penalties\<close>

datatype health_outcome = Success | HardFailure | PathFailure

datatype transport_kind = Plain | Encrypted

datatype health_mode = Record | Ignore

datatype io_error =
    ConnectionRefused | NetworkUnreachable | HostUnreachable | InvalidData | InvalidInput | TimedOut | NotFound | OtherError

text \<open>The result of an attempt: a message or an \<open>io::Error\<close>, of which the code reads the kind.\<close>

definition classify :: "transport_kind \<Rightarrow> io_error + message \<Rightarrow> health_outcome" where
  "classify transport result =
     (case result of
        Inr _ \<Rightarrow> Success
      | Inl err \<Rightarrow>
          if err = ConnectionRefused \<or> err = NetworkUnreachable \<or> err = HostUnreachable then PathFailure
          else if err = InvalidData then (case transport of Encrypted \<Rightarrow> PathFailure | Plain \<Rightarrow> HardFailure)
          else HardFailure)"

record health_policy =
  hp_penalty_failures :: u8
  hp_penalty_base_ms :: u64
  hp_penalty_max_ms :: u64

definition PENALTY_MAX_MS :: u64 where "PENALTY_MAX_MS = 300000"
definition PENALTY_BASE_FACTOR :: u64 where "PENALTY_BASE_FACTOR = 10"
definition ATTEMPT_LEGS :: u32 where "ATTEMPT_LEGS = 3"

definition from_timeout :: "u64 \<Rightarrow> u8 \<Rightarrow> health_policy" where
  "from_timeout timeout_ms penalty_failures =
     (let attempt_bound_ms = ucast ATTEMPT_LEGS * timeout_ms
      in \<lparr> hp_penalty_failures = penalty_failures,
           hp_penalty_base_ms = PENALTY_BASE_FACTOR * attempt_bound_ms,
           hp_penalty_max_ms = PENALTY_MAX_MS \<rparr>)"

fun doubled :: "nat \<Rightarrow> u64 \<Rightarrow> u64 \<Rightarrow> u64" where
  "doubled 0 nominal penalty_max_ms = nominal"
| "doubled (Suc n) nominal penalty_max_ms =
     (if penalty_max_ms \<le> nominal then nominal else doubled n (sat_mul nominal 2) penalty_max_ms)"

definition nominal_penalty :: "u8 \<Rightarrow> health_policy \<Rightarrow> u64" where
  "nominal_penalty round policy =
     min (doubled (unat round - 1) (hp_penalty_base_ms policy) (hp_penalty_max_ms policy)) (hp_penalty_max_ms policy)"

definition penalty :: "u8 \<Rightarrow> u64 \<Rightarrow> health_policy \<Rightarrow> u64" where
  "penalty round now_ms policy =
     (let nominal = nominal_penalty round policy;
          bits = now_ms AND 255;
          percent = 75 + bits * 50 div 255
      in word_or_max (uint nominal * uint percent div 100))"

section \<open>Transitions\<close>

datatype transition = NoChange | Store u64 "u8 option" "u64 option"

definition next_round :: "health_word \<Rightarrow> u64 \<Rightarrow> health_policy \<Rightarrow> u8" where
  "next_round w now_ms policy =
     (if hw_state w = Healthy \<and> hp_penalty_max_ms policy \<le> sat_sub now_ms (hw_timestamp_ms w) then 1
      else min (sat_add (hw_penalty_round w) 1) ROUND_MAX)"

definition penalize :: "health_word \<Rightarrow> u8 \<Rightarrow> u64 \<Rightarrow> health_policy \<Rightarrow> transition" where
  "penalize w consecutive_failures now_ms policy =
     (let round = next_round w now_ms policy;
          deadline = sat_add now_ms (penalty round now_ms policy)
      in Store (pack Penalized round consecutive_failures deadline) None (Some (nominal_penalty round policy)))"

definition next_word :: "u64 \<Rightarrow> health_outcome \<Rightarrow> u64 \<Rightarrow> health_policy \<Rightarrow> transition" where
  "next_word word outcome now_ms policy =
     (let w = unpack word; cf = sat_add (hw_consecutive_failures w) 1 in
      case (hw_state w, outcome) of
        (Healthy, Success) \<Rightarrow>
          if hw_consecutive_failures w = 0 then NoChange
          else Store (pack Healthy (hw_penalty_round w) 0 (hw_timestamp_ms w)) (Some (hw_consecutive_failures w)) None
      | (_, Success) \<Rightarrow>
          Store (pack Healthy (hw_penalty_round w) 0 now_ms)
            (if 0 < hw_consecutive_failures w then Some (hw_consecutive_failures w) else None) None
      | (Healthy, HardFailure) \<Rightarrow>
          if hp_penalty_failures policy \<le> cf then penalize w cf now_ms policy
          else Store (pack Healthy (hw_penalty_round w) cf (hw_timestamp_ms w)) None None
      | (Healthy, PathFailure) \<Rightarrow> penalize w cf now_ms policy
      | (Penalized, _) \<Rightarrow>
          if cf = hw_consecutive_failures w then NoChange
          else Store (pack Penalized (hw_penalty_round w) cf (hw_timestamp_ms w)) None None
      | (Probing, _) \<Rightarrow> penalize w cf now_ms policy)"

text \<open>The retry loop of \<open>record\<close>: \<open>currents\<close> are the values its failed exchanges return, one after the
  other; then an exchange succeeds. The result is the transition and the word it replaced.\<close>

fun health_record :: "health_outcome \<Rightarrow> u64 \<Rightarrow> health_policy \<Rightarrow> u64 \<Rightarrow> u64 list \<Rightarrow> transition \<times> u64" where
  "health_record outcome now_ms policy old currents =
     (case next_word old outcome now_ms policy of
        NoChange \<Rightarrow> (NoChange, old)
      | Store word closed_run penalty_applied \<Rightarrow>
          (case currents of
             [] \<Rightarrow> (Store word closed_run penalty_applied, old)
           | current # currents \<Rightarrow> health_record outcome now_ms policy current currents))"

text \<open>The word the transition leaves in place of \<open>old\<close>.\<close>

definition left_by :: "transition \<Rightarrow> u64 \<Rightarrow> u64" where
  "left_by transition old = (case transition of NoChange \<Rightarrow> old | Store word _ _ \<Rightarrow> word)"

section \<open>Selection and probes\<close>

datatype selected = SelHealthy | SelProbe | SelForced

record candidate =
  cd_id :: u8
  cd_selected :: selected

definition endpoint_id :: "nat \<Rightarrow> u8" where
  "endpoint_id index = (if index < 256 then of_nat index else - 1)"

definition probing_word :: "health_word \<Rightarrow> u64" where
  "probing_word w = pack Probing (hw_penalty_round w) (hw_consecutive_failures w) (hw_timestamp_ms w)"

text \<open>An endpoint as the scan sees it: the word loaded, and whether exchanging it succeeds.\<close>

fun select_from :: "(u64 \<times> bool) list \<Rightarrow> nat \<Rightarrow> u64 \<Rightarrow> bool \<Rightarrow> (u8 \<times> u64) option \<Rightarrow> candidate option" where
  "select_from [] index now_ms claim forced =
     map_option (\<lambda>(id, _). \<lparr> cd_id = id, cd_selected = SelForced \<rparr>) forced"
| "select_from ((word, exchanged) # views) index now_ms claim forced =
     (let w = unpack word
      in if hw_state w = Healthy then Some \<lparr> cd_id = endpoint_id index, cd_selected = SelHealthy \<rparr>
         else if hw_state w = Penalized \<and> claim \<and> deadline_passed w now_ms \<and> exchanged
         then Some \<lparr> cd_id = endpoint_id index, cd_selected = SelProbe \<rparr>
         else select_from views (index + 1) now_ms claim
                (case forced of
                   None \<Rightarrow> Some (endpoint_id index, hw_timestamp_ms w)
                 | Some (_, earliest) \<Rightarrow>
                     if hw_timestamp_ms w < earliest then Some (endpoint_id index, hw_timestamp_ms w) else forced))"

definition select :: "(u64 \<times> bool) list \<Rightarrow> nat \<Rightarrow> u64 \<Rightarrow> bool \<Rightarrow> candidate option" where
  "select views start now_ms claim = select_from (drop start views) start now_ms claim None"

text \<open>\<open>ProbeGuard::drop\<close> of an armed guard: \<open>claimed\<close> was read when it was made, \<open>currents\<close> are the values
  of failed exchanges. \<open>None\<close> means that nothing is written.\<close>

fun rollback_loop :: "u64 \<Rightarrow> u64 \<Rightarrow> u64 \<Rightarrow> u64 list \<Rightarrow> u64 option" where
  "rollback_loop claimed restored current currents =
     (if current = claimed
      then (case currents of [] \<Rightarrow> Some restored | actual # currents \<Rightarrow> rollback_loop claimed restored actual currents)
      else None)"

definition probe_rollback :: "u64 \<Rightarrow> u64 list \<Rightarrow> u64 option" where
  "probe_rollback claimed currents =
     (let w = unpack claimed
      in if hw_state w \<noteq> Probing then None
         else rollback_loop claimed (pack Penalized (hw_penalty_round w) (hw_consecutive_failures w) (hw_timestamp_ms w))
                claimed currents)"

section \<open>Penalties\<close>

lemma doubled_min: "min (uint (doubled n b m)) (uint m) = min (uint b * 2 ^ n) (uint m)"
proof (induction n arbitrary: b)
  case (Suc n)
  show ?case
  proof (cases "m \<le> b")
    case True
    then have "uint m \<le> uint b" by (simp add: word_le_def)
    moreover have "uint b * 1 \<le> uint b * 2 ^ Suc n" by (intro mult_left_mono one_le_power) simp_all
    ultimately have "uint m \<le> uint b" "uint m \<le> uint b * 2 ^ Suc n" by linarith+
    then show ?thesis using True by (simp only: doubled.simps if_True min_absorb2)
  next
    case False
    have "uint m < 2 ^ 64" using uint_lt2p [of m] by simp
    moreover have "min (min (x * 2) (2 ^ 64 - 1) * 2 ^ n) y = min (x * 2 ^ Suc n) y" if "y < 2 ^ 64" "0 \<le> x" for x y :: int
    proof (cases "x * 2 \<le> 2 ^ 64 - 1")
      case True
      then show ?thesis by (simp add: mult.assoc min_def)
    next
      case False
      have "y \<le> (2 ^ 64 - 1) * 1" using that(1) by simp
      also have "\<dots> \<le> (2 ^ 64 - 1) * 2 ^ n" by (intro mult_left_mono one_le_power) simp_all
      finally have "y \<le> (2 ^ 64 - 1) * 2 ^ n" .
      moreover have "(2 ^ 64 - 1) * 2 ^ n \<le> x * 2 ^ Suc n" using False by (simp add: mult.assoc [symmetric])
      ultimately have "y \<le> (2 ^ 64 - 1) * 2 ^ n" "y \<le> x * 2 ^ Suc n" by linarith+
      moreover have "min (x * 2) (2 ^ 64 - 1) = 2 ^ 64 - 1" using False by (simp add: min_absorb2)
      ultimately show ?thesis by (simp only: min_absorb2)
    qed
    ultimately show ?thesis using False Suc.IH [of "sat_mul b 2"] by (simp add: uint_sat_mul)
  qed
qed simp

lemma uint_min_word: "uint (min a b) = min (uint a) (uint b)"
  by (simp add: min_def word_le_def)

text \<open>The nominal penalty doubles with every round up to the maximum.\<close>

lemma nominal_penalty_value: "uint (nominal_penalty round policy) =
  min (uint (hp_penalty_base_ms policy) * 2 ^ (unat round - 1)) (uint (hp_penalty_max_ms policy))"
  by (simp add: nominal_penalty_def uint_min_word doubled_min)

lemma percent_range: "75 \<le> uint (75 + (x AND 255) * 50 div 255 :: u64)" "uint (75 + (x AND 255) * 50 div 255 :: u64) \<le> 125"
proof -
  have x: "uint (x AND 255) \<le> 255" using word_and_le1 [of x 255] by (simp add: word_le_def)
  have m: "uint ((x AND 255) * 50) = uint (x AND 255) * 50" using x by (subst uint_mult_lem [THEN iffD1]) simp_all
  have d: "uint ((x AND 255) * 50 div 255) = uint (x AND 255) * 50 div 255" by (simp add: uint_div_distrib m)
  have "uint (75 + (x AND 255) * 50 div 255) = 75 + uint (x AND 255) * 50 div 255"
    using x by (subst uint_add_lem [THEN iffD1]) (simp_all add: d)
  then show "75 \<le> uint (75 + (x AND 255) * 50 div 255 :: u64)" "uint (75 + (x AND 255) * 50 div 255 :: u64) \<le> 125"
    using x by (simp_all add: pos_imp_zdiv_nonneg_iff)
qed

lemma penalty_range: "uint (nominal_penalty round policy) * 75 div 100 \<le> uint (penalty round now_ms policy)"
  "uint (penalty round now_ms policy) \<le> uint (nominal_penalty round policy) * 125 div 100"
proof -
  let ?n = "uint (nominal_penalty round policy)" and ?p = "uint (75 + (now_ms AND 255) * 50 div 255 :: u64)"
  have n: "0 \<le> ?n" "?n < 2 ^ 64" using uint_lt2p [of "nominal_penalty round policy"] by simp_all
  have u: "uint (penalty round now_ms policy) = min (?n * ?p div 100) (2 ^ 64 - 1)"
    by (simp add: penalty_def Let_def uint_word_or_max pos_imp_zdiv_nonneg_iff)
  have "?n * 75 \<le> ?n * ?p" "?n * ?p \<le> ?n * 125" using percent_range [of now_ms] n(1) by (auto intro: mult_left_mono)
  then have "?n * 75 div 100 \<le> ?n * ?p div 100" "?n * ?p div 100 \<le> ?n * 125 div 100" by (auto intro: zdiv_mono1)
  moreover have "?n * 75 div 100 \<le> 2 ^ 64 - 1" using n by linarith
  ultimately show "?n * 75 div 100 \<le> uint (penalty round now_ms policy)" "uint (penalty round now_ms policy) \<le> ?n * 125 div 100"
    unfolding u by linarith+
qed

section \<open>Transitions, in terms of the unpacked word\<close>

lemma unpack_fields: "take_bit 4 (hw_penalty_round (unpack word)) = hw_penalty_round (unpack word)"
  "take_bit 50 (hw_timestamp_ms (unpack word)) = hw_timestamp_ms (unpack word)"
proof -
  have "u8_or_zero (drop_bit 2 word AND 15) = take_bit 4 (u8_or_zero (drop_bit 2 word AND 15))"
    by (rule bit_word_eqI) (auto simp: u8_or_zero_def bit_take_bit_iff bit_unsigned_iff bit_and_iff simp flip: bit_of_mask(2))
  then show "take_bit 4 (hw_penalty_round (unpack word)) = hw_penalty_round (unpack word)"
    by (simp add: unpack_def Let_def layout_defs)
  have "take_bit 50 (drop_bit 14 word) = drop_bit 14 word"
    by (rule bit_word_eqI, unfold bit_take_bit_iff bit_drop_bit_eq comp_def) (use bit_imp_le_length [of word] in force)
  then show "take_bit 50 (hw_timestamp_ms (unpack word)) = hw_timestamp_ms (unpack word)"
    by (simp add: unpack_def Let_def layout_defs)
qed

lemma next_round_range: "1 \<le> uint (next_round w now_ms policy)" "uint (next_round w now_ms policy) \<le> 15"
  "take_bit 4 (next_round w now_ms policy) = next_round w now_ms policy"
proof -
  show r: "1 \<le> uint (next_round w now_ms policy)" "uint (next_round w now_ms policy) \<le> 15"
    using uint_sat_add [of "hw_penalty_round w" 1]
    by (simp_all add: next_round_def uint_min_word ROUND_MAX_def)
  then show "take_bit 4 (next_round w now_ms policy) = next_round w now_ms policy"
    by (intro word_uint_eqI) (simp add: unsigned_take_bit_eq take_bit_int_eq_self)
qed

lemma unpack_penalize:
  assumes small: "uint now_ms + uint (nominal_penalty (next_round w now_ms policy) policy) * 125 div 100 < 2 ^ 50"
  shows "\<exists>word deadline. penalize w cf now_ms policy = Store word None (Some (nominal_penalty (next_round w now_ms policy) policy))
    \<and> unpack word = \<lparr> hw_state = Penalized, hw_penalty_round = next_round w now_ms policy, hw_consecutive_failures = cf,
        hw_timestamp_ms = deadline \<rparr>
    \<and> uint now_ms + uint (nominal_penalty (next_round w now_ms policy) policy) * 75 div 100 \<le> uint deadline
    \<and> uint deadline \<le> uint now_ms + uint (nominal_penalty (next_round w now_ms policy) policy) * 125 div 100"
proof -
  let ?round = "next_round w now_ms policy"
  let ?deadline = "sat_add now_ms (penalty ?round now_ms policy)"
  have d: "uint ?deadline = uint now_ms + uint (penalty ?round now_ms policy)"
    using small penalty_range(2) [where round = ?round and policy = policy and now_ms = now_ms] by (simp add: uint_sat_add)
  have "take_bit 50 ?deadline = ?deadline"
    using d small penalty_range(2) [where round = ?round and policy = policy and now_ms = now_ms]
    by (intro word_uint_eqI) (simp add: unsigned_take_bit_eq take_bit_int_eq_self)
  then show ?thesis
    using d penalty_range [where round = ?round and policy = policy and now_ms = now_ms]
    by (auto simp: penalize_def Let_def unpack_pack next_round_range(3))
qed

definition keeps_standing :: "health_word \<Rightarrow> health_outcome \<Rightarrow> health_policy \<Rightarrow> bool" where
  "keeps_standing w outcome policy \<longleftrightarrow> hw_state w = Penalized
     \<or> hw_state w = Healthy \<and> outcome = HardFailure \<and> \<not> hp_penalty_failures policy \<le> sat_add (hw_consecutive_failures w) 1"

lemma next_word_success:
  "unpack (left_by (next_word word Success now_ms policy) word) =
     \<lparr> hw_state = Healthy, hw_penalty_round = hw_penalty_round (unpack word), hw_consecutive_failures = 0,
       hw_timestamp_ms = (if hw_state (unpack word) = Healthy then hw_timestamp_ms (unpack word) else take_bit 50 now_ms) \<rparr>"
  by (cases "hw_state (unpack word)") (auto simp: next_word_def Let_def left_by_def unpack_pack unpack_fields)

lemma next_word_standing:
  assumes "outcome \<noteq> Success" "keeps_standing (unpack word) outcome policy"
  shows "unpack (left_by (next_word word outcome now_ms policy) word) =
     (unpack word)\<lparr> hw_consecutive_failures := sat_add (hw_consecutive_failures (unpack word)) 1 \<rparr>"
proof -
  have "sat_add c 1 = c \<Longrightarrow> w\<lparr> hw_consecutive_failures := c \<rparr> = w" if "c = hw_consecutive_failures w" for w c using that by simp
  with assms show ?thesis
    by (cases "hw_state (unpack word)"; cases outcome)
      (auto simp: next_word_def Let_def left_by_def unpack_pack unpack_fields keeps_standing_def)
qed

lemma next_word_penalizes:
  assumes "outcome \<noteq> Success" "\<not> keeps_standing (unpack word) outcome policy"
  shows "next_word word outcome now_ms policy =
    penalize (unpack word) (sat_add (hw_consecutive_failures (unpack word)) 1) now_ms policy"
  using assms by (cases "hw_state (unpack word)"; cases outcome) (auto simp: next_word_def Let_def keeps_standing_def)

lemma left_by_not_probing: "hw_state (unpack (left_by (next_word word outcome now_ms policy) word)) \<noteq> Probing"
proof (cases "outcome = Success \<or> keeps_standing (unpack word) outcome policy")
  case True
  then show ?thesis using next_word_success [of word now_ms policy] next_word_standing [of outcome word policy now_ms]
    by (cases "outcome = Success") (auto simp: keeps_standing_def)
next
  case False
  then show ?thesis by (simp add: next_word_penalizes penalize_def Let_def left_by_def unpack_pack)
qed

lemma health_record_replaces:
  "health_record outcome now_ms policy word currents = (t, old) \<Longrightarrow> t = next_word old outcome now_ms policy \<and> old \<in> set (word # currents)"
  by (induction currents arbitrary: word) (auto split: transition.splits)

lemma penalty_small:
  assumes "uint now_ms + uint (hp_penalty_max_ms policy) * 125 div 100 < 2 ^ 50"
  shows "uint now_ms + uint (nominal_penalty round policy) * 125 div 100 < 2 ^ 50"
proof -
  have "uint (nominal_penalty round policy) \<le> uint (hp_penalty_max_ms policy)" by (simp add: nominal_penalty_value)
  then have "uint (nominal_penalty round policy) * 125 div 100 \<le> uint (hp_penalty_max_ms policy) * 125 div 100"
    by (intro zdiv_mono1 mult_right_mono) simp_all
  with assms show ?thesis by linarith
qed

text \<open>C16: Recording the outcome of an attempt is one transition of the endpoint's word, whatever other threads
  write meanwhile: the transition of the word it replaces, never leaving it probing. A success leaves
  it healthy with no failures. A failure is counted; while penalized, and while healthy below the
  configured run of hard failures, it changes nothing else, so it neither extends a deadline nor
  deepens a round. Otherwise the endpoint is penalized, in a round from 1 to 15, until a deadline between
  75 and 125 percent of the round's nominal penalty from now, which doubles with the round up to the
  maximum.\<close>

theorem record_transition:
  assumes small: "uint now_ms + uint (hp_penalty_max_ms policy) * 125 div 100 < 2 ^ 50"
    and rec: "health_record outcome now_ms policy word currents = (transition, old)"
  defines "w \<equiv> unpack old" and "w' \<equiv> unpack (left_by transition old)"
  defines "nominal \<equiv> min (uint (hp_penalty_base_ms policy) * 2 ^ (unat (hw_penalty_round w') - 1)) (uint (hp_penalty_max_ms policy))"
  shows "old \<in> set (word # currents) \<and> hw_state w' \<noteq> Probing
    \<and> (if outcome = Success then hw_state w' = Healthy \<and> hw_consecutive_failures w' = 0 \<and> hw_penalty_round w' = hw_penalty_round w
       else hw_consecutive_failures w' = sat_add (hw_consecutive_failures w) 1 \<and>
         (if keeps_standing w outcome policy
          then hw_state w' = hw_state w \<and> hw_penalty_round w' = hw_penalty_round w \<and> hw_timestamp_ms w' = hw_timestamp_ms w
          else hw_state w' = Penalized \<and> hw_penalty_round w' = next_round w now_ms policy
            \<and> 1 \<le> uint (hw_penalty_round w') \<and> uint (hw_penalty_round w') \<le> 15
            \<and> uint now_ms + nominal * 75 div 100 \<le> uint (hw_timestamp_ms w')
            \<and> uint (hw_timestamp_ms w') \<le> uint now_ms + nominal * 125 div 100))"
proof -
  from health_record_replaces [OF rec] have t: "transition = next_word old outcome now_ms policy" "old \<in> set (word # currents)" by auto
  have np: "hw_state w' \<noteq> Probing" unfolding w'_def t(1) by (rule left_by_not_probing)
  consider "outcome = Success" | "outcome \<noteq> Success" "keeps_standing w outcome policy" | "outcome \<noteq> Success" "\<not> keeps_standing w outcome policy" by blast
  then show ?thesis
  proof cases
    case 1
    then show ?thesis using t np next_word_success [of old now_ms policy] by (simp add: w'_def w_def)
  next
    case 2
    then show ?thesis using t np next_word_standing [of outcome old policy now_ms] by (simp add: w'_def w_def)
  next
    case 3
    let ?round = "next_round w now_ms policy"
    from unpack_penalize [OF penalty_small [OF small], of w "sat_add (hw_consecutive_failures w) 1"] obtain word' deadline where
      p: "penalize w (sat_add (hw_consecutive_failures w) 1) now_ms policy = Store word' None (Some (nominal_penalty ?round policy))"
      "unpack word' = \<lparr> hw_state = Penalized, hw_penalty_round = ?round, hw_consecutive_failures = sat_add (hw_consecutive_failures w) 1,
          hw_timestamp_ms = deadline \<rparr>"
      "uint now_ms + uint (nominal_penalty ?round policy) * 75 div 100 \<le> uint deadline"
      "uint deadline \<le> uint now_ms + uint (nominal_penalty ?round policy) * 125 div 100" by blast
    have w': "w' = unpack word'"
      using next_word_penalizes [of outcome old policy now_ms] 3 p(1) by (simp add: w'_def w_def t(1) left_by_def)
    have n: "nominal = uint (nominal_penalty ?round policy)" by (simp add: nominal_def w' p(2) nominal_penalty_value)
    show ?thesis using t(2) 3 p(3,4) next_round_range(1,2) [where w = w and now_ms = now_ms and policy = policy]
      unfolding n by (simp add: w' p(2))
  qed
qed

theorem record_transition_witness:
  "hw_state (unpack (left_by (fst (health_record PathFailure 1000 (from_timeout 800 2) 0 [])) 0)) = Penalized
   \<and> uint (hw_timestamp_ms (unpack (left_by (fst (health_record PathFailure 1000 (from_timeout 800 2) 0 [])) 0))) \<le> 31000"
proof -
  have h: "hp_penalty_base_ms (from_timeout 800 2) = 24000" "hp_penalty_max_ms (from_timeout 800 2) = 300000"
    "snd (health_record PathFailure 1000 (from_timeout 800 2) 0 []) = 0" "keeps_standing (unpack 0) PathFailure (from_timeout 800 2) = False"
    "next_round (unpack 0) 1000 (from_timeout 800 2) = 1" by code_simp+
  obtain t where t: "health_record PathFailure 1000 (from_timeout 800 2) 0 [] = (t, 0)" using h(3) by (metis prod.collapse)
  from record_transition [OF _ t] have w: "hw_state (unpack (left_by t 0)) = Penalized" "hw_penalty_round (unpack (left_by t 0)) = 1"
    unfolding h by simp_all
  from record_transition [OF _ t] have "uint (hw_timestamp_ms (unpack (left_by t 0))) \<le> 31000" unfolding h w(2) by simp
  with w(1) show ?thesis by (simp add: t del: health_record.simps)
qed

section \<open>Selection\<close>

definition ready :: "u64 \<Rightarrow> bool \<Rightarrow> u64 \<times> bool \<Rightarrow> bool" where
  "ready now_ms claim v \<longleftrightarrow> hw_state (unpack (fst v)) = Healthy
     \<or> hw_state (unpack (fst v)) = Penalized \<and> claim \<and> deadline_passed (unpack (fst v)) now_ms \<and> snd v"

abbreviation deadline_of :: "u64 \<times> bool \<Rightarrow> u64" where
  "deadline_of v \<equiv> hw_timestamp_ms (unpack (fst v))"

text \<open>The candidate for a forced attempt: the earliest deadline, and the first of equals.\<close>

definition earliest_at :: "(u64 \<times> bool) list \<Rightarrow> nat \<Rightarrow> nat \<Rightarrow> nat \<Rightarrow> bool" where
  "earliest_at views start stop i \<longleftrightarrow> start \<le> i \<and> i < stop
     \<and> (\<forall>j. start \<le> j \<and> j < stop \<longrightarrow> deadline_of (views ! i) \<le> deadline_of (views ! j))
     \<and> (\<forall>j. start \<le> j \<and> j < i \<longrightarrow> deadline_of (views ! i) < deadline_of (views ! j))"

definition forced_ok :: "(u64 \<times> bool) list \<Rightarrow> nat \<Rightarrow> nat \<Rightarrow> (u8 \<times> u64) option \<Rightarrow> bool" where
  "forced_ok views start stop forced \<longleftrightarrow> (case forced of
     None \<Rightarrow> stop = start
   | Some (eid, earliest) \<Rightarrow> \<exists>i. earliest_at views start stop i \<and> eid = endpoint_id i \<and> earliest = deadline_of (views ! i))"

lemma forced_ok_step:
  assumes "forced_ok views start stop forced" "start \<le> stop"
  shows "forced_ok views start (Suc stop) (case forced of
      None \<Rightarrow> Some (endpoint_id stop, deadline_of (views ! stop))
    | Some (_, earliest) \<Rightarrow>
        if deadline_of (views ! stop) < earliest then Some (endpoint_id stop, deadline_of (views ! stop)) else forced)"
proof (cases forced)
  case None
  with assms have "earliest_at views start (Suc stop) stop" by (auto simp: forced_ok_def earliest_at_def less_Suc_eq)
  with None show ?thesis by (auto simp: forced_ok_def)
next
  case (Some f)
  obtain eid earliest where f: "f = (eid, earliest)" by (cases f)
  from assms Some f obtain i where i: "earliest_at views start stop i" "eid = endpoint_id i" "earliest = deadline_of (views ! i)"
    by (auto simp: forced_ok_def)
  show ?thesis
  proof (cases "deadline_of (views ! stop) < earliest")
    case True
    then have "earliest_at views start (Suc stop) stop"
      using i(1,3) assms(2) by (auto simp: earliest_at_def less_Suc_eq intro: less_imp_le order_less_le_trans)
    with True Some f show ?thesis by (auto simp: forced_ok_def)
  next
    case False
    then have "earliest_at views start (Suc stop) i" using i(1,3) by (auto simp: earliest_at_def less_Suc_eq not_less)
    with False Some f i(2,3) show ?thesis by (auto simp: forced_ok_def)
  qed
qed

definition chosen :: "(u64 \<times> bool) list \<Rightarrow> nat \<Rightarrow> u64 \<Rightarrow> bool \<Rightarrow> nat \<Rightarrow> selected \<Rightarrow> bool" where
  "chosen views start now_ms claim i how \<longleftrightarrow> start \<le> i \<and> i < length views
     \<and> (case how of
          SelForced \<Rightarrow> (\<forall>j. start \<le> j \<and> j < length views \<longrightarrow> \<not> ready now_ms claim (views ! j)) \<and> earliest_at views start (length views) i
        | _ \<Rightarrow> (\<forall>j. start \<le> j \<and> j < i \<longrightarrow> \<not> ready now_ms claim (views ! j)) \<and> ready now_ms claim (views ! i)
               \<and> (how = SelHealthy \<longleftrightarrow> hw_state (unpack (fst (views ! i))) = Healthy))"

lemma select_from_chosen:
  assumes "forced_ok views start index forced" "start \<le> index" "index \<le> length views"
    "\<forall>j. start \<le> j \<and> j < index \<longrightarrow> \<not> ready now_ms claim (views ! j)"
  shows "case select_from (drop index views) index now_ms claim forced of
      None \<Rightarrow> length views = start
    | Some c \<Rightarrow> \<exists>i. chosen views start now_ms claim i (cd_selected c) \<and> cd_id c = endpoint_id i"
  using assms
proof (induction "length views - index" arbitrary: index forced)
  case 0
  then have stop: "index = length views" by simp
  show ?case
  proof (cases forced)
    case None
    with 0 stop show ?thesis by (simp add: forced_ok_def)
  next
    case (Some f)
    with 0 stop obtain i where "earliest_at views start (length views) i" "fst f = endpoint_id i"
      by (cases f) (auto simp: forced_ok_def)
    moreover have "i < length views" "start \<le> i" using calculation(1) by (auto simp: earliest_at_def)
    ultimately show ?thesis using Some 0(5) stop by (cases f) (auto simp: chosen_def)
  qed
next
  case (Suc n)
  then have lt: "index < length views" by simp
  obtain word exchanged where v: "views ! index = (word, exchanged)" by (cases "views ! index")
  have d: "drop index views = (word, exchanged) # drop (Suc index) views" using lt v by (metis Cons_nth_drop_Suc)
  show ?case
  proof (cases "ready now_ms claim (views ! index)")
    case True
    then have "chosen views start now_ms claim index (if hw_state (unpack word) = Healthy then SelHealthy else SelProbe)"
      using Suc.prems lt v by (auto simp: chosen_def ready_def)
    with True show ?thesis unfolding d by (auto simp: v ready_def Let_def split: if_splits)
  next
    case False
    let ?forced = "case forced of None \<Rightarrow> Some (endpoint_id index, hw_timestamp_ms (unpack word))
      | Some (_, earliest) \<Rightarrow> if hw_timestamp_ms (unpack word) < earliest then Some (endpoint_id index, hw_timestamp_ms (unpack word)) else forced"
    have "select_from (drop index views) index now_ms claim forced = select_from (drop (Suc index) views) (Suc index) now_ms claim ?forced"
      using False unfolding d by (auto simp: v ready_def Let_def)
    moreover have "\<forall>j. start \<le> j \<and> j < Suc index \<longrightarrow> \<not> ready now_ms claim (views ! j)"
      using Suc.prems(4) False by (auto simp: less_Suc_eq)
    ultimately show ?thesis
      using Suc.hyps(1) [of "Suc index" ?forced] Suc.hyps(2) forced_ok_step [OF Suc.prems(1,2), unfolded v fst_conv] Suc.prems(2) lt by simp
  qed
qed

lemma endpoint_id_unat: "i < 256 \<Longrightarrow> unat (endpoint_id i) = i"
  by (simp add: endpoint_id_def unat_of_nat_small)

lemma select_chosen:
  assumes "length views \<le> 256" "start \<le> length views"
  shows "case select views start now_ms claim of
      None \<Rightarrow> start = length views
    | Some c \<Rightarrow> chosen views start now_ms claim (unat (cd_id c)) (cd_selected c)"
proof -
  have "case select_from (drop start views) start now_ms claim None of
      None \<Rightarrow> length views = start
    | Some c \<Rightarrow> \<exists>i. chosen views start now_ms claim i (cd_selected c) \<and> cd_id c = endpoint_id i"
    by (rule select_from_chosen) (use assms(2) in \<open>auto simp: forced_ok_def\<close>)
  moreover have "chosen views start now_ms claim i how \<Longrightarrow> unat (endpoint_id i) = i" for i how
    using assms(1) endpoint_id_unat by (simp add: chosen_def)
  ultimately show ?thesis by (auto simp: select_def split: option.splits)
qed

lemma rollback_loop_value:
  "rollback_loop claimed restored current currents =
     (if list_all (\<lambda>w. w = claimed) (current # currents) then Some restored else None)"
proof (induction currents arbitrary: current)
  case (Cons actual currents)
  show ?case by (subst rollback_loop.simps) (simp add: Cons.IH del: rollback_loop.simps)
qed simp

declare rollback_loop.simps [simp del] health_record.simps [simp del]

end
