(* ===== verification/Response.thy ===== *)
theory Response
  imports Cache
begin

text \<open>
  Synthesised answers: the interpretation of \<open>$dnsrewrite\<close> payloads (\<open>fah-dns/src/rewrite.rs\<close>) and the
  replies the pipeline builds and encodes (\<open>fah-dns/src/response.rs\<close>).
\<close>

section \<open>Rewrites\<close>

datatype rewrite_address = RewriteV4 ipv4 | RewriteV6 ipv6

datatype rewrite_outcome = RewriteTo rewrite_address | RewriteCode response_code | Unhandled

definition parse_ipv6_addr :: "string \<Rightarrow> ipv6 option" where
  "parse_ipv6_addr s =
     (case read_ipv6_addr s of
        Some (gs, r) \<Rightarrow> if r = [] then Some (ipv6_of_segments gs) else None
      | None \<Rightarrow> None)"

definition bare_code :: "string \<Rightarrow> response_code option" where
  "bare_code raw =
     (let code = upper raw
      in if code = ''NOERROR'' then Some NoError
         else if code = ''NXDOMAIN'' then Some NXDomain
         else if code = ''REFUSED'' then Some Refused
         else None)"

definition parse_bare_code :: "string \<Rightarrow> rewrite_outcome option" where
  "parse_bare_code raw = map_option RewriteCode (bare_code raw)"

definition parse_address :: "string \<Rightarrow> bool \<Rightarrow> bool \<Rightarrow> rewrite_outcome option" where
  "parse_address raw qtype_is_a qtype_is_aaaa =
     (case (if qtype_is_a then parse_ipv4_addr raw else None) of
        Some addr \<Rightarrow> Some (RewriteTo (RewriteV4 addr))
      | None \<Rightarrow>
          (case (if qtype_is_aaaa then parse_ipv6_addr raw else None) of
             Some addr \<Rightarrow> Some (RewriteTo (RewriteV6 addr))
           | None \<Rightarrow>
               if parse_ipv4_addr raw \<noteq> None \<or> parse_ipv6_addr raw \<noteq> None then Some Unhandled else None))"

text \<open>\<open>RCODE;TYPE;VALUE\<close> with an address type: the code and the value.\<close>

definition full_form :: "string \<Rightarrow> (string \<times> string) option" where
  "full_form raw =
     (case split_once CHR '';'' raw of
        None \<Rightarrow> None
      | Some (rcode, rest) \<Rightarrow>
          (case split_once CHR '';'' rest of
             None \<Rightarrow> None
           | Some (rtype, value) \<Rightarrow>
               if eq_ignore_ascii_case rtype ''a'' \<or> eq_ignore_ascii_case rtype ''aaaa'' then Some (rcode, value) else None))"

definition interpret_rewrite :: "string \<Rightarrow> bool \<Rightarrow> bool \<Rightarrow> rewrite_outcome" where
  "interpret_rewrite raw qtype_is_a qtype_is_aaaa =
     (let raw = trim raw in
      case parse_bare_code raw of
        Some result \<Rightarrow> result
      | None \<Rightarrow>
          (case parse_address raw qtype_is_a qtype_is_aaaa of
             Some result \<Rightarrow> result
           | None \<Rightarrow>
               (case full_form raw of
                  None \<Rightarrow> Unhandled
                | Some (rcode, value) \<Rightarrow>
                    let code = (if trim rcode = [] then Some NoError else bare_code (trim rcode))
                    in if code = Some NoError
                       then (case parse_address (trim value) qtype_is_a qtype_is_aaaa of
                               Some result \<Rightarrow> result
                             | None \<Rightarrow> Unhandled)
                       else Unhandled)))"

section \<open>Replies\<close>

definition NO_EDNS_UDP_PAYLOAD :: u16 where
  "NO_EDNS_UDP_PAYLOAD = 512"

definition skeleton :: "hickory \<Rightarrow> message \<Rightarrow> response_code \<Rightarrow> message" where
  "skeleton hk request code =
     (let response = (hk_response hk (msg_id request) (msg_op_code request))
            \<lparr> msg_response_code := code, msg_recursion_desired := msg_recursion_desired request,
              msg_recursion_available := True, msg_authentic_data := False \<rparr>
      in case msg_edns request of
           None \<Rightarrow> response
         | Some request_edns \<Rightarrow>
             response\<lparr> msg_edns := Some ((hk_edns hk)\<lparr> ed_max_payload := max (ed_max_payload request_edns) NO_EDNS_UDP_PAYLOAD,
                                                       ed_dnssec_ok := ed_dnssec_ok request_edns \<rparr>) \<rparr>)"

definition response_error :: "hickory \<Rightarrow> message \<Rightarrow> response_code \<Rightarrow> message" where
  "response_error hk request code = skeleton hk request code"

definition with_query :: "wire_query \<Rightarrow> message \<Rightarrow> message" where
  "with_query q m = m\<lparr> msg_queries := msg_queries m @ [q] \<rparr>"

definition with_answer :: "rr \<Rightarrow> message \<Rightarrow> message" where
  "with_answer r m = m\<lparr> msg_answers := msg_answers m @ [r] \<rparr>"

definition with_authority :: "rr \<Rightarrow> message \<Rightarrow> message" where
  "with_authority r m = m\<lparr> msg_authorities := msg_authorities m @ [r] \<rparr>"

definition null_ip_reply :: "hickory \<Rightarrow> message \<Rightarrow> wire_query \<Rightarrow> u32 \<Rightarrow> message" where
  "null_ip_reply hk request query ttl =
     (let response = with_query query (skeleton hk request NoError)
      in if wq_type query = RT_A
         then with_answer \<lparr> rr_name = wq_name query, rr_ttl = ttl, rr_data = RData_A 0 \<rparr> response
         else if wq_type query = RT_AAAA
         then with_answer \<lparr> rr_name = wq_name query, rr_ttl = ttl, rr_data = RData_AAAA 0 \<rparr> response
         else response)"

definition blocked :: "hickory \<Rightarrow> message \<Rightarrow> wire_query \<Rightarrow> u32 \<Rightarrow> string option \<Rightarrow> message" where
  "blocked hk request query ttl dns_rewrite =
     (case dns_rewrite of
        None \<Rightarrow> null_ip_reply hk request query ttl
      | Some raw \<Rightarrow>
          (case interpret_rewrite raw (wq_type query = RT_A) (wq_type query = RT_AAAA) of
             RewriteCode code \<Rightarrow> with_query query (skeleton hk request code)
           | RewriteTo address \<Rightarrow>
               let response = with_query query (skeleton hk request NoError);
                   record_data = (case address of RewriteV4 a \<Rightarrow> RData_A a | RewriteV6 a \<Rightarrow> RData_AAAA a)
               in with_answer \<lparr> rr_name = wq_name query, rr_ttl = ttl, rr_data = record_data \<rparr> response
           | Unhandled \<Rightarrow> null_ip_reply hk request query ttl))"

definition reply_from_cache :: "hickory \<Rightarrow> message \<Rightarrow> wire_query \<Rightarrow> cached_answer \<Rightarrow> u32 \<Rightarrow> message" where
  "reply_from_cache hk request query answer ttl =
     (let response = with_query query (skeleton hk request (an_response_code answer));
          response = fold (\<lambda>r. with_answer (r\<lparr> rr_ttl := ttl \<rparr>)) (an_records answer) response
      in fold (\<lambda>r. with_authority (r\<lparr> rr_ttl := ttl \<rparr>)) (an_authorities answer) response)"

definition max_udp_payload :: "message \<Rightarrow> u16" where
  "max_udp_payload request =
     (case msg_edns request of None \<Rightarrow> NO_EDNS_UDP_PAYLOAD | Some e \<Rightarrow> max (ed_max_payload e) NO_EDNS_UDP_PAYLOAD)"

record encoded =
  en_bytes :: string
  en_failure :: bool

definition encode :: "hickory \<Rightarrow> message \<Rightarrow> encoded" where
  "encode hk message =
     (case hk_to_vec hk message of
        Some bytes \<Rightarrow> \<lparr> en_bytes = bytes, en_failure = False \<rparr>
      | None \<Rightarrow>
          \<lparr> en_bytes = (case hk_to_vec hk (hk_error hk (msg_id message) (msg_op_code message) ServFail) of
                          Some bytes \<Rightarrow> bytes | None \<Rightarrow> []),
            en_failure = True \<rparr>)"

definition encode_for_transport :: "hickory \<Rightarrow> message \<Rightarrow> u16 \<Rightarrow> encoded" where
  "encode_for_transport hk message budget =
     (let full = encode hk message
      in if length (en_bytes full) \<le> unat budget then full
         else let truncated = encode hk (hk_truncate hk message)
              in \<lparr> en_bytes = en_bytes truncated, en_failure = en_failure full \<or> en_failure truncated \<rparr>)"

section \<open>What the replies say\<close>

definition answers_request :: "message \<Rightarrow> message \<Rightarrow> bool" where
  "answers_request request m \<longleftrightarrow> msg_id m = msg_id request \<and> msg_op_code m = msg_op_code request \<and> \<not> msg_is_query m
     \<and> msg_recursion_desired m = msg_recursion_desired request \<and> msg_recursion_available m \<and> \<not> msg_authentic_data m
     \<and> \<not> msg_truncation m
     \<and> (case (msg_edns request, msg_edns m) of
          (None, None) \<Rightarrow> True
        | (Some e, Some e') \<Rightarrow> ed_dnssec_ok e' = ed_dnssec_ok e \<and> ed_max_payload e' = max (ed_max_payload e) 512
        | _ \<Rightarrow> False)"

lemma skeleton_ok:
  assumes "hickory_ok hk"
  shows "answers_request request (skeleton hk request code)" "msg_response_code (skeleton hk request code) = code"
    "msg_queries (skeleton hk request code) = []" "msg_answers (skeleton hk request code) = []"
    "msg_authorities (skeleton hk request code) = []"
  using assms
  by (auto simp: skeleton_def answers_request_def hickory_ok_def fresh_response_def Let_def NO_EDNS_UDP_PAYLOAD_def split: option.splits)

lemma with_simps [simp]:
  "answers_request request (with_query q m) = answers_request request m" "answers_request request (with_answer r m) = answers_request request m"
  "answers_request request (with_authority r m) = answers_request request m"
  "msg_queries (with_query q m) = msg_queries m @ [q]" "msg_queries (with_answer r m) = msg_queries m" "msg_queries (with_authority r m) = msg_queries m"
  "msg_answers (with_query q m) = msg_answers m" "msg_answers (with_answer r m) = msg_answers m @ [r]" "msg_answers (with_authority r m) = msg_answers m"
  "msg_authorities (with_query q m) = msg_authorities m" "msg_authorities (with_answer r m) = msg_authorities m"
  "msg_authorities (with_authority r m) = msg_authorities m @ [r]"
  "msg_response_code (with_query q m) = msg_response_code m" "msg_response_code (with_answer r m) = msg_response_code m"
  "msg_response_code (with_authority r m) = msg_response_code m"
  by (simp_all add: with_query_def with_answer_def with_authority_def answers_request_def)

lemma with_answers:
  "answers_request request (fold (\<lambda>r. with_answer (f r)) rs m) = answers_request request m"
  "msg_queries (fold (\<lambda>r. with_answer (f r)) rs m) = msg_queries m"
  "msg_answers (fold (\<lambda>r. with_answer (f r)) rs m) = msg_answers m @ map f rs"
  "msg_authorities (fold (\<lambda>r. with_answer (f r)) rs m) = msg_authorities m"
  "msg_response_code (fold (\<lambda>r. with_answer (f r)) rs m) = msg_response_code m"
  by (induction rs arbitrary: m) simp_all

lemma with_authorities:
  "answers_request request (fold (\<lambda>r. with_authority (f r)) rs m) = answers_request request m"
  "msg_queries (fold (\<lambda>r. with_authority (f r)) rs m) = msg_queries m"
  "msg_answers (fold (\<lambda>r. with_authority (f r)) rs m) = msg_answers m"
  "msg_authorities (fold (\<lambda>r. with_authority (f r)) rs m) = msg_authorities m @ map f rs"
  "msg_response_code (fold (\<lambda>r. with_authority (f r)) rs m) = msg_response_code m"
  by (induction rs arbitrary: m) simp_all

text \<open>A replayed answer: the upstream's records and code, the given TTL on every record.\<close>

lemma reply_from_cache_ok:
  assumes "hickory_ok hk"
  shows "answers_request request (reply_from_cache hk request query answer ttl)
    \<and> msg_queries (reply_from_cache hk request query answer ttl) = [query]
    \<and> msg_response_code (reply_from_cache hk request query answer ttl) = an_response_code answer
    \<and> msg_answers (reply_from_cache hk request query answer ttl) = map (\<lambda>r. r\<lparr> rr_ttl := ttl \<rparr>) (an_records answer)
    \<and> msg_authorities (reply_from_cache hk request query answer ttl) = map (\<lambda>r. r\<lparr> rr_ttl := ttl \<rparr>) (an_authorities answer)"
  using skeleton_ok [OF assms, of request "an_response_code answer"]
  by (simp add: reply_from_cache_def Let_def with_answers with_authorities)


lemma parse_address_family:
  "parse_address raw is_a is_aaaa = Some (RewriteTo (RewriteV4 a)) \<Longrightarrow> is_a"
  "parse_address raw is_a is_aaaa = Some (RewriteTo (RewriteV6 b)) \<Longrightarrow> is_aaaa"
  "parse_address raw is_a is_aaaa \<noteq> Some (RewriteCode code)"
  by (auto simp: parse_address_def split: option.splits if_splits)

lemma interpret_rewrite_family:
  "interpret_rewrite raw is_a is_aaaa = RewriteTo (RewriteV4 a) \<Longrightarrow> is_a"
  "interpret_rewrite raw is_a is_aaaa = RewriteTo (RewriteV6 b) \<Longrightarrow> is_aaaa"
  "interpret_rewrite raw is_a is_aaaa = RewriteCode code \<Longrightarrow> bare_code (trim raw) = Some code"
  using parse_address_family
  by (auto simp: interpret_rewrite_def parse_bare_code_def Let_def split: option.splits if_splits prod.splits)

definition synthesised :: "wire_query \<Rightarrow> u32 \<Rightarrow> rr \<Rightarrow> bool" where
  "synthesised query ttl r \<longleftrightarrow> rr_name r = wq_name query \<and> rr_ttl r = ttl
     \<and> (case rr_data r of RData_A _ \<Rightarrow> wq_type query = RT_A | RData_AAAA _ \<Rightarrow> wq_type query = RT_AAAA | _ \<Rightarrow> False)"

text \<open>C18: The answer to a blocked question answers that request and echoes its question, carries no authority
  records and at most one record, which is an address of the type that was asked for under the
  configured TTL. A code other than success has no record and is the one the rule's rewrite names.
  Without a rewrite the address is the null address, and other types get an empty success, never a
  denial of the name.\<close>

theorem blocked_reply:
  assumes hk: "hickory_ok hk" and m_def: "m = blocked hk request query ttl rewrite"
  shows "answers_request request m \<and> msg_queries m = [query] \<and> msg_authorities m = []
    \<and> (msg_answers m = [] \<or> (\<exists>r. msg_answers m = [r] \<and> synthesised query ttl r))
    \<and> (msg_response_code m = NoError \<or> msg_answers m = [] \<and> (\<exists>raw. rewrite = Some raw \<and> bare_code (trim raw) = Some (msg_response_code m)))
    \<and> (rewrite \<noteq> None \<or> msg_response_code m = NoError \<and> map rr_data (msg_answers m) =
         (if wq_type query = RT_A then [RData_A 0] else if wq_type query = RT_AAAA then [RData_AAAA 0] else []))"
proof -
  note sk = skeleton_ok [OF hk, of request]
  have null: "answers_request request (null_ip_reply hk request query ttl) \<and> msg_queries (null_ip_reply hk request query ttl) = [query]
      \<and> msg_authorities (null_ip_reply hk request query ttl) = [] \<and> msg_response_code (null_ip_reply hk request query ttl) = NoError
      \<and> map rr_data (msg_answers (null_ip_reply hk request query ttl)) =
          (if wq_type query = RT_A then [RData_A 0] else if wq_type query = RT_AAAA then [RData_AAAA 0] else [])
      \<and> (msg_answers (null_ip_reply hk request query ttl) = []
          \<or> (\<exists>r. msg_answers (null_ip_reply hk request query ttl) = [r] \<and> synthesised query ttl r))"
    by (simp add: null_ip_reply_def Let_def sk synthesised_def)
  show ?thesis
  proof (cases rewrite)
    case None
    then show ?thesis using null by (simp add: m_def blocked_def)
  next
    case (Some raw)
    show ?thesis
    proof (cases "interpret_rewrite raw (wq_type query = RT_A) (wq_type query = RT_AAAA)")
      case (RewriteTo a)
      have "case a of RewriteV4 _ \<Rightarrow> wq_type query = RT_A | RewriteV6 _ \<Rightarrow> wq_type query = RT_AAAA"
      proof (cases a)
        case (RewriteV4 x)
        then show ?thesis using interpret_rewrite_family(1) [OF RewriteTo [unfolded RewriteV4]] by simp
      next
        case (RewriteV6 x)
        then show ?thesis using interpret_rewrite_family(2) [OF RewriteTo [unfolded RewriteV6]] by simp
      qed
      then show ?thesis using Some RewriteTo by (cases a) (simp_all add: m_def blocked_def Let_def sk synthesised_def)
    next
      case (RewriteCode code)
      then show ?thesis using Some interpret_rewrite_family(3) [OF RewriteCode] by (simp add: m_def blocked_def sk)
    next
      case Unhandled
      then show ?thesis using Some null by (simp add: m_def blocked_def)
    qed
  qed
qed

text \<open>A concrete message crate: fresh responses as documented, encoding to a byte for every record.\<close>

definition sample_hickory :: hickory where
  "sample_hickory =
     \<lparr> hk_from_vec = (\<lambda>_. None), hk_to_vec = (\<lambda>m. Some (replicate (length (msg_answers m)) CHR ''x'')),
       hk_truncate = (\<lambda>m. m\<lparr> msg_answers := [], msg_truncation := True \<rparr>), hk_response = fresh_response,
       hk_error = (\<lambda>mid op code. (fresh_response mid op)\<lparr> msg_response_code := code \<rparr>),
       hk_query = (\<lambda>mid. (fresh_response mid OpQuery)\<lparr> msg_is_query := True \<rparr>),
       hk_edns = \<lparr> ed_max_payload = 512, ed_dnssec_ok = False \<rparr>, hk_display = concat, hk_name = (\<lambda>s. Some [s]) \<rparr>"

lemma sample_hickory_ok: "hickory_ok sample_hickory"
  by (simp add: hickory_ok_def sample_hickory_def)

definition sample_question :: wire_query where
  "sample_question = \<lparr> wq_name = [''ads'', ''io''], wq_type = RT_A, wq_class = 1 \<rparr>"

definition sample_query :: message where
  "sample_query = (fresh_response 9 OpQuery)\<lparr> msg_is_query := True, msg_recursion_desired := True, msg_queries := [sample_question] \<rparr>"

theorem blocked_reply_witness:
  "msg_response_code (blocked sample_hickory sample_query sample_question 10 (Some '' nxdomain '')) = NXDomain
   \<and> msg_answers (blocked sample_hickory sample_query sample_question 10 (Some '' nxdomain '')) = []
   \<and> answers_request sample_query (blocked sample_hickory sample_query sample_question 10 (Some '' nxdomain ''))"
proof -
  have "msg_response_code (blocked sample_hickory sample_query sample_question 10 (Some '' nxdomain '')) = NXDomain" by code_simp
  with blocked_reply [OF sample_hickory_ok refl, of sample_query sample_question 10 "Some '' nxdomain ''"] show ?thesis by simp
qed

end
