(* ===== verification/Transport.thy ===== *)
theory Transport
  imports Health Response
begin

text \<open>
  The transports to an upstream: plain DNS (\<open>fah-dns/src/upstream/plain.rs\<close>) and the persistent encrypted
  exchange (\<open>fah-dns/src/upstream/encrypted.rs\<close>), with the latency histogram both feed
  (\<open>fah-common/src/histogram.rs\<close>). The network is an argument: what arrives on a socket before its deadline,
  in order, and how connecting, writing and sending end.
\<close>

section \<open>The latency histogram\<close>

record histogram =
  hg_buckets :: "u64 list"
  hg_count :: u64
  hg_sum_nanos :: u64

definition histogram_new :: "nat \<Rightarrow> histogram" where
  "histogram_new n = \<lparr> hg_buckets = replicate n 0, hg_count = 0, hg_sum_nanos = 0 \<rparr>"

text \<open>\<open>within nanos i\<close> is the floating-point comparison of the duration with bound \<open>i\<close>.\<close>

definition observe :: "(int \<Rightarrow> nat \<Rightarrow> bool) \<Rightarrow> int \<Rightarrow> histogram \<Rightarrow> histogram" where
  "observe within nanos h =
     (let h = (case position (within nanos) [0..<length (hg_buckets h)] of
                 Some index \<Rightarrow> h\<lparr> hg_buckets := (hg_buckets h)[index := hg_buckets h ! index + 1] \<rparr>
               | None \<Rightarrow> h)
      in h\<lparr> hg_count := hg_count h + 1, hg_sum_nanos := hg_sum_nanos h + word_of_int nanos \<rparr>)"

fun running_totals :: "u64 \<Rightarrow> u64 list \<Rightarrow> u64 list" where
  "running_totals running [] = []"
| "running_totals running (b # bs) = (running + b) # running_totals (running + b) bs"

definition cumulative :: "histogram \<Rightarrow> u64 list" where
  "cumulative h = running_totals 0 (hg_buckets h)"

lemma running_totals_nth: "i < length bs \<Longrightarrow> running_totals r bs ! i = r + sum_list (take (Suc i) bs)"
  by (induction bs arbitrary: r i) (auto simp: nth_Cons add.assoc split: nat.splits)

lemma sum_list_bump: "i < length bs \<Longrightarrow> sum_list (bs[i := bs ! i + 1]) = sum_list bs + (1 :: u64)"
  by (induction bs arbitrary: i) (auto simp: nth_Cons split: nat.splits)

text \<open>The last cumulative bucket counts the observations a bound covers, and the count covers all.\<close>

lemma observe_counts:
  "hg_count (observe within nanos h) = hg_count h + 1"
  "length (hg_buckets (observe within nanos h)) = length (hg_buckets h)"
  "sum_list (hg_buckets (observe within nanos h)) = sum_list (hg_buckets h) + (if \<exists>i<length (hg_buckets h). within nanos i then 1 else 0)"
proof -
  show "hg_count (observe within nanos h) = hg_count h + 1" "length (hg_buckets (observe within nanos h)) = length (hg_buckets h)"
    by (auto simp: observe_def Let_def split: option.splits)
  show "sum_list (hg_buckets (observe within nanos h)) = sum_list (hg_buckets h) + (if \<exists>i<length (hg_buckets h). within nanos i then 1 else 0)"
  proof (cases "position (within nanos) [0..<length (hg_buckets h)]")
    case None
    then have "\<not> (\<exists>i<length (hg_buckets h). within nanos i)" by (auto simp: position_None)
    then show ?thesis using None by (simp add: observe_def Let_def)
  next
    case (Some i)
    then have "i < length (hg_buckets h)" "\<exists>i<length (hg_buckets h). within nanos i"
      using position_less [OF Some] position_None [of "within nanos" "[0..<length (hg_buckets h)]"] by force+
    then show ?thesis using Some by (simp add: observe_def Let_def sum_list_bump)
  qed
qed

section \<open>Plain DNS\<close>

datatype udp_event = Datagram string | RecvError io_error

fun receive_matching :: "hickory \<Rightarrow> u16 \<Rightarrow> nat \<Rightarrow> udp_event list \<Rightarrow> io_error + message" where
  "receive_matching hk request_id reply_budget [] = Inl TimedOut"
| "receive_matching hk request_id reply_budget (RecvError err # events) = Inl err"
| "receive_matching hk request_id reply_budget (Datagram bytes # events) =
     (case hk_from_vec hk (take reply_budget bytes) of
        Some response \<Rightarrow>
          if msg_id response = request_id \<and> \<not> msg_is_query response then Inr response
          else receive_matching hk request_id reply_budget events
      | None \<Rightarrow> receive_matching hk request_id reply_budget events)"

text \<open>A peer on UDP: an error of binding, connecting or sending, or the events on the socket. A peer on
  TCP: errors of connecting and writing, the bytes that arrive, and how reading past them ends.\<close>

record udp_peer =
  up_setup :: "io_error option"
  up_events :: "udp_event list"

record tcp_peer =
  tp_connect :: "io_error option"
  tp_write :: "io_error option"
  tp_bytes :: string
  tp_end :: io_error

definition udp_round_trip :: "hickory \<Rightarrow> udp_peer \<Rightarrow> u16 \<Rightarrow> nat \<Rightarrow> io_error + message" where
  "udp_round_trip hk peer request_id reply_budget =
     (case up_setup peer of
        Some err \<Rightarrow> Inl err
      | None \<Rightarrow> receive_matching hk request_id reply_budget (up_events peer))"

definition byte_of :: "char \<Rightarrow> nat" where
  "byte_of c = of_char c"

definition be_bytes :: "u16 \<Rightarrow> string" where
  "be_bytes w = [char_of (unat (drop_bit 8 w)), char_of (unat w)]"

definition tcp_round_trip :: "hickory \<Rightarrow> tcp_peer \<Rightarrow> string \<Rightarrow> u16 \<Rightarrow> io_error + message" where
  "tcp_round_trip hk peer request_bytes request_id =
     (case tp_connect peer of
        Some err \<Rightarrow> Inl err
      | None \<Rightarrow>
          if 65535 < length request_bytes then Inl InvalidInput
          else (case tp_write peer of
            Some err \<Rightarrow> Inl err
          | None \<Rightarrow>
              if length (tp_bytes peer) < 2 then Inl (tp_end peer)
              else let reply_len = 256 * byte_of (tp_bytes peer ! 0) + byte_of (tp_bytes peer ! 1);
                       rest = drop 2 (tp_bytes peer)
                in if length rest < reply_len then Inl (tp_end peer)
                   else (case hk_from_vec hk (take reply_len rest) of
                     None \<Rightarrow> Inl InvalidData
                   | Some response \<Rightarrow>
                       if msg_id response \<noteq> request_id \<or> msg_is_query response then Inl InvalidData
                       else Inr response)))"

text \<open>\<open>None\<close> is the panic of writing the id into an encoding shorter than two bytes.\<close>

definition plain_query :: "hickory \<Rightarrow> udp_peer \<Rightarrow> tcp_peer \<Rightarrow> u16 \<Rightarrow> message \<Rightarrow> (io_error + message) option" where
  "plain_query hk udp tcp request_id request =
     (case hk_to_vec hk request of
        None \<Rightarrow> Some (Inl InvalidInput)
      | Some request_bytes \<Rightarrow>
          if length request_bytes < 2 then None
          else let request_bytes = be_bytes request_id @ drop 2 request_bytes;
                   reply_budget = unat (max_udp_payload request)
            in Some (case udp_round_trip hk udp request_id reply_budget of
                 Inl err \<Rightarrow> Inl err
               | Inr response \<Rightarrow>
                   if \<not> msg_truncation response then Inr response
                   else tcp_round_trip hk tcp request_bytes request_id))"

text \<open>An encoded message has its twelve-byte header.\<close>

definition hickory_header :: "hickory \<Rightarrow> bool" where
  "hickory_header hk \<longleftrightarrow> (\<forall>m bytes. hk_to_vec hk m = Some bytes \<longrightarrow> 12 \<le> length bytes)"

lemma receive_matching_genuine:
  "receive_matching hk request_id budget events = Inr m \<Longrightarrow>
     msg_id m = request_id \<and> \<not> msg_is_query m \<and> (\<exists>bytes. Datagram bytes \<in> set events \<and> hk_from_vec hk (take budget bytes) = Some m)"
  by (induction hk request_id budget events rule: receive_matching.induct) (auto split: option.splits if_splits)

lemma tcp_round_trip_genuine:
  "tcp_round_trip hk peer bytes request_id = Inr m \<Longrightarrow>
     msg_id m = request_id \<and> \<not> msg_is_query m \<and> (\<exists>n. hk_from_vec hk (take n (drop 2 (tp_bytes peer))) = Some m)"
  by (auto simp: tcp_round_trip_def Let_def split: option.splits if_splits)

text \<open>Datagrams that do not carry the expected id, or are no responses, are as if they had not arrived.\<close>

definition acceptable :: "hickory \<Rightarrow> u16 \<Rightarrow> nat \<Rightarrow> udp_event \<Rightarrow> bool" where
  "acceptable hk request_id budget e =
     (case e of RecvError _ \<Rightarrow> True
      | Datagram bytes \<Rightarrow> (case hk_from_vec hk (take budget bytes) of
            Some m \<Rightarrow> msg_id m = request_id \<and> \<not> msg_is_query m | None \<Rightarrow> False))"

lemma receive_matching_filter:
  "receive_matching hk request_id budget (filter (acceptable hk request_id budget) events) = receive_matching hk request_id budget events"
  by (induction hk request_id budget events rule: receive_matching.induct) (auto simp: acceptable_def split: option.splits)

text \<open>C17: An answer accepted over plain DNS is a response to this very query: its id is the fresh random id of
  the attempt. A truncated datagram is never returned, only the answer to its retry over TCP; and
  datagrams that are not such responses, however many, change nothing. The attempt does not panic.\<close>

theorem plain_reply_genuine:
  assumes hdr: "hickory_header hk"
  shows "\<exists>r. plain_query hk udp tcp request_id request = Some r
    \<and> plain_query hk (udp\<lparr> up_events := filter (acceptable hk request_id (unat (max_udp_payload request))) (up_events udp) \<rparr>) tcp request_id request = Some r
    \<and> (\<forall>m. r = Inr m \<longrightarrow> msg_id m = request_id \<and> \<not> msg_is_query m
        \<and> ((\<exists>bytes. Datagram bytes \<in> set (up_events udp) \<and> hk_from_vec hk (take (unat (max_udp_payload request)) bytes) = Some m) \<and> \<not> msg_truncation m
           \<or> (\<exists>n. hk_from_vec hk (take n (drop 2 (tp_bytes tcp))) = Some m)))"
proof (cases "hk_to_vec hk request")
  case None
  then show ?thesis by (simp add: plain_query_def)
next
  case (Some bytes)
  let ?budget = "unat (max_udp_payload request)"
  have len: "\<not> length bytes < 2" using hdr Some by (force simp: hickory_header_def)
  have same: "udp_round_trip hk (udp\<lparr> up_events := filter (acceptable hk request_id ?budget) (up_events udp) \<rparr>) request_id ?budget
      = udp_round_trip hk udp request_id ?budget"
    by (simp add: udp_round_trip_def receive_matching_filter split: option.splits)
  show ?thesis
  proof (cases "udp_round_trip hk udp request_id ?budget")
    case (Inl err)
    then show ?thesis using Some len same by (simp add: plain_query_def Let_def)
  next
    case (Inr response)
    then have "receive_matching hk request_id ?budget (up_events udp) = Inr response"
      by (auto simp: udp_round_trip_def split: option.splits)
    from receive_matching_genuine [OF this] Inr Some len same tcp_round_trip_genuine [of hk tcp _ request_id] show ?thesis
      by (simp add: plain_query_def Let_def)
  qed
qed

text \<open>A crate whose decoder reads a message from its first byte: an answer with the id \<open>65\<close> for \<open>A\<close>.\<close>

definition wire_hickory :: hickory where
  "wire_hickory = sample_hickory\<lparr> hk_to_vec := (\<lambda>m. Some (replicate 12 CHR ''q'')),
     hk_from_vec := (\<lambda>bytes. case bytes of [] \<Rightarrow> None | c # _ \<Rightarrow> Some (fresh_response (of_char c) OpQuery)) \<rparr>"

lemma wire_hickory_ok: "hickory_ok wire_hickory" "hickory_header wire_hickory"
  using sample_hickory_ok by (auto simp: wire_hickory_def hickory_ok_def hickory_header_def)

theorem plain_reply_genuine_witness:
  "\<exists>m. plain_query wire_hickory \<lparr> up_setup = None, up_events = [Datagram ''Z'', Datagram [], Datagram ''A''] \<rparr>
      \<lparr> tp_connect = None, tp_write = None, tp_bytes = [], tp_end = OtherError \<rparr> 65 sample_query = Some (Inr m) \<and> msg_id m = 65"
proof -
  let ?udp = "\<lparr> up_setup = None, up_events = [Datagram ''Z'', Datagram [], Datagram ''A''] \<rparr>"
  let ?tcp = "\<lparr> tp_connect = None, tp_write = None, tp_bytes = [], tp_end = OtherError \<rparr>"
  have "map_option isl (plain_query wire_hickory ?udp ?tcp 65 sample_query) = Some False" by code_simp
  then obtain r where r: "plain_query wire_hickory ?udp ?tcp 65 sample_query = Some r" "\<not> isl r" by auto
  from plain_reply_genuine [OF wire_hickory_ok(2), of ?udp ?tcp 65 sample_query] r show ?thesis by (cases r) auto
qed

section \<open>The encrypted exchange\<close>

text \<open>An exchange is named by a number. The slot's lock is held while connecting but not while sending, so
  between two steps of a query other queries may have replaced or dropped the exchange.\<close>

record exchange_slot =
  sl_generation :: u64
  sl_exchange :: "nat option"

record exchange_conn =
  xc_slot :: exchange_slot
  xc_handshakes :: u64

record held_exchange =
  he_exchange :: nat
  he_generation :: u64
  he_fresh :: bool

definition conn_new :: exchange_conn where
  "conn_new = \<lparr> xc_slot = \<lparr> sl_generation = 0, sl_exchange = None \<rparr>, xc_handshakes = 0 \<rparr>"

definition slot_store :: "nat \<Rightarrow> exchange_slot \<Rightarrow> exchange_slot" where
  "slot_store x slot = slot\<lparr> sl_generation := sl_generation slot + 1, sl_exchange := Some x \<rparr>"

definition acquire :: "io_error + nat \<Rightarrow> u64 option \<Rightarrow> exchange_conn \<Rightarrow> (io_error + held_exchange) \<times> exchange_conn" where
  "acquire connected stale conn =
     (let slot = xc_slot conn in
      case (if stale \<noteq> Some (sl_generation slot) then sl_exchange slot else None) of
        Some x \<Rightarrow> (Inr \<lparr> he_exchange = x, he_generation = sl_generation slot, he_fresh = False \<rparr>, conn)
      | None \<Rightarrow>
          let conn = conn\<lparr> xc_handshakes := xc_handshakes conn + 1 \<rparr>
          in (case connected of
                Inl err \<Rightarrow> (Inl err, conn)
              | Inr x \<Rightarrow>
                  let slot = slot_store x slot
                  in (Inr \<lparr> he_exchange = x, he_generation = sl_generation slot, he_fresh = True \<rparr>, conn\<lparr> xc_slot := slot \<rparr>)))"

definition invalidate_if_current :: "u64 \<Rightarrow> exchange_conn \<Rightarrow> exchange_conn" where
  "invalidate_if_current generation conn =
     (if sl_generation (xc_slot conn) = generation then conn\<lparr> xc_slot := (xc_slot conn)\<lparr> sl_exchange := None \<rparr> \<rparr> else conn)"

text \<open>What a query meets: two connects, two sends, and what others do meanwhile.\<close>

record exchange_env =
  xe_connect1 :: "io_error + nat"
  xe_send1 :: "nat \<Rightarrow> io_error + message"
  xe_meanwhile1 :: "exchange_conn \<Rightarrow> exchange_conn"
  xe_connect2 :: "io_error + nat"
  xe_send2 :: "nat \<Rightarrow> io_error + message"
  xe_meanwhile2 :: "exchange_conn \<Rightarrow> exchange_conn"

definition exchange_query :: "exchange_env \<Rightarrow> exchange_conn \<Rightarrow> (io_error + message) \<times> exchange_conn" where
  "exchange_query env conn =
     (case acquire (xe_connect1 env) None conn of
        (Inl err, conn) \<Rightarrow> (Inl err, conn)
      | (Inr held, conn) \<Rightarrow>
          let sent = xe_send1 env (he_exchange held); conn = xe_meanwhile1 env conn in
          (case sent of
             Inr response \<Rightarrow> (Inr response, conn)
           | Inl err \<Rightarrow>
               if he_fresh held \<or> err = TimedOut then (Inl err, invalidate_if_current (he_generation held) conn)
               else (case acquire (xe_connect2 env) (Some (he_generation held)) conn of
                  (Inl err, conn) \<Rightarrow> (Inl err, conn)
                | (Inr held, conn) \<Rightarrow>
                    let sent = xe_send2 env (he_exchange held); conn = xe_meanwhile2 env conn in
                    (case sent of
                       Inr response \<Rightarrow> (Inr response, conn)
                     | Inl err \<Rightarrow> (Inl err, invalidate_if_current (he_generation held) conn)))))"

text \<open>A live exchange that answers is used as it is: no handshake, no change of the slot.\<close>

lemma steady_state_no_handshake:
  assumes "sl_exchange (xc_slot conn) = Some x" "xe_send1 env x = Inr m" "xe_meanwhile1 env = (\<lambda>c. c)"
  shows "exchange_query env conn = (Inr m, conn)"
  using assms by (simp add: exchange_query_def acquire_def Let_def)

lemma acquire_cases:
  "acquire connected stale conn = (r, conn') \<Longrightarrow>
     (case r of
        Inl err \<Rightarrow> connected = Inl err \<and> xc_slot conn' = xc_slot conn \<and> xc_handshakes conn' = xc_handshakes conn + 1
      | Inr held \<Rightarrow> sl_exchange (xc_slot conn') = Some (he_exchange held) \<and> sl_generation (xc_slot conn') = he_generation held
          \<and> (if he_fresh held then connected = Inr (he_exchange held) \<and> xc_handshakes conn' = xc_handshakes conn + 1
                \<and> he_generation held = sl_generation (xc_slot conn) + 1
             else conn' = conn \<and> stale \<noteq> Some (he_generation held)))"
  by (auto simp: acquire_def slot_store_def Let_def split: option.splits sum.splits if_splits)

text \<open>An error drops an exchange only while it is the one that failed: a newer one stays.\<close>

lemma invalidate_keeps_newer:
  "sl_generation (xc_slot conn) \<noteq> generation \<Longrightarrow> invalidate_if_current generation conn = conn"
  "sl_generation (xc_slot (invalidate_if_current generation conn)) = sl_generation (xc_slot conn)"
  by (auto simp: invalidate_if_current_def)

text \<open>A query that nobody disturbs makes at most one handshake, whether it finds an exchange or not.\<close>

lemma exchange_query_handshakes:
  assumes "xe_meanwhile1 env = (\<lambda>c. c)" "xe_meanwhile2 env = (\<lambda>c. c)" "exchange_query env conn = (r, conn')"
  shows "xc_handshakes conn' \<in> {xc_handshakes conn, xc_handshakes conn + 1}"
  using assms by (cases "sl_exchange (xc_slot conn)")
    (auto simp: exchange_query_def acquire_def Let_def slot_store_def invalidate_if_current_def split: option.splits sum.splits if_splits)

end
