(* ===== verification/Throttle.thy ===== *)
theory Throttle
  imports Saturating
begin

text \<open>
  Rate-limited warnings: \<open>LogThrottle\<close> (\<open>fah-common/src/throttle.rs\<close>) and the alarm for a total upstream
  outage (\<open>fah-dns/src/upstream/alarm.rs\<close>). Both grant a warning when none was granted within an interval;
  the interface \<open>rate_limiter\<close> states that contract once. Times are milliseconds since the object was
  made. Exchanges another thread can win are explicit: the throttle retries with the values they
  return, the alarm gives up.
\<close>

section \<open>The contract\<close>

locale rate_limiter =
  fixes ask :: "'s \<Rightarrow> int \<Rightarrow> bool \<times> 's" and last_grant :: "'s \<Rightarrow> int option" and interval :: "'s \<Rightarrow> int" and in_range :: "int \<Rightarrow> bool"
  assumes ask_law: "in_range t \<Longrightarrow> (\<And>l. last_grant s = Some l \<Longrightarrow> l \<le> t) \<Longrightarrow> ask s t = (granted, s') \<Longrightarrow>
    interval s' = interval s
    \<and> (granted \<longleftrightarrow> (\<forall>l. last_grant s = Some l \<longrightarrow> interval s \<le> t - l))
    \<and> last_grant s' = (if granted then Some t else last_grant s)"
begin

fun grants :: "'s \<Rightarrow> int list \<Rightarrow> int list" where
  "grants s [] = []"
| "grants s (t # ts) = (let (granted, s') = ask s t in if granted then t # grants s' ts else grants s' ts)"

lemma grants_spaced:
  assumes "sorted ts" "\<And>t. t \<in> set ts \<Longrightarrow> in_range t" "\<And>l t. last_grant s = Some l \<Longrightarrow> t \<in> set ts \<Longrightarrow> l \<le> t"
  shows "sorted_wrt (\<lambda>a b. interval s \<le> b - a) (grants s ts)
    \<and> (\<forall>l t. last_grant s = Some l \<longrightarrow> t \<in> set (grants s ts) \<longrightarrow> interval s \<le> t - l) \<and> set (grants s ts) \<subseteq> set ts"
  using assms
proof (induction ts arbitrary: s)
  case (Cons t ts)
  obtain granted s' where a: "ask s t = (granted, s')" by (cases "ask s t")
  have law: "interval s' = interval s" "granted \<longleftrightarrow> (\<forall>l. last_grant s = Some l \<longrightarrow> interval s \<le> t - l)"
    "last_grant s' = (if granted then Some t else last_grant s)"
    using ask_law [OF _ _ a] Cons.prems by auto
  have "sorted_wrt (\<lambda>a b. interval s' \<le> b - a) (grants s' ts)
    \<and> (\<forall>l t. last_grant s' = Some l \<longrightarrow> t \<in> set (grants s' ts) \<longrightarrow> interval s' \<le> t - l) \<and> set (grants s' ts) \<subseteq> set ts"
    by (rule Cons.IH) (use Cons.prems law(3) in \<open>auto split: if_splits\<close>)
  then have IH: "sorted_wrt (\<lambda>a b. interval s \<le> b - a) (grants s' ts)" "set (grants s' ts) \<subseteq> set ts"
    "\<And>l t. last_grant s' = Some l \<Longrightarrow> t \<in> set (grants s' ts) \<Longrightarrow> interval s \<le> t - l" using law(1) by auto
  show ?case
  proof (cases granted)
    case True
    then have later: "\<And>x. x \<in> set (grants s' ts) \<Longrightarrow> interval s \<le> x - t" using IH(3) law(3) by simp
    have "interval s \<le> x - l" if "last_grant s = Some l" "x \<in> set (t # grants s' ts)" for l x
      using that later [of x] Cons.prems(3) [of l t] law(2) True by auto
    with True a IH(1,2) later show ?thesis by auto
  next
    case False
    with a IH law(3) show ?thesis by auto
  qed
qed simp

lemma first_granted: "in_range t \<Longrightarrow> last_grant s = None \<Longrightarrow> fst (ask s t)"
  using ask_law [of t s "fst (ask s t)" "snd (ask s t)"] by auto

lemma granted_after_interval: "in_range t \<Longrightarrow> last_grant s = Some l \<Longrightarrow> 0 \<le> interval s \<Longrightarrow> l + interval s \<le> t \<Longrightarrow> fst (ask s t)"
  using ask_law [of t s "fst (ask s t)" "snd (ask s t)"] by force

end

section \<open>The log throttle\<close>

record log_throttle =
  lt_last_millis :: u64
  lt_total :: u64
  lt_interval_millis :: u64

definition throttle_new :: "int \<Rightarrow> log_throttle" where
  "throttle_new interval_ms = \<lparr> lt_last_millis = 0, lt_total = 0, lt_interval_millis = word_or_max interval_ms \<rparr>"

definition throttle_stamp :: "int \<Rightarrow> u64" where
  "throttle_stamp now_ms = sat_add (word_or_max now_ms) 1"

fun note_loop :: "u64 \<Rightarrow> u64 \<Rightarrow> u64 \<Rightarrow> u64 list \<Rightarrow> bool" where
  "note_loop interval stamp latest currents =
     (if latest \<noteq> 0 \<and> sat_sub stamp latest < interval then False
      else (case currents of [] \<Rightarrow> True | current # currents \<Rightarrow> note_loop interval stamp current currents))"

declare note_loop.simps [simp del]

definition throttle_note :: "log_throttle \<Rightarrow> int \<Rightarrow> u64 list \<Rightarrow> u64 option \<times> log_throttle" where
  "throttle_note self now_ms currents =
     (let total = sat_add (lt_total self) 1;
          self = self\<lparr> lt_total := lt_total self + 1 \<rparr>;
          stamp = throttle_stamp now_ms
      in if note_loop (lt_interval_millis self) stamp (lt_last_millis self) currents
         then (Some total, self\<lparr> lt_last_millis := stamp \<rparr>) else (None, self))"

text \<open>Whatever other threads stamped, a granted note keeps its distance to the stamp it replaces.\<close>

lemma note_loop_spaced:
  "note_loop interval stamp latest currents \<Longrightarrow> w = last (latest # currents) \<Longrightarrow> w = 0 \<or> interval \<le> sat_sub stamp w"
  by (induction currents arbitrary: latest) (auto simp: note_loop.simps split: if_splits)

definition throttle_last :: "log_throttle \<Rightarrow> int option" where
  "throttle_last self = (if lt_last_millis self = 0 then None else Some (uint (lt_last_millis self) - 1))"

abbreviation clock_range :: "int \<Rightarrow> bool" where
  "clock_range t \<equiv> 0 \<le> t \<and> t < 2 ^ 64 - 1"

lemma uint_throttle_stamp: "clock_range t \<Longrightarrow> uint (throttle_stamp t) = t + 1"
  by (simp add: throttle_stamp_def uint_sat_add uint_word_or_max)

interpretation log: rate_limiter "\<lambda>s t. map_prod (\<lambda>w. w \<noteq> None) (\<lambda>s. s) (throttle_note s t [])" throttle_last
  "\<lambda>s. uint (lt_interval_millis s)" clock_range
proof unfold_locales
  fix t s granted s'
  assume t: "clock_range t" and mono: "\<And>l. throttle_last s = Some l \<Longrightarrow> l \<le> t"
    and n: "map_prod (\<lambda>w. w \<noteq> None) (\<lambda>s. s) (throttle_note s t []) = (granted, s')"
  have nz: "throttle_stamp t \<noteq> 0" using uint_throttle_stamp [OF t] t by auto
  have g: "note_loop (lt_interval_millis s) (throttle_stamp t) (lt_last_millis s) [] \<longleftrightarrow>
      (\<forall>l. throttle_last s = Some l \<longrightarrow> uint (lt_interval_millis s) \<le> t - l)"
    using mono uint_throttle_stamp [OF t]
    by (auto simp: note_loop.simps throttle_last_def word_less_def uint_sat_sub)
  show "uint (lt_interval_millis s') = uint (lt_interval_millis s)
    \<and> (granted \<longleftrightarrow> (\<forall>l. throttle_last s = Some l \<longrightarrow> uint (lt_interval_millis s) \<le> t - l))
    \<and> throttle_last s' = (if granted then Some t else throttle_last s)"
    using n nz uint_throttle_stamp [OF t] unfolding g [symmetric]
    by (auto simp: throttle_note_def Let_def throttle_last_def split: if_splits)
qed

section \<open>The outage alarm\<close>

definition WARN_INTERVAL_MS :: int where "WARN_INTERVAL_MS = 30000"

definition NEVER :: u64 where "NEVER = - 1"

record failure_alarm =
  fa_interval_ms :: u64
  fa_last_warn_ms :: u64
  fa_suppressed :: u64

definition alarm_ms :: "int \<Rightarrow> u64" where
  "alarm_ms millis = (if millis < 2 ^ 64 then word_of_int millis else NEVER - 1)"

definition alarm_new :: failure_alarm where
  "alarm_new = \<lparr> fa_interval_ms = alarm_ms WARN_INTERVAL_MS, fa_last_warn_ms = NEVER, fa_suppressed = 0 \<rparr>"

definition alarm_claim :: "failure_alarm \<Rightarrow> int \<Rightarrow> bool \<Rightarrow> u64 option \<times> failure_alarm" where
  "alarm_claim self now_ms exchanged =
     (let now = alarm_ms now_ms; last = fa_last_warn_ms self
      in if last \<noteq> NEVER \<and> sat_sub now last < fa_interval_ms self \<or> \<not> exchanged
         then (None, self\<lparr> fa_suppressed := fa_suppressed self + 1 \<rparr>)
         else (Some (fa_suppressed self), self\<lparr> fa_last_warn_ms := now, fa_suppressed := 0 \<rparr>))"

definition alarm_clear :: "failure_alarm \<Rightarrow> bool \<times> failure_alarm" where
  "alarm_clear self =
     (if fa_last_warn_ms self = NEVER then (False, self)
      else (True, self\<lparr> fa_suppressed := 0, fa_last_warn_ms := NEVER \<rparr>))"

definition alarm_last :: "failure_alarm \<Rightarrow> int option" where
  "alarm_last self = (if fa_last_warn_ms self = NEVER then None else Some (uint (fa_last_warn_ms self)))"

lemma uint_alarm_ms: "clock_range t \<Longrightarrow> uint (alarm_ms t) = t \<and> alarm_ms t \<noteq> NEVER"
proof -
  assume t: "clock_range t"
  then have "uint (alarm_ms t) = t" by (simp add: alarm_ms_def uint_word_of_int take_bit_int_eq_self)
  with t show ?thesis by (auto simp: NEVER_def uint_minus_1)
qed

interpretation alarm: rate_limiter "\<lambda>s t. map_prod (\<lambda>w. w \<noteq> None) (\<lambda>s. s) (alarm_claim s t True)" alarm_last
  "\<lambda>s. uint (fa_interval_ms s)" clock_range
proof unfold_locales
  fix t s granted s'
  assume t: "clock_range t" and mono: "\<And>l. alarm_last s = Some l \<Longrightarrow> l \<le> t"
    and n: "map_prod (\<lambda>w. w \<noteq> None) (\<lambda>s. s) (alarm_claim s t True) = (granted, s')"
  have g: "\<not> (fa_last_warn_ms s \<noteq> NEVER \<and> sat_sub (alarm_ms t) (fa_last_warn_ms s) < fa_interval_ms s) \<longleftrightarrow>
      (\<forall>l. alarm_last s = Some l \<longrightarrow> uint (fa_interval_ms s) \<le> t - l)"
    using mono uint_alarm_ms [OF t] by (auto simp: alarm_last_def word_less_def uint_sat_sub)
  show "uint (fa_interval_ms s') = uint (fa_interval_ms s)
    \<and> (granted \<longleftrightarrow> (\<forall>l. alarm_last s = Some l \<longrightarrow> uint (fa_interval_ms s) \<le> t - l))
    \<and> alarm_last s' = (if granted then Some t else alarm_last s)"
    using n uint_alarm_ms [OF t] unfolding g [symmetric]
    by (auto simp: alarm_claim_def Let_def alarm_last_def split: if_splits)
qed

text \<open>At the last millisecond of the range the clock reads as the sentinel.\<close>

lemma alarm_ms_sentinel: "alarm_ms (2 ^ 64 - 1) = NEVER"
  by (simp add: alarm_ms_def NEVER_def)

end
