(* ===== verification/Upstream.thy ===== *)
theory Upstream
  imports Transport Throttle
begin

text \<open>
  The upstream pool (\<open>fah-dns/src/upstream/mod.rs\<close>): endpoints with their health, the walk over them that
  answers one query, and the host lookup built on it.

  A walk reads and writes state it shares with other walks. What it cannot determine is its
  environment: clocks, whether an exchange for a probe succeeds, the outcome of every attempt, what
  other walks do to the pool while it waits, and the values failed exchanges return. The theorems hold
  for every environment.
\<close>

section \<open>The pool\<close>

record health =
  h_state :: u64
  h_attempts :: u64
  h_failures :: u64
  h_penalties :: u64
  h_probes :: u64
  h_probe_successes :: u64
  h_penalized_ms_total :: u64

definition health_new :: health where
  "health_new = \<lparr> h_state = 0, h_attempts = 0, h_failures = 0, h_penalties = 0, h_probes = 0, h_probe_successes = 0,
     h_penalized_ms_total = 0 \<rparr>"

record upstream_server =
  us_address :: string
  us_transport_kind :: transport_kind
  us_run_buckets :: "u64 list"
  us_rtt :: histogram

record upstream_pool =
  pl_servers :: "upstream_server list"
  pl_health :: "health list"
  pl_policy :: health_policy
  pl_alarm :: failure_alarm

definition RTT_BUCKETS :: nat where
  "RTT_BUCKETS = 11"

definition server_new :: "string \<Rightarrow> transport_kind \<Rightarrow> upstream_server" where
  "server_new address kind =
     \<lparr> us_address = address, us_transport_kind = kind, us_run_buckets = replicate 4 0, us_rtt = histogram_new RTT_BUCKETS \<rparr>"

text \<open>The servers are made from their configuration by code that calls the TLS and URL crates; the pool is
  built from them.\<close>

definition pool_new :: "upstream_server list \<Rightarrow> u32 \<Rightarrow> u32 \<Rightarrow> upstream_pool" where
  "pool_new servers timeout_ms penalty_failures =
     \<lparr> pl_servers = servers, pl_health = map (\<lambda>_. health_new) servers,
       pl_policy = from_timeout (ucast timeout_ms) (if penalty_failures < 256 then ucast penalty_failures else - 1),
       pl_alarm = alarm_new \<rparr>"

definition worst_case_walk :: "u32 \<Rightarrow> nat \<Rightarrow> int" where
  "worst_case_walk timeout_ms servers = uint timeout_ms * uint ATTEMPT_LEGS * min (int servers) (2 ^ 32 - 1)"

definition run_bucket :: "u64 \<Rightarrow> nat" where
  "run_bucket n = unat (min (max n 1) 4 - 1)"

section \<open>One attempt\<close>

datatype attempt = Finished "io_error + message" | Cancelled

record walk_round =
  wr_now :: u64
  wr_claims :: "nat \<Rightarrow> bool"
  wr_attempt :: "nat \<Rightarrow> attempt"
  wr_meanwhile :: "upstream_pool \<Rightarrow> upstream_pool"
  wr_nanos :: int
  wr_recorded_at :: u64
  wr_currents :: "u64 list"

definition pool_views :: "walk_round \<Rightarrow> upstream_pool \<Rightarrow> (u64 \<times> bool) list" where
  "pool_views e pool = map (\<lambda>(i, h). (h_state h, wr_claims e i)) (enumerate 0 (pl_health pool))"

definition set_health :: "nat \<Rightarrow> (health \<Rightarrow> health) \<Rightarrow> upstream_pool \<Rightarrow> upstream_pool" where
  "set_health i f pool = pool\<lparr> pl_health := (pl_health pool)[i := f (pl_health pool ! i)] \<rparr>"

definition set_server :: "nat \<Rightarrow> (upstream_server \<Rightarrow> upstream_server) \<Rightarrow> upstream_pool \<Rightarrow> upstream_pool" where
  "set_server i f pool = pool\<lparr> pl_servers := (pl_servers pool)[i := f (pl_servers pool ! i)] \<rparr>"

text \<open>The claim of a probe, made inside \<open>select\<close>.\<close>

definition claim_probe :: "nat \<Rightarrow> upstream_pool \<Rightarrow> upstream_pool" where
  "claim_probe i = set_health i (\<lambda>h. h\<lparr> h_state := probing_word (unpack (h_state h)) \<rparr>)"

definition count_attempt :: "nat \<Rightarrow> bool \<Rightarrow> upstream_pool \<Rightarrow> upstream_pool" where
  "count_attempt i is_probe = set_health i (\<lambda>h. h\<lparr> h_attempts := h_attempts h + 1, h_probes := (if is_probe then h_probes h + 1 else h_probes h) \<rparr>)"

definition drop_probe :: "nat \<Rightarrow> u64 \<Rightarrow> upstream_pool \<Rightarrow> upstream_pool" where
  "drop_probe i claimed = set_health i (\<lambda>h.
     case probe_rollback claimed (if h_state h = claimed then [] else [h_state h]) of
       Some restored \<Rightarrow> h\<lparr> h_state := restored \<rparr>
     | None \<Rightarrow> h)"

definition count_run :: "nat \<Rightarrow> u8 option \<Rightarrow> upstream_pool \<Rightarrow> upstream_pool" where
  "count_run i closed_run pool =
     (case closed_run of
        Some n \<Rightarrow> set_server i (\<lambda>s. s\<lparr> us_run_buckets := (us_run_buckets s)
            [run_bucket (ucast n) := us_run_buckets s ! run_bucket (ucast n) + 1] \<rparr>) pool
      | None \<Rightarrow> pool)"

definition count_penalty :: "nat \<Rightarrow> u64 option \<Rightarrow> upstream_pool \<Rightarrow> upstream_pool" where
  "count_penalty i penalty_applied pool =
     (case penalty_applied of
        Some penalized_ms \<Rightarrow> set_health i (\<lambda>h. h\<lparr> h_penalties := h_penalties h + 1,
            h_penalized_ms_total := h_penalized_ms_total h + penalized_ms \<rparr>) pool
      | None \<Rightarrow> pool)"

definition record_outcome :: "walk_round \<Rightarrow> nat \<Rightarrow> io_error + message \<Rightarrow> upstream_pool \<Rightarrow> upstream_pool" where
  "record_outcome e i result pool =
     (let outcome = classify (us_transport_kind (pl_servers pool ! i)) result;
          (transition, old) = health_record outcome (wr_recorded_at e) (pl_policy pool) (h_state (pl_health pool ! i)) (wr_currents e);
          pool = set_health i (\<lambda>h. h\<lparr> h_state := left_by transition old \<rparr>) pool
      in (case transition of
            NoChange \<Rightarrow> pool
          | Store _ closed_run penalty_applied \<Rightarrow> count_penalty i penalty_applied (count_run i closed_run pool)))"

text \<open>The bookkeeping before an attempt is made and after it has finished.\<close>

definition launched :: "bool \<Rightarrow> nat \<Rightarrow> bool \<Rightarrow> upstream_pool \<Rightarrow> upstream_pool" where
  "launched recording index is_probe pool =
     (let pool = (if is_probe then claim_probe index pool else pool)
      in if recording then count_attempt index is_probe pool else pool)"

definition settled ::
  "(int \<Rightarrow> nat \<Rightarrow> bool) \<Rightarrow> walk_round \<Rightarrow> bool \<Rightarrow> nat \<Rightarrow> bool \<Rightarrow> io_error + message \<Rightarrow> upstream_pool \<Rightarrow> upstream_pool" where
  "settled within e recording index is_probe result pool =
     (let pool = (if recording \<and> \<not> isl result
                  then set_server index (\<lambda>s. s\<lparr> us_rtt := observe within (wr_nanos e) (us_rtt s) \<rparr>) pool else pool);
          pool = (if recording then record_outcome e index result pool else pool)
      in (case result of
            Inr _ \<Rightarrow>
              let pool = (if recording \<and> is_probe
                          then set_health index (\<lambda>h. h\<lparr> h_probe_successes := h_probe_successes h + 1 \<rparr>) pool else pool)
              in pool\<lparr> pl_alarm := snd (alarm_clear (pl_alarm pool)) \<rparr>
          | Inl _ \<Rightarrow>
              if recording then set_health index (\<lambda>h. h\<lparr> h_failures := h_failures h + 1 \<rparr>) pool else pool))"

section \<open>The walk\<close>

datatype walk_result = WalkOk message u8 | WalkErr "io_error option" | WalkCancelled

text \<open>\<open>walk_adaptive\<close>, round by round. The fuel bounds the rounds, \<open>None\<close> is running out of it or a panic.
  The last component lists the endpoints tried and how they were selected.\<close>

fun walk_adaptive ::
  "nat \<Rightarrow> (int \<Rightarrow> nat \<Rightarrow> bool) \<Rightarrow> (nat \<Rightarrow> walk_round) \<Rightarrow> nat \<Rightarrow> bool \<Rightarrow> nat \<Rightarrow> bool \<Rightarrow> io_error option \<Rightarrow> upstream_pool \<Rightarrow>
     (walk_result \<times> upstream_pool \<times> (nat \<times> selected) list) option" where
  "walk_adaptive 0 within env k recording start probed last_err pool = None"
| "walk_adaptive (Suc fuel) within env k recording start probed last_err pool =
     (let e = env k in
      case select (pool_views e pool) start (wr_now e) (recording \<and> \<not> probed) of
        None \<Rightarrow> Some (WalkErr last_err, pool, [])
      | Some candidate \<Rightarrow>
          let index = unat (cd_id candidate);
              is_probe = (cd_selected candidate = SelProbe)
          in if length (pl_servers pool) \<le> index \<or> length (pl_health pool) \<le> index then None
          else let pool = launched recording index is_probe pool;
                   claimed = h_state (pl_health pool ! index);
                   pool = wr_meanwhile e pool
            in (case wr_attempt e index of
                  Cancelled \<Rightarrow>
                    Some (WalkCancelled, if is_probe then drop_probe index claimed pool else pool, [(index, cd_selected candidate)])
                | Finished result \<Rightarrow>
                    let pool = settled within e recording index is_probe result pool
                    in (case result of
                          Inr response \<Rightarrow> Some (WalkOk response (cd_id candidate), pool, [(index, cd_selected candidate)])
                        | Inl err \<Rightarrow>
                            map_option (\<lambda>(r, pool, tried). (r, pool, (index, cd_selected candidate) # tried))
                              (walk_adaptive fuel within env (k + 1) recording (index + 1) (probed \<or> is_probe) (Some err) pool))))"

text \<open>\<open>forward_with\<close>: the walk, and the alarm when every attempt failed. \<open>now\<close> is the alarm's clock and
  \<open>exchanged\<close> whether its exchange succeeds.\<close>

definition forward_with ::
  "nat \<Rightarrow> (int \<Rightarrow> nat \<Rightarrow> bool) \<Rightarrow> (nat \<Rightarrow> walk_round) \<Rightarrow> int \<Rightarrow> bool \<Rightarrow> health_mode \<Rightarrow> upstream_pool \<Rightarrow>
     ((io_error + (message \<times> u8)) option \<times> upstream_pool) option" where
  "forward_with fuel within env now exchanged mode pool =
     (case walk_adaptive fuel within env 0 (mode = Record) 0 False None pool of
        None \<Rightarrow> None
      | Some (WalkOk response endpoint, pool, _) \<Rightarrow> Some (Some (Inr (response, endpoint)), pool)
      | Some (WalkErr None, pool, _) \<Rightarrow> Some (Some (Inl NotFound), pool)
      | Some (WalkErr (Some err), pool, _) \<Rightarrow>
          Some (Some (Inl err), pool\<lparr> pl_alarm := snd (alarm_claim (pl_alarm pool) now exchanged) \<rparr>)
      | Some (WalkCancelled, pool, _) \<Rightarrow> Some (None, pool))"

section \<open>What every walk does\<close>

definition sized :: "nat \<Rightarrow> upstream_pool \<Rightarrow> bool" where
  "sized n pool \<longleftrightarrow> length (pl_servers pool) = n \<and> length (pl_health pool) = n"

definition keeps_size :: "(nat \<Rightarrow> walk_round) \<Rightarrow> bool" where
  "keeps_size env \<longleftrightarrow> (\<forall>k n pool. sized n pool \<longrightarrow> sized n (wr_meanwhile (env k) pool))"

lemma sized_updates [simp]:
  "sized n (set_health i f pool) = sized n pool" "sized n (set_server i g pool) = sized n pool"
  "sized n (claim_probe i pool) = sized n pool" "sized n (count_attempt i b pool) = sized n pool"
  "sized n (drop_probe i w pool) = sized n pool" "sized n (pool\<lparr> pl_alarm := a \<rparr>) = sized n pool"
  "sized n (count_run i r pool) = sized n pool" "sized n (count_penalty i p pool) = sized n pool"
  "sized n (record_outcome e i result pool) = sized n pool" "sized n (launched recording i b pool) = sized n pool"
  "sized n (settled within e recording i b result pool) = sized n pool"
  by (auto simp: sized_def set_health_def set_server_def claim_probe_def count_attempt_def drop_probe_def count_run_def
      count_penalty_def record_outcome_def launched_def settled_def Let_def split: sum.splits option.splits prod.splits transition.splits)

text \<open>The trace of a walk from round \<open>k\<close>: endpoints in strictly increasing order, all but the last failed, and the
  last attempt gives the result.\<close>

definition attempt_at :: "(nat \<Rightarrow> walk_round) \<Rightarrow> nat \<Rightarrow> (nat \<times> selected) list \<Rightarrow> nat \<Rightarrow> attempt" where
  "attempt_at env k tried i = wr_attempt (env (k + i)) (fst (tried ! i))"

definition walk_trace ::
  "(nat \<Rightarrow> walk_round) \<Rightarrow> nat \<Rightarrow> nat \<Rightarrow> nat \<Rightarrow> io_error option \<Rightarrow> walk_result \<Rightarrow> (nat \<times> selected) list \<Rightarrow> bool" where
  "walk_trace env k start n last_err r tried \<longleftrightarrow>
     sorted_wrt (<) (map fst tried) \<and> set (map fst tried) \<subseteq> {start..<n}
     \<and> (\<forall>i. Suc i < length tried \<longrightarrow> (\<exists>err. attempt_at env k tried i = Finished (Inl err)))
     \<and> (case r of
          WalkOk m eid \<Rightarrow> tried \<noteq> [] \<and> unat eid = fst (last tried) \<and> attempt_at env k tried (length tried - 1) = Finished (Inr m)
        | WalkErr err \<Rightarrow> if tried = [] then start = n \<and> err = last_err
            else \<exists>e. err = Some e \<and> attempt_at env k tried (length tried - 1) = Finished (Inl e)
        | WalkCancelled \<Rightarrow> tried \<noteq> [] \<and> attempt_at env k tried (length tried - 1) = Cancelled)"

lemma walk_trace_stop: "start = n \<Longrightarrow> walk_trace env k start n last_err (WalkErr last_err) []"
  by (simp add: walk_trace_def)

lemma walk_trace_last:
  assumes "start \<le> index" "index < n"
    "case r of WalkOk m eid \<Rightarrow> unat eid = index \<and> wr_attempt (env k) index = Finished (Inr m)
       | WalkErr err \<Rightarrow> False | WalkCancelled \<Rightarrow> wr_attempt (env k) index = Cancelled"
  shows "walk_trace env k start n last_err r [(index, how)]"
  using assms by (auto simp: walk_trace_def attempt_at_def split: walk_result.splits)

lemma attempt_at_Cons: "attempt_at env k (t # tried) (Suc i) = attempt_at env (Suc k) tried i"
  by (simp add: attempt_at_def)

lemma walk_trace_next:
  assumes "start \<le> index" "index < n" "wr_attempt (env k) index = Finished (Inl err)"
    "walk_trace env (Suc k) (Suc index) n (Some err) r tried"
  shows "walk_trace env k start n last_err r ((index, how) # tried)"
proof (cases tried)
  case Nil
  with assms show ?thesis by (auto simp: walk_trace_def attempt_at_def split: walk_result.splits)
next
  case (Cons t ts)
  have failed: "\<exists>err. attempt_at env k ((index, how) # tried) i = Finished (Inl err)" if "Suc i < length ((index, how) # tried)" for i
    using that assms(3,4) by (cases i) (auto simp: walk_trace_def attempt_at_Cons, simp add: attempt_at_def)
  have at_last: "attempt_at env k ((index, how) # tried) (length ((index, how) # tried) - 1) = attempt_at env (Suc k) tried (length tried - 1)"
    using Cons by (simp add: attempt_at_Cons)
  show ?thesis using assms(1,2,4) failed at_last Cons unfolding walk_trace_def by (auto split: walk_result.splits)
qed

declare walk_adaptive.simps(2) [simp del]

lemma length_pool_views: "length (pool_views e pool) = length (pl_health pool)"
  by (simp add: pool_views_def)

lemma nth_pool_views: "i < length (pl_health pool) \<Longrightarrow> pool_views e pool ! i = (h_state (pl_health pool ! i), wr_claims e i)"
  by (simp add: pool_views_def nth_enumerate_eq)

text \<open>What one round can do: stop, be cancelled, succeed, or fail and go on behind the endpoint it tried.\<close>

abbreviation waited :: "walk_round \<Rightarrow> bool \<Rightarrow> nat \<Rightarrow> selected \<Rightarrow> upstream_pool \<Rightarrow> upstream_pool" where
  "waited e recording index how pool \<equiv> wr_meanwhile e (launched recording index (how = SelProbe) pool)"

definition cancelled_pool :: "walk_round \<Rightarrow> bool \<Rightarrow> nat \<Rightarrow> selected \<Rightarrow> upstream_pool \<Rightarrow> upstream_pool" where
  "cancelled_pool e recording index how pool =
     (if how = SelProbe
      then drop_probe index (h_state (pl_health (launched recording index True pool) ! index)) (waited e recording index how pool)
      else waited e recording index how pool)"

lemma walk_adaptive_cases:
  assumes "sized n pool" "n \<le> 256" "start \<le> n"
    and w: "w = walk_adaptive (Suc fuel) within env k recording start probed last_err pool"
  obtains (stop) "start = n" "w = Some (WalkErr last_err, pool, [])"
  | (cancelled) index how where "chosen (pool_views (env k) pool) start (wr_now (env k)) (recording \<and> \<not> probed) index how"
      "start \<le> index" "index < n" "wr_attempt (env k) index = Cancelled"
      "w = Some (WalkCancelled, cancelled_pool (env k) recording index how pool, [(index, how)])"
  | (ok) index how m where "chosen (pool_views (env k) pool) start (wr_now (env k)) (recording \<and> \<not> probed) index how"
      "start \<le> index" "index < n" "wr_attempt (env k) index = Finished (Inr m)"
      "w = Some (WalkOk m (of_nat index),
         settled within (env k) recording index (how = SelProbe) (Inr m) (waited (env k) recording index how pool), [(index, how)])"
  | (failed) index how err where "chosen (pool_views (env k) pool) start (wr_now (env k)) (recording \<and> \<not> probed) index how"
      "start \<le> index" "index < n" "wr_attempt (env k) index = Finished (Inl err)"
      "w = map_option (\<lambda>(r, pool, tried). (r, pool, (index, how) # tried))
         (walk_adaptive fuel within env (Suc k) recording (Suc index) (probed \<or> how = SelProbe) (Some err)
           (settled within (env k) recording index (how = SelProbe) (Inl err) (waited (env k) recording index how pool)))"
proof (cases "select (pool_views (env k) pool) start (wr_now (env k)) (recording \<and> \<not> probed)")
  case None
  with select_chosen [of "pool_views (env k) pool" start "wr_now (env k)" "recording \<and> \<not> probed"] assms
  show ?thesis by (intro stop) (simp_all add: length_pool_views sized_def walk_adaptive.simps(2))
next
  case (Some c)
  with select_chosen [of "pool_views (env k) pool" start "wr_now (env k)" "recording \<and> \<not> probed"] assms
  have ch: "chosen (pool_views (env k) pool) start (wr_now (env k)) (recording \<and> \<not> probed) (unat (cd_id c)) (cd_selected c)"
    by (simp add: length_pool_views sized_def)
  then have index: "start \<le> unat (cd_id c)" "unat (cd_id c) < n"
    using assms(1) by (auto simp: chosen_def length_pool_views sized_def)
  consider "wr_attempt (env k) (unat (cd_id c)) = Cancelled" | m where "wr_attempt (env k) (unat (cd_id c)) = Finished (Inr m)"
    | err where "wr_attempt (env k) (unat (cd_id c)) = Finished (Inl err)"
    by (metis attempt.exhaust sum.exhaust)
  then show ?thesis
  proof cases
    case 1
    then show ?thesis using cancelled [OF ch index 1] Some index(2) assms(1) w
      by (simp add: walk_adaptive.simps(2) Let_def sized_def cancelled_pool_def)
  next
    case (2 m)
    then show ?thesis using ok [OF ch index 2] Some index(2) assms(1) w by (simp add: walk_adaptive.simps(2) Let_def sized_def)
  next
    case (3 err)
    then show ?thesis using failed [OF ch index 3] Some index(2) assms(1) w by (simp add: walk_adaptive.simps(2) Let_def sized_def)
  qed
qed

definition probes :: "(nat \<times> selected) list \<Rightarrow> nat" where
  "probes tried = length (filter (\<lambda>(_, how). how = SelProbe) tried)"

lemma chosen_probe: "chosen views start now_ms claim index SelProbe \<Longrightarrow> claim"
  by (auto simp: chosen_def ready_def)

lemma walk_adaptive_ok:
  assumes "keeps_size env" "n \<le> 256" "sized n pool" "start \<le> n" "n - start < fuel"
  shows "\<exists>r pool' tried. walk_adaptive fuel within env k recording start probed last_err pool = Some (r, pool', tried)
    \<and> sized n pool' \<and> walk_trace env k start n last_err r tried \<and> probes tried \<le> (if recording \<and> \<not> probed then 1 else 0)
    \<and> (tried = [] \<or> chosen (pool_views (env k) pool) start (wr_now (env k)) (recording \<and> \<not> probed) (fst (hd tried)) (snd (hd tried)))"
  using assms(3-5)
proof (induction fuel arbitrary: k start probed last_err pool)
  case (Suc fuel)
  have size: "sized n (waited (env k) recording index how pool)" for index how
    using assms(1) Suc.prems(1) by (simp add: keeps_size_def)
  have csize: "sized n (cancelled_pool (env k) recording index how pool)" for index how
    using size [of index how] by (cases "how = SelProbe") (simp_all add: cancelled_pool_def)
  have one: "probes [(index, how)] \<le> (if recording \<and> \<not> probed then 1 else 0)"
    if "chosen (pool_views (env k) pool) start (wr_now (env k)) (recording \<and> \<not> probed) index how" for index how
    using that by (auto simp: probes_def dest: chosen_probe)
  show ?case
  proof (cases rule: walk_adaptive_cases [OF Suc.prems(1) assms(2) Suc.prems(2) refl, of fuel within env k recording probed last_err, case_names stop cancelled ok failed])
    case stop
    then show ?thesis using Suc.prems(1) by (simp add: walk_trace_stop probes_def)
  next
    case (cancelled index how)
    then show ?thesis using csize [of index how] one
        walk_trace_last [OF cancelled(2,3), where r = WalkCancelled and env = env and k = k and last_err = last_err and how = how]
      by auto
  next
    case (ok index how m)
    moreover have "unat (of_nat index :: u8) = index" using ok(3) assms(2) by (simp add: unat_of_nat_small)
    ultimately show ?thesis using size one
        walk_trace_last [OF ok(2,3), where r = "WalkOk m (of_nat index)" and env = env and k = k and last_err = last_err and how = how]
      by auto
  next
    case (failed index how err)
    let ?pool3 = "settled within (env k) recording index (how = SelProbe) (Inl err) (waited (env k) recording index how pool)"
    have "sized n ?pool3" "Suc index \<le> n" "n - Suc index < fuel" using size failed(2,3) Suc.prems(2,3) by auto
    from Suc.IH [OF this, of "Suc k" "probed \<or> how = SelProbe" "Some err"] obtain r pool' tried where
      IH: "walk_adaptive fuel within env (Suc k) recording (Suc index) (probed \<or> how = SelProbe) (Some err) ?pool3 = Some (r, pool', tried)"
        "sized n pool'" "walk_trace env (Suc k) (Suc index) n (Some err) r tried"
        "probes tried \<le> (if recording \<and> \<not> (probed \<or> how = SelProbe) then 1 else 0)" by blast
    have "probes ((index, how) # tried) \<le> (if recording \<and> \<not> probed then 1 else 0)"
      using IH(4) one [OF failed(1)] by (auto simp: probes_def split: if_splits)
    then show ?thesis using failed(1,5) IH(1,2) walk_trace_next [OF failed(2,3,4) IH(3)] by auto
  qed
qed simp

text \<open>C14: Forwarding a query terminates: with at most 256 endpoints, whatever the network and other walks do, the walk
  makes at most one attempt per endpoint, in the configured order, and at most one of them probes. It
  starts at the first endpoint that is healthy or due for a probe, or when there is none at the one
  whose penalty ends first. A success is the reply of the endpoint it names, and everything before it
  failed; an error is the one of the last attempt; and there is an attempt unless there are no endpoints.\<close>

theorem forward_terminates:
  assumes env: "keeps_size env" and n: "sized n pool" "n \<le> 256"
  shows "\<exists>r pool' tried. walk_adaptive (Suc n) within env 0 recording 0 False None pool = Some (r, pool', tried)
    \<and> sized n pool' \<and> walk_trace env 0 0 n None r tried \<and> length tried \<le> n \<and> probes tried \<le> 1 \<and> (tried = [] \<longleftrightarrow> n = 0)
    \<and> (n = 0 \<or> chosen (pool_views (env 0) pool) 0 (wr_now (env 0)) recording (fst (hd tried)) (snd (hd tried)))"
proof -
  from walk_adaptive_ok [OF env n(2,1), of 0 "Suc n" within 0 recording False None] obtain r pool' tried where
    w: "walk_adaptive (Suc n) within env 0 recording 0 False None pool = Some (r, pool', tried)" "sized n pool'"
      "walk_trace env 0 0 n None r tried" "probes tried \<le> (if recording then 1 else 0)"
      "tried = [] \<or> chosen (pool_views (env 0) pool) 0 (wr_now (env 0)) recording (fst (hd tried)) (snd (hd tried))" by auto
  have "distinct (map fst tried)" "set (map fst tried) \<subseteq> {0..<n}"
    using w(3) by (auto simp: walk_trace_def strict_sorted_iff)
  then have "length tried \<le> n" using card_mono [of "{0..<n}" "set (map fst tried)"] distinct_card [of "map fst tried"] by simp
  moreover have "tried = [] \<longleftrightarrow> n = 0"
  proof
    assume "tried = []"
    with w(3) show "n = 0" by (auto simp: walk_trace_def split: walk_result.splits)
  next
    assume "n = 0"
    with \<open>length tried \<le> n\<close> show "tried = []" by simp
  qed
  ultimately show ?thesis using w by (auto split: if_splits)
qed

text \<open>An endpoint index is a byte. With one endpoint more the walk may try the last one for ever.\<close>

lemma walk_beyond_256:
  assumes "sized 257 pool" "\<And>k. wr_meanwhile (env k) = (\<lambda>p. p)" "\<And>k. wr_attempt (env k) 255 = Finished (Inl TimedOut)"
    "h_state (pl_health pool ! 256) = 0"
  shows "walk_adaptive fuel within env k False 256 False (Some TimedOut) pool = None"
proof (induction fuel arbitrary: k)
  case (Suc fuel)
  have "drop 256 (pool_views (env k) pool) = [(0, wr_claims (env k) 256)]"
    by (rule nth_equalityI) (use assms(1,4) in \<open>auto simp: sized_def length_pool_views nth_pool_views\<close>)
  then have "select (pool_views (env k) pool) 256 (wr_now (env k)) False = Some \<lparr> cd_id = 255, cd_selected = SelHealthy \<rparr>"
    by (simp add: select_def unpack_def Let_def STATE_MASK_def endpoint_id_def)
  with assms Suc.IH show ?case by (simp add: walk_adaptive.simps(2) Let_def sized_def launched_def settled_def)
qed simp

section \<open>Probes are resolved\<close>

abbreviation state_at :: "upstream_pool \<Rightarrow> nat \<Rightarrow> u64" where
  "state_at pool i \<equiv> h_state (pl_health pool ! i)"

lemma state_at_set_health: "i < length (pl_health pool) \<Longrightarrow>
    state_at (set_health j f pool) i = (if i = j then h_state (f (pl_health pool ! i)) else state_at pool i)"
  by (simp add: set_health_def)

lemma state_at_frame [simp]: "state_at (set_server j g pool) i = state_at pool i" "state_at (pool\<lparr> pl_alarm := a \<rparr>) i = state_at pool i"
  "state_at (count_run j r pool) i = state_at pool i"
  by (simp_all add: set_server_def count_run_def split: option.splits)

lemma state_at_counts:
  assumes "i < length (pl_health pool)"
  shows "state_at (count_attempt j b pool) i = state_at pool i" "state_at (count_penalty j p pool) i = state_at pool i"
    "state_at (set_health j (\<lambda>h. h\<lparr> h_failures := h_failures h + 1 \<rparr>) pool) i = state_at pool i"
    "state_at (set_health j (\<lambda>h. h\<lparr> h_probe_successes := h_probe_successes h + 1 \<rparr>) pool) i = state_at pool i"
  using assms by (simp_all add: count_attempt_def count_penalty_def state_at_set_health split: option.splits)

lemma record_outcome_settles:
  assumes "sized n pool" "j < n" "i < n"
  shows "if i = j then hw_state (unpack (state_at (record_outcome e j result pool) i)) \<noteq> Probing
    else state_at (record_outcome e j result pool) i = state_at pool i"
proof -
  obtain transition old where r: "health_record (classify (us_transport_kind (pl_servers pool ! j)) result) (wr_recorded_at e) (pl_policy pool)
      (h_state (pl_health pool ! j)) (wr_currents e) = (transition, old)" by (metis surj_pair)
  let ?pool = "set_health j (\<lambda>h. h\<lparr> h_state := left_by transition old \<rparr>) pool"
  have len: "i < length (pl_health ?pool)" "i < length (pl_health (count_run j c ?pool))" for c
    using assms sized_updates(1) [of n j _ pool] sized_updates(7) [of n j c ?pool] by (auto simp: sized_def)
  have "state_at (record_outcome e j result pool) i = state_at ?pool i"
    using r len by (auto simp: record_outcome_def Let_def state_at_counts split: transition.splits)
  moreover have "hw_state (unpack (left_by transition old)) \<noteq> Probing"
    using health_record_replaces [OF r] left_by_not_probing by simp
  ultimately show ?thesis using assms by (auto simp: state_at_set_health sized_def)
qed

lemma settled_probing:
  assumes "sized n pool" "j < n" "i < n"
    and probing: "hw_state (unpack (state_at (settled within e recording j b result pool) i)) = Probing"
  shows "state_at (settled within e recording j b result pool) i = state_at pool i \<and> \<not> (i = j \<and> recording)"
proof -
  let ?rtt = "if recording \<and> \<not> isl result then set_server j (\<lambda>s. s\<lparr> us_rtt := observe within (wr_nanos e) (us_rtt s) \<rparr>) pool else pool"
  let ?rec = "if recording then record_outcome e j result ?rtt else ?rtt"
  have size: "sized n ?rtt" "sized n ?rec" using assms(1) by auto
  have "state_at (settled within e recording j b result pool) i = state_at ?rec i"
    using assms(3) size by (auto simp: settled_def Let_def state_at_counts sized_def split: sum.splits)
  moreover have "if i = j \<and> recording then hw_state (unpack (state_at ?rec i)) \<noteq> Probing else state_at ?rec i = state_at pool i"
    using record_outcome_settles [OF size(1) assms(2,3), of e result] by auto
  ultimately show ?thesis using probing by metis
qed

lemma launched_state:
  assumes "sized n pool" "i < n" "i \<noteq> j \<or> \<not> b"
  shows "state_at (launched recording j b pool) i = state_at pool i"
  using assms by (cases "i = j") (auto simp: launched_def Let_def claim_probe_def sized_def set_health_def count_attempt_def)

lemma drop_probe_probing:
  assumes "sized n pool" "i < n" "hw_state (unpack (state_at (drop_probe j claimed pool) i)) = Probing"
  shows "state_at (drop_probe j claimed pool) i = state_at pool i \<and> (i = j \<longrightarrow> state_at pool i \<noteq> claimed)"
  using assms
  by (auto simp: drop_probe_def state_at_set_health sized_def probe_rollback_def rollback_loop_value Let_def unpack_pack split: option.splits if_splits)

section \<open>Walks that run at once\<close>

text \<open>Many queries are forwarded at once over one pool. Where one walk is: about to select, holding a probe it has
  just claimed, waiting for an endpoint with the word its guard has read, or over.\<close>

datatype walk_at =
    AtSelect bool nat bool
  | AtClaim nat
  | AtWait bool nat bool u64 bool
  | AtEnd

record walk_system =
  ws_pool :: upstream_pool
  ws_walks :: "walk_at list"

text \<open>One step of one walk, cut where the source awaits or reads a shared word. \<open>select\<close> reads the words one by
  one, so what it has seen of other endpoints may be out of date, but the word it claims is current:
  its exchange succeeded. A claim is followed by the load of \<open>ProbeGuard::new\<close>, before which others
  may still write; only a waiting walk can be dropped.\<close>

inductive walk_step :: "(int \<Rightarrow> nat \<Rightarrow> bool) \<Rightarrow> walk_system \<Rightarrow> walk_system \<Rightarrow> bool" for within where
  arrive: "walk_step within \<lparr> ws_pool = pool, ws_walks = ws \<rparr>
     \<lparr> ws_pool = pool, ws_walks = ws @ [AtSelect recording 0 False] \<rparr>"
| no_candidate: "w < length ws \<Longrightarrow> ws ! w = AtSelect recording start probed \<Longrightarrow>
     select views start now_ms (recording \<and> \<not> probed) = None \<Longrightarrow>
     walk_step within \<lparr> ws_pool = pool, ws_walks = ws \<rparr> \<lparr> ws_pool = pool, ws_walks = ws[w := AtEnd] \<rparr>"
| attempt: "w < length ws \<Longrightarrow> ws ! w = AtSelect recording start probed \<Longrightarrow>
     select views start now_ms (recording \<and> \<not> probed) = Some c \<Longrightarrow> cd_selected c \<noteq> SelProbe \<Longrightarrow>
     index = unat (cd_id c) \<Longrightarrow> index < length (pl_servers pool) \<Longrightarrow> index < length (pl_health pool) \<Longrightarrow>
     pool' = launched recording index False pool \<Longrightarrow>
     walk_step within \<lparr> ws_pool = pool, ws_walks = ws \<rparr>
       \<lparr> ws_pool = pool', ws_walks = ws[w := AtWait recording index False (state_at pool' index) probed] \<rparr>"
| claim: "w < length ws \<Longrightarrow> ws ! w = AtSelect recording start probed \<Longrightarrow>
     select views start now_ms (recording \<and> \<not> probed) = Some c \<Longrightarrow> cd_selected c = SelProbe \<Longrightarrow>
     index = unat (cd_id c) \<Longrightarrow> index < length (pl_servers pool) \<Longrightarrow> index < length (pl_health pool) \<Longrightarrow>
     fst (views ! index) = state_at pool index \<Longrightarrow>
     walk_step within \<lparr> ws_pool = pool, ws_walks = ws \<rparr>
       \<lparr> ws_pool = launched recording index True pool, ws_walks = ws[w := AtClaim index] \<rparr>"
| guard: "w < length ws \<Longrightarrow> ws ! w = AtClaim index \<Longrightarrow>
     walk_step within \<lparr> ws_pool = pool, ws_walks = ws \<rparr>
       \<lparr> ws_pool = pool, ws_walks = ws[w := AtWait True index True (state_at pool index) True] \<rparr>"
| answered: "w < length ws \<Longrightarrow> ws ! w = AtWait recording index is_probe claimed probed \<Longrightarrow>
     walk_step within \<lparr> ws_pool = pool, ws_walks = ws \<rparr>
       \<lparr> ws_pool = settled within e recording index is_probe (Inr response) pool, ws_walks = ws[w := AtEnd] \<rparr>"
| failed: "w < length ws \<Longrightarrow> ws ! w = AtWait recording index is_probe claimed probed \<Longrightarrow>
     walk_step within \<lparr> ws_pool = pool, ws_walks = ws \<rparr>
       \<lparr> ws_pool = settled within e recording index is_probe (Inl err) pool,
          ws_walks = ws[w := AtSelect recording (index + 1) (probed \<or> is_probe)] \<rparr>"
| dropped: "w < length ws \<Longrightarrow> ws ! w = AtWait recording index is_probe claimed probed \<Longrightarrow>
     walk_step within \<lparr> ws_pool = pool, ws_walks = ws \<rparr>
       \<lparr> ws_pool = (if is_probe then drop_probe index claimed pool else pool), ws_walks = ws[w := AtEnd] \<rparr>"

abbreviation walk_runs :: "(int \<Rightarrow> nat \<Rightarrow> bool) \<Rightarrow> walk_system \<Rightarrow> walk_system \<Rightarrow> bool" where
  "walk_runs within \<equiv> (walk_step within)\<^sup>*\<^sup>*"

text \<open>A walk that has the probe of an endpoint in hand, given the endpoint's word.\<close>

fun holds_probe :: "nat \<Rightarrow> u64 \<Rightarrow> walk_at \<Rightarrow> bool" where
  "holds_probe i word (AtClaim index) \<longleftrightarrow> index = i"
| "holds_probe i word (AtWait recording index is_probe claimed probed) \<longleftrightarrow>
     recording \<and> is_probe \<and> index = i \<and> claimed = word"
| "holds_probe i word _ \<longleftrightarrow> False"

fun well_placed :: "nat \<Rightarrow> walk_at \<Rightarrow> bool" where
  "well_placed n (AtClaim index) \<longleftrightarrow> index < n"
| "well_placed n (AtWait recording index is_probe claimed probed) \<longleftrightarrow> index < n \<and> (is_probe \<longrightarrow> recording)"
| "well_placed n _ \<longleftrightarrow> True"

text \<open>The invariant: the sizes agree, and every endpoint that is probing has a walk that holds its probe.\<close>

definition probes_held :: "nat \<Rightarrow> walk_system \<Rightarrow> bool" where
  "probes_held n s \<longleftrightarrow> sized n (ws_pool s) \<and> list_all (well_placed n) (ws_walks s) \<and>
     (\<forall>i<n. hw_state (unpack (state_at (ws_pool s) i)) = Probing \<longrightarrow>
        list_ex (holds_probe i (state_at (ws_pool s) i)) (ws_walks s))"

lemma holder_kept:
  assumes "list_ex P ws" "w < length ws" "P (ws ! w) \<Longrightarrow> P x"
  shows "list_ex P (ws[w := x])"
proof -
  obtain v where v: "v < length ws" "P (ws ! v)" using assms(1) by (auto simp: list_ex_length)
  then have "P (ws[w := x] ! v)" using assms(3) by (cases "v = w") auto
  with v show ?thesis by (auto simp: list_ex_length)
qed

lemma probes_held_update:
  assumes "probes_held n \<lparr> ws_pool = pool, ws_walks = ws \<rparr>" "sized n pool'" "w < length ws" "well_placed n x"
    and "\<And>i. i < n \<Longrightarrow> hw_state (unpack (state_at pool' i)) = Probing \<Longrightarrow> holds_probe i (state_at pool' i) x \<or>
       state_at pool' i = state_at pool i \<and> \<not> holds_probe i (state_at pool i) (ws ! w)"
  shows "probes_held n \<lparr> ws_pool = pool', ws_walks = ws[w := x] \<rparr>"
proof -
  have "list_ex (holds_probe i (state_at pool' i)) (ws[w := x])" if i: "i < n" "hw_state (unpack (state_at pool' i)) = Probing" for i
  proof (cases "holds_probe i (state_at pool' i) x")
    case True
    then show ?thesis using assms(3) by (auto simp: list_ex_length intro!: exI [of _ w])
  next
    case False
    with assms(5) [OF i] have same: "state_at pool' i = state_at pool i" "\<not> holds_probe i (state_at pool i) (ws ! w)" by auto
    then have "list_ex (holds_probe i (state_at pool i)) ws" using assms(1) i by (simp add: probes_held_def)
    from holder_kept [OF this assms(3)] same show ?thesis by simp
  qed
  moreover have "list_all (well_placed n) (ws[w := x])"
    using assms(1,4) by (auto simp: probes_held_def list_all_iff dest!: set_update_subset_insert [THEN subsetD])
  ultimately show ?thesis using assms(2) by (simp add: probes_held_def)
qed

lemma well_placed_at: "probes_held n \<lparr> ws_pool = pool, ws_walks = ws \<rparr> \<Longrightarrow> w < length ws \<Longrightarrow> well_placed n (ws ! w)"
  by (simp add: probes_held_def list_all_length)

lemma settled_held:
  assumes held: "probes_held n \<lparr> ws_pool = pool, ws_walks = ws \<rparr>" and w: "w < length ws"
    and at: "ws ! w = AtWait recording index is_probe claimed probed" and x: "well_placed n x"
  shows "probes_held n \<lparr> ws_pool = settled within e recording index is_probe result pool, ws_walks = ws[w := x] \<rparr>"
proof (rule probes_held_update [OF held _ w x])
  have size: "sized n pool" and index: "index < n"
    using well_placed_at [OF held w] held at by (auto simp: probes_held_def)
  show "sized n (settled within e recording index is_probe result pool)" using size by simp
  fix i assume i: "i < n" "hw_state (unpack (state_at (settled within e recording index is_probe result pool) i)) = Probing"
  from settled_probing [OF size index i]
  show "holds_probe i (state_at (settled within e recording index is_probe result pool) i) x \<or>
      state_at (settled within e recording index is_probe result pool) i = state_at pool i \<and> \<not> holds_probe i (state_at pool i) (ws ! w)"
    by (auto simp: at)
qed

lemma dropped_held:
  assumes held: "probes_held n \<lparr> ws_pool = pool, ws_walks = ws \<rparr>" and w: "w < length ws"
    and at: "ws ! w = AtWait recording index is_probe claimed probed"
  shows "probes_held n \<lparr> ws_pool = (if is_probe then drop_probe index claimed pool else pool), ws_walks = ws[w := AtEnd] \<rparr>"
    (is "probes_held n \<lparr> ws_pool = ?pool', ws_walks = _ \<rparr>")
proof (rule probes_held_update [OF held _ w])
  have size: "sized n pool" using held by (simp add: probes_held_def)
  show "sized n ?pool'" using size by simp
  fix i assume i: "i < n" "hw_state (unpack (state_at ?pool' i)) = Probing"
  show "holds_probe i (state_at ?pool' i) AtEnd \<or> state_at ?pool' i = state_at pool i \<and> \<not> holds_probe i (state_at pool i) (ws ! w)"
    using drop_probe_probing [OF size i(1), of index claimed] i(2) by (cases is_probe) (auto simp: at)
qed simp

lemma walk_step_held:
  assumes "walk_step within s s'" "probes_held n s"
  shows "probes_held n s'"
  using assms
proof (cases rule: walk_step.cases)
  case (arrive pool ws recording)
  then show ?thesis using assms(2) by (auto simp: probes_held_def)
next
  case (no_candidate w ws recording start probed views now_ms pool)
  then have "sized n pool" using assms(2) by (simp add: probes_held_def)
  then show ?thesis using no_candidate assms(2) by (auto intro!: probes_held_update)
next
  case (attempt w ws recording start probed views now_ms c index pool pool')
  then have "sized n pool" "index < n" using assms(2) by (auto simp: probes_held_def sized_def)
  then show ?thesis using attempt assms(2) launched_state [of n pool _ index False recording]
    by (auto intro!: probes_held_update)
next
  case (claim w ws recording start probed views now_ms c index pool)
  then have "sized n pool" "index < n" using assms(2) by (auto simp: probes_held_def sized_def)
  then show ?thesis using claim assms(2) launched_state [of n pool _ index True recording]
    by (auto intro!: probes_held_update)
next
  case (guard w ws index pool)
  then have "index < n" "sized n pool" using well_placed_at [of n pool ws w] assms(2) by (auto simp: probes_held_def)
  then show ?thesis using guard assms(2) by (auto intro!: probes_held_update)
next
  case (answered w ws recording index is_probe claimed probed pool e response)
  then show ?thesis using assms(2) by (auto intro!: settled_held)
next
  case (failed w ws recording index is_probe claimed probed pool e err)
  then show ?thesis using assms(2) by (auto intro!: settled_held)
next
  case (dropped w ws recording index is_probe claimed probed pool)
  then show ?thesis using assms(2) dropped_held by simp
qed

lemma walk_runs_held: "walk_runs within s s' \<Longrightarrow> probes_held n s \<Longrightarrow> probes_held n s'"
  by (induction rule: rtranclp_induct) (auto intro: walk_step_held)

lemma pool_new_held: "probes_held (length servers) \<lparr> ws_pool = pool_new servers timeout_ms penalty_failures, ws_walks = [] \<rparr>"
  by (simp add: probes_held_def sized_def pool_new_def health_new_def unpack_def Let_def STATE_MASK_def)

lemma two_steps: "walk_step within a b \<Longrightarrow> walk_step within b c \<Longrightarrow> walk_runs within a c"
  by (rule converse_rtranclp_into_rtranclp) auto

text \<open>A walk can always be brought to rest, by dropping it if need be.\<close>

fun at_rest :: "walk_at \<Rightarrow> bool" where
  "at_rest (AtClaim index) \<longleftrightarrow> False"
| "at_rest (AtWait recording index is_probe claimed probed) \<longleftrightarrow> False"
| "at_rest _ \<longleftrightarrow> True"

lemma rest_holds_nothing: "at_rest a \<Longrightarrow> \<not> holds_probe i word a"
  by (cases a) auto

lemma one_to_rest:
  assumes "w < length ws"
  shows "\<exists>pool' a. walk_runs within \<lparr> ws_pool = pool, ws_walks = ws \<rparr> \<lparr> ws_pool = pool', ws_walks = ws[w := a] \<rparr> \<and> at_rest a"
proof (cases "ws ! w")
  case (AtClaim index)
  let ?ws = "ws[w := AtWait True index True (state_at pool index) True]"
  have "walk_step within \<lparr> ws_pool = pool, ws_walks = ws \<rparr> \<lparr> ws_pool = pool, ws_walks = ?ws \<rparr>"
    using assms AtClaim by (rule guard)
  moreover have "walk_step within \<lparr> ws_pool = pool, ws_walks = ?ws \<rparr>
      \<lparr> ws_pool = drop_probe index (state_at pool index) pool, ws_walks = ?ws[w := AtEnd] \<rparr>"
    using dropped [of w ?ws True index True "state_at pool index" True within pool] assms by simp
  ultimately have "walk_runs within \<lparr> ws_pool = pool, ws_walks = ws \<rparr>
      \<lparr> ws_pool = drop_probe index (state_at pool index) pool, ws_walks = ?ws[w := AtEnd] \<rparr>" by (rule two_steps)
  then show ?thesis by (intro exI [of _ "drop_probe index (state_at pool index) pool"] exI [of _ AtEnd]) simp
next
  case (AtWait recording index is_probe claimed probed)
  from dropped [OF assms this, of within pool] show ?thesis by (intro exI conjI [of "walk_runs _ _ _"]) auto
qed (metis at_rest.simps(3,4) list_update_id rtranclp.rtrancl_refl)+

lemma all_to_rest:
  "k \<le> length ws \<Longrightarrow> \<exists>pool' ws'. walk_runs within \<lparr> ws_pool = pool, ws_walks = ws \<rparr> \<lparr> ws_pool = pool', ws_walks = ws' \<rparr>
     \<and> length ws' = length ws \<and> (\<forall>w<k. at_rest (ws' ! w))"
proof (induction k)
  case (Suc k)
  then obtain pool1 ws1 where r1: "walk_runs within \<lparr> ws_pool = pool, ws_walks = ws \<rparr> \<lparr> ws_pool = pool1, ws_walks = ws1 \<rparr>"
    "length ws1 = length ws" "\<forall>w<k. at_rest (ws1 ! w)" by auto
  from one_to_rest [of k ws1 within pool1] r1(2) Suc.prems obtain pool2 a where
    r2: "walk_runs within \<lparr> ws_pool = pool1, ws_walks = ws1 \<rparr> \<lparr> ws_pool = pool2, ws_walks = ws1[k := a] \<rparr>" "at_rest a" by auto
  have "walk_runs within \<lparr> ws_pool = pool, ws_walks = ws \<rparr> \<lparr> ws_pool = pool2, ws_walks = ws1[k := a] \<rparr>"
    using r1(1) r2(1) by (rule rtranclp_trans)
  moreover have "\<forall>w<Suc k. at_rest (ws1[k := a] ! w)" using r1(2,3) r2(2) Suc.prems by (auto simp: nth_list_update less_Suc_eq)
  ultimately show ?case using r1(2) by (intro exI [of _ pool2] exI [of _ "ws1[k := a]"]) simp
qed auto

lemma none_probing:
  assumes "probes_held n \<lparr> ws_pool = pool, ws_walks = ws \<rparr>" "list_all at_rest ws" "i < n"
  shows "hw_state (unpack (state_at pool i)) \<noteq> Probing"
  using assms rest_holds_nothing by (fastforce simp: probes_held_def list_ex_iff list_all_iff)


text \<open>\<open>walk_adaptive\<close> is one walk of the system: if what happens while it waits is steps of others, a whole
  walk is a run that takes it from its first selection to its end.\<close>

lemma select_probe: "select views start now_ms claim = Some c \<Longrightarrow> cd_selected c = SelProbe \<Longrightarrow> claim"
proof -
  have "select_from vs i now_ms claim forced = Some c \<Longrightarrow> cd_selected c = SelProbe \<Longrightarrow> claim" for vs i forced
    by (induction vs i now_ms claim forced rule: select_from.induct) (auto simp: Let_def split: if_splits)
  then show "select views start now_ms claim = Some c \<Longrightarrow> cd_selected c = SelProbe \<Longrightarrow> claim" by (auto simp: select_def)
qed

lemma launch_runs:
  assumes w: "w < length ws" "ws ! w = AtSelect recording start probed"
    and c: "select (pool_views e pool) start (wr_now e) (recording \<and> \<not> probed) = Some c"
    and index: "index = unat (cd_id c)" "index < length (pl_servers pool)" "index < length (pl_health pool)"
    and p: "p \<longleftrightarrow> cd_selected c = SelProbe"
  shows "\<exists>ws'. walk_runs within \<lparr> ws_pool = pool, ws_walks = ws \<rparr> \<lparr> ws_pool = launched recording index p pool, ws_walks = ws' \<rparr>
    \<and> w < length ws' \<and> ws' ! w = AtWait recording index p (state_at (launched recording index p pool) index) (probed \<or> p)"
proof (cases p)
  case False
  then have "cd_selected c \<noteq> SelProbe" using p by simp
  from attempt [OF w c this index refl, of within] False w(1) show ?thesis
    by (intro exI conjI [of "walk_runs _ _ _"]) (auto intro: r_into_rtranclp)
next
  case True
  then have probe: "cd_selected c = SelProbe" using p by simp
  then have rec: "recording" using select_probe [OF c] by simp
  let ?pool = "launched recording index True pool"
  let ?ws = "ws[w := AtClaim index]"
  have "walk_step within \<lparr> ws_pool = pool, ws_walks = ws \<rparr> \<lparr> ws_pool = ?pool, ws_walks = ?ws \<rparr>"
    by (rule claim [OF w c probe index]) (simp add: nth_pool_views [OF index(3)])
  moreover have "walk_step within \<lparr> ws_pool = ?pool, ws_walks = ?ws \<rparr>
      \<lparr> ws_pool = ?pool, ws_walks = ?ws[w := AtWait True index True (state_at ?pool index) True] \<rparr>"
    by (rule guard) (use w(1) in simp_all)
  ultimately have "walk_runs within \<lparr> ws_pool = pool, ws_walks = ws \<rparr>
      \<lparr> ws_pool = ?pool, ws_walks = ?ws[w := AtWait True index True (state_at ?pool index) True] \<rparr>" by (rule two_steps)
  then show ?thesis using True rec w(1)
    by (intro exI [of _ "?ws[w := AtWait True index True (state_at ?pool index) True]"]) simp
qed

lemma walk_adaptive_runs:
  assumes others: "\<And>k pool ws. w < length ws \<Longrightarrow> \<exists>ws'. w < length ws' \<and> ws' ! w = ws ! w \<and>
      walk_runs within \<lparr> ws_pool = pool, ws_walks = ws \<rparr> \<lparr> ws_pool = wr_meanwhile (env k) pool, ws_walks = ws' \<rparr>"
  shows "walk_adaptive fuel within env k recording start probed last_err pool = Some (r, pool', tried) \<Longrightarrow>
    w < length ws \<Longrightarrow> ws ! w = AtSelect recording start probed \<Longrightarrow>
    \<exists>ws'. walk_runs within \<lparr> ws_pool = pool, ws_walks = ws \<rparr> \<lparr> ws_pool = pool', ws_walks = ws' \<rparr>
      \<and> w < length ws' \<and> ws' ! w = AtEnd"
proof (induction fuel arbitrary: k start probed last_err pool tried ws)
  case (Suc fuel)
  let ?e = "env k"
  show ?case
  proof (cases "select (pool_views ?e pool) start (wr_now ?e) (recording \<and> \<not> probed)")
    case None
    from no_candidate [OF Suc.prems(2,3) None, of within pool] Suc.prems None show ?thesis
      by (intro exI [of _ "ws[w := AtEnd]"]) (auto simp: walk_adaptive.simps(2))
  next
    case (Some c)
    define index p where "index = unat (cd_id c)" and "p \<longleftrightarrow> cd_selected c = SelProbe"
    let ?pool1 = "launched recording index p pool"
    let ?pool2 = "wr_meanwhile ?e ?pool1"
    have index: "index < length (pl_servers pool)" "index < length (pl_health pool)"
      using Suc.prems(1) Some by (auto simp: walk_adaptive.simps(2) index_def Let_def split: if_splits)
    from launch_runs [OF Suc.prems(2,3) Some index_def index p_def] obtain ws1 where
      r1: "walk_runs within \<lparr> ws_pool = pool, ws_walks = ws \<rparr> \<lparr> ws_pool = ?pool1, ws_walks = ws1 \<rparr>" "w < length ws1"
        "ws1 ! w = AtWait recording index p (state_at ?pool1 index) (probed \<or> p)" by blast
    from others [OF r1(2), of ?pool1 k] obtain ws2 where
      r2: "w < length ws2" "ws2 ! w = AtWait recording index p (state_at ?pool1 index) (probed \<or> p)"
        "walk_runs within \<lparr> ws_pool = ?pool1, ws_walks = ws1 \<rparr> \<lparr> ws_pool = ?pool2, ws_walks = ws2 \<rparr>" using r1(3) by auto
    from r1(1) r2(3) have r12: "walk_runs within \<lparr> ws_pool = pool, ws_walks = ws \<rparr> \<lparr> ws_pool = ?pool2, ws_walks = ws2 \<rparr>"
      by (rule rtranclp_trans)
    note body = Suc.prems(1) [unfolded walk_adaptive.simps(2) Let_def Some option.case index_def [symmetric] p_def [symmetric]]
    consider (cancelled) "wr_attempt ?e index = Cancelled" | (ok) m where "wr_attempt ?e index = Finished (Inr m)"
      | (failed) err where "wr_attempt ?e index = Finished (Inl err)" by (metis attempt.exhaust sum.exhaust)
    then show ?thesis
    proof cases
      case cancelled
      then have "pool' = (if p then drop_probe index (state_at ?pool1 index) ?pool2 else ?pool2)" using body index by auto
      with rtranclp.rtrancl_into_rtrancl [OF r12 dropped [OF r2(1,2)]] r2(1) show ?thesis
        by (intro exI [of _ "ws2[w := AtEnd]"]) simp
    next
      case (ok m)
      then have "pool' = settled within ?e recording index p (Inr m) ?pool2" using body index by auto
      with rtranclp.rtrancl_into_rtrancl [OF r12 answered [OF r2(1,2), of within ?pool2 ?e m]] r2(1) show ?thesis
        by (intro exI [of _ "ws2[w := AtEnd]"]) simp
    next
      case (failed err)
      let ?pool3 = "settled within ?e recording index p (Inl err) ?pool2"
      let ?ws3 = "ws2[w := AtSelect recording (index + 1) (probed \<or> p)]"
      from rtranclp.rtrancl_into_rtrancl [OF r12 walk_step.failed [OF r2(1,2), of within ?pool2 ?e err]]
      have r3: "walk_runs within \<lparr> ws_pool = pool, ws_walks = ws \<rparr> \<lparr> ws_pool = ?pool3, ws_walks = ?ws3 \<rparr>" by simp
      obtain tried' where "walk_adaptive fuel within env (k + 1) recording (index + 1) (probed \<or> p) (Some err) ?pool3 = Some (r, pool', tried')"
        using body index failed by (auto simp: p_def)
      from Suc.IH [OF this, of ?ws3] r2(1) obtain ws' where
        "walk_runs within \<lparr> ws_pool = ?pool3, ws_walks = ?ws3 \<rparr> \<lparr> ws_pool = pool', ws_walks = ws' \<rparr>" "w < length ws'" "ws' ! w = AtEnd"
        by auto
      with r3 show ?thesis by (meson rtranclp_trans)
    qed
  qed
qed simp

section \<open>A pool of two\<close>

definition sample_round :: "(nat \<Rightarrow> attempt) \<Rightarrow> walk_round" where
  "sample_round attempts = \<lparr> wr_now = 1000, wr_claims = (\<lambda>_. True), wr_attempt = attempts, wr_meanwhile = (\<lambda>pool. pool),
     wr_nanos = 20000000, wr_recorded_at = 1020, wr_currents = [] \<rparr>"

definition sample_pool :: "u64 \<Rightarrow> u64 \<Rightarrow> upstream_pool" where
  "sample_pool first second =
     (let pool = pool_new [server_new ''1.1.1.1'' Plain, server_new ''9.9.9.9'' Plain] 800 2
      in pool\<lparr> pl_health := [health_new\<lparr> h_state := first \<rparr>, health_new\<lparr> h_state := second \<rparr>] \<rparr>)"

definition backup_answers :: "nat \<Rightarrow> attempt" where
  "backup_answers i = (if i = 0 then Finished (Inl TimedOut) else Finished (Inr sample_query))"

lemma sample_walk: "sized 2 (sample_pool first second)" "keeps_size (\<lambda>_. sample_round attempts)"
  by (simp_all add: sized_def sample_pool_def pool_new_def Let_def keeps_size_def sample_round_def)

theorem forward_terminates_witness:
  "\<exists>r pool' tried. walk_adaptive 3 (\<lambda>_ _. False) (\<lambda>_. sample_round backup_answers) 0 True 0 False None (sample_pool 0 0) = Some (r, pool', tried)
     \<and> tried \<noteq> [] \<and> length tried \<le> 2 \<and> probes tried \<le> 1"
  using forward_terminates [OF sample_walk(2,1), of "\<lambda>_ _. False" backup_answers True 0 0] by (force simp: numeral_3_eq_3)

text \<open>A run in which the only endpoint is penalized by one walk and then probed by another.\<close>

definition one_server :: "upstream_server list" where
  "one_server = [server_new ''1.1.1.1'' Plain]"

definition failed_pool :: upstream_pool where
  "failed_pool = settled (\<lambda>_ _. False) (sample_round backup_answers) True 0 False (Inl TimedOut)
     (launched True 0 False (pool_new one_server 800 1))"

lemma probing_run:
  "walk_runs (\<lambda>_ _. False) \<lparr> ws_pool = pool_new one_server 800 1, ws_walks = [] \<rparr>
     \<lparr> ws_pool = launched True 0 True failed_pool, ws_walks = [AtSelect True 1 False, AtClaim 0] \<rparr>"
proof -
  let ?p0 = "pool_new one_server 800 1" and ?in = "\<lambda>_ _. False"
  let ?p1 = "launched True 0 False ?p0"
  let ?views = "\<lambda>pool. pool_views (sample_round backup_answers) pool"
  have s1: "walk_step ?in \<lparr> ws_pool = ?p0, ws_walks = [] \<rparr> \<lparr> ws_pool = ?p0, ws_walks = [AtSelect True 0 False] \<rparr>"
    using arrive [of ?in ?p0 "[]" True] by simp
  have "select (?views ?p0) 0 0 True = Some \<lparr> cd_id = 0, cd_selected = SelHealthy \<rparr>"
    "length (pl_servers ?p0) = 1" "length (pl_health ?p0) = 1" by code_simp+
  then have s2: "walk_step ?in \<lparr> ws_pool = ?p0, ws_walks = [AtSelect True 0 False] \<rparr>
      \<lparr> ws_pool = ?p1, ws_walks = [AtWait True 0 False (state_at ?p1 0) False] \<rparr>"
    using attempt [of 0 "[AtSelect True 0 False]" True 0 False "?views ?p0" 0 _ 0 ?p0 ?p1 ?in] by simp
  have s3: "walk_step ?in \<lparr> ws_pool = ?p1, ws_walks = [AtWait True 0 False (state_at ?p1 0) False] \<rparr>
      \<lparr> ws_pool = failed_pool, ws_walks = [AtSelect True 1 False] \<rparr>"
    unfolding failed_pool_def
    using walk_step.failed [of 0 "[AtWait True 0 False (state_at ?p1 0) False]" True 0 False _ False ?in ?p1] by simp
  have s4: "walk_step ?in \<lparr> ws_pool = failed_pool, ws_walks = [AtSelect True 1 False] \<rparr>
      \<lparr> ws_pool = failed_pool, ws_walks = [AtSelect True 1 False, AtSelect True 0 False] \<rparr>"
    using arrive [of ?in failed_pool "[AtSelect True 1 False]" True] by simp
  have "select (?views failed_pool) 0 1000000 True = Some \<lparr> cd_id = 0, cd_selected = SelProbe \<rparr>"
    "length (pl_servers failed_pool) = 1" "length (pl_health failed_pool) = 1" by code_simp+
  then have s5: "walk_step ?in \<lparr> ws_pool = failed_pool, ws_walks = [AtSelect True 1 False, AtSelect True 0 False] \<rparr>
      \<lparr> ws_pool = launched True 0 True failed_pool, ws_walks = [AtSelect True 1 False, AtClaim 0] \<rparr>"
    using claim [of 1 "[AtSelect True 1 False, AtSelect True 0 False]" True 0 False "?views failed_pool" 1000000 _ 0 failed_pool ?in]
    by (simp add: nth_pool_views)
  from s1 s2 s3 s4 s5 show ?thesis by (meson converse_rtranclp_into_rtranclp rtranclp.rtrancl_refl)
qed


text \<open>When every endpoint is penalized and the last one's penalty ends first, only that one is tried: the walk
  fails although the first would have answered.\<close>

lemma forced_walk_skips:
  "map_option (\<lambda>(r, _, tried). (r, tried)) (walk_adaptive 3 (\<lambda>_ _. False)
      (\<lambda>_. sample_round (\<lambda>i. if i = 0 then Finished (Inr sample_query) else Finished (Inl TimedOut))) 0 True 0 False None
      (sample_pool (pack Penalized 1 2 5000) (pack Penalized 1 2 4000)))
   = Some (WalkErr (Some TimedOut), [(1, SelForced)])"
  by code_simp

section \<open>Addresses of upstreams and of hosts\<close>

datatype socket_addr = SocketAddr ip_addr u16

definition read_port :: "string \<Rightarrow> (int \<times> string) option" where
  "read_port s = read_number 10 (length s) True 65535 s"

definition read_socket_addr_v4 :: "string \<Rightarrow> (socket_addr \<times> string) option" where
  "read_socket_addr_v4 s = do {
     (os, s) \<leftarrow> read_ipv4_addr s;
     s \<leftarrow> read_given_char (CHR '':'') s;
     (port, s) \<leftarrow> read_port s;
     Some (SocketAddr (V4 (ipv4_of_octets os)) (of_int port), s)
   }"

definition read_scope_id :: "string \<Rightarrow> string" where
  "read_scope_id s =
     (case read_given_char (CHR ''%'') s of
        None \<Rightarrow> s
      | Some r \<Rightarrow> (case read_number 10 (length r) True (2 ^ 32 - 1) r of Some (_, r) \<Rightarrow> r | None \<Rightarrow> s))"

definition read_socket_addr_v6 :: "string \<Rightarrow> (socket_addr \<times> string) option" where
  "read_socket_addr_v6 s = do {
     s \<leftarrow> read_given_char (CHR ''['') s;
     (gs, s) \<leftarrow> read_ipv6_addr s;
     s \<leftarrow> read_given_char (CHR '']'') (read_scope_id s);
     s \<leftarrow> read_given_char (CHR '':'') s;
     (port, s) \<leftarrow> read_port s;
     Some (SocketAddr (V6 (ipv6_of_segments gs)) (of_int port), s)
   }"

definition parse_socket_addr :: "string \<Rightarrow> socket_addr option" where
  "parse_socket_addr s =
     (case (case read_socket_addr_v4 s of Some r \<Rightarrow> Some r | None \<Rightarrow> read_socket_addr_v6 s) of
        Some (addr, r) \<Rightarrow> if r = [] then Some addr else None
      | None \<Rightarrow> None)"

definition socket_addr_of :: "string \<Rightarrow> u16 \<Rightarrow> io_error + socket_addr" where
  "socket_addr_of address default_port =
     (case parse_socket_addr address of
        Some addr \<Rightarrow> Inr addr
      | None \<Rightarrow> (case parse_ip_addr address of Some ip \<Rightarrow> Inr (SocketAddr ip default_port) | None \<Rightarrow> Inl InvalidInput))"

lemma socket_addr_examples:
  "socket_addr_of ''9.9.9.9'' 53 = Inr (SocketAddr (V4 0x09090909) 53)"
  "socket_addr_of ''9.9.9.9:5353'' 53 = Inr (SocketAddr (V4 0x09090909) 5353)"
  "socket_addr_of ''[::1]:853'' 53 = Inr (SocketAddr (V6 1) 853)"
  "socket_addr_of ''dns.example'' 53 = Inl InvalidInput"
  by code_simp+

text \<open>\<open>resolve_host\<close>: the addresses of both families, the v4 ones first. Each lookup is a forward that
  neither records health nor probes.\<close>

definition rr_address :: "rr \<Rightarrow> ip_addr option" where
  "rr_address r = (case rr_data r of RData_A a \<Rightarrow> Some (V4 a) | RData_AAAA a \<Rightarrow> Some (V6 a) | _ \<Rightarrow> None)"

definition lookup_addresses :: "io_error + (message \<times> u8) \<Rightarrow> io_error + ip_addr list" where
  "lookup_addresses forwarded =
     (case forwarded of Inl err \<Rightarrow> Inl err | Inr (response, _) \<Rightarrow> Inr (List.map_filter rr_address (msg_answers response)))"

definition resolve_host :: "io_error + ip_addr list \<Rightarrow> io_error + ip_addr list \<Rightarrow> io_error + ip_addr list" where
  "resolve_host v4 v6 =
     (let addrs = (case v4 of Inr found \<Rightarrow> found | Inl _ \<Rightarrow> []) @ (case v6 of Inr found \<Rightarrow> found | Inl _ \<Rightarrow> [])
      in if addrs \<noteq> [] then Inr addrs
         else (case (v4, v6) of (Inl err, _) \<Rightarrow> Inl err | (_, Inl err) \<Rightarrow> Inl err | _ \<Rightarrow> Inl NotFound))"

text \<open>One family with addresses is enough, and success always has an address.\<close>

lemma resolve_host_ok:
  "(\<exists>addrs. resolve_host v4 v6 = Inr addrs) \<longleftrightarrow> (\<exists>a. v4 = Inr a \<and> a \<noteq> []) \<or> (\<exists>a. v6 = Inr a \<and> a \<noteq> [])"
  "resolve_host v4 v6 = Inr addrs \<Longrightarrow> addrs \<noteq> []"
  by (auto simp: resolve_host_def Let_def split: sum.splits if_splits)

text \<open>A lookup that records nothing leaves the words alone: only the alarm may change.\<close>

lemma ignored_walk_unchanged:
  assumes "sized n pool" "n \<le> 256" "start \<le> n" "\<And>k. wr_meanwhile (env k) = (\<lambda>p. p)"
  shows "walk_adaptive fuel within env k False start probed last_err pool = Some (r, pool', tried) \<Longrightarrow> pl_health pool' = pl_health pool"
  using assms(1,3)
proof (induction fuel arbitrary: k start probed last_err pool tried)
  case (Suc fuel)
  have calm: "settled within (env k) False index b result (waited (env k) False index how pool) =
      (case result of Inr _ \<Rightarrow> pool\<lparr> pl_alarm := snd (alarm_clear (pl_alarm pool)) \<rparr> | Inl _ \<Rightarrow> pool)" if "how \<noteq> SelProbe" for index how b result
    using that assms(4) by (simp add: settled_def launched_def Let_def split: sum.splits)
  show ?case
  proof (cases rule: walk_adaptive_cases [OF Suc.prems(2) assms(2) Suc.prems(3) refl, of fuel within env k False probed last_err, case_names stop cancelled ok failed])
    case stop
    then show ?thesis using Suc.prems(1) by simp
  next
    case (cancelled index how)
    then show ?thesis using Suc.prems(1) assms(4) by (auto simp: cancelled_pool_def launched_def dest: chosen_probe)
  next
    case (ok index how m)
    then have "how \<noteq> SelProbe" by (auto dest: chosen_probe)
    then show ?thesis using ok(5) Suc.prems(1) calm by simp
  next
    case (failed index how err)
    then have "how \<noteq> SelProbe" by (auto dest: chosen_probe)
    with failed(5) [symmetric] Suc.prems(1) calm obtain tried' where
      "walk_adaptive fuel within env (Suc k) False (Suc index) (probed \<or> how = SelProbe) (Some err) pool = Some (r, pool', tried')" by auto
    from Suc.IH [OF this Suc.prems(2)] failed(3) show ?thesis by simp
  qed
qed simp

end
