(* ===== verification/Swr.thy ===== *)
theory Swr
  imports Cache_Run Health
begin

text \<open>
  Stale-while-refresh (\<open>fah-dns/src/swr.rs\<close>): the bounded queue of keys whose refresh was claimed, offering to
  it from the query path, and one refresh by a worker.
\<close>

definition QUEUE_DEPTH_PER_WORKER :: nat where
  "QUEUE_DEPTH_PER_WORKER = 64"

record swr_stats =
  ss_enqueued :: u64
  ss_deduplicated :: u64
  ss_dropped :: u64
  ss_completed :: u64
  ss_failed :: u64

record swr_pool =
  sw_queue :: "cache_key list"
  sw_capacity :: nat
  sw_closed :: bool
  sw_workers :: nat
  sw_stats :: swr_stats

definition swr_new :: "u32 \<Rightarrow> swr_pool option" where
  "swr_new workers =
     (if unat workers = 0 then None
      else Some \<lparr> sw_queue = [], sw_capacity = unat workers * QUEUE_DEPTH_PER_WORKER, sw_closed = False, sw_workers = unat workers,
        sw_stats = \<lparr> ss_enqueued = 0, ss_deduplicated = 0, ss_dropped = 0, ss_completed = 0, ss_failed = 0 \<rparr> \<rparr>)"

text \<open>\<open>None\<close> is a panic of the cache.\<close>

definition swr_offer :: "swr_pool \<Rightarrow> dns_cache \<Rightarrow> cache_key \<Rightarrow> (swr_pool \<times> dns_cache) option" where
  "swr_offer self cache key =
     (if sw_closed self then map_option (Pair self) (release_refresh_claim cache key)
      else if length (sw_queue self) < sw_capacity self
      then Some (self\<lparr> sw_queue := sw_queue self @ [key],
                       sw_stats := (sw_stats self)\<lparr> ss_enqueued := ss_enqueued (sw_stats self) + 1 \<rparr> \<rparr>, cache)
      else map_option (Pair (self\<lparr> sw_stats := (sw_stats self)\<lparr> ss_dropped := ss_dropped (sw_stats self) + 1 \<rparr> \<rparr>))
             (release_refresh_claim cache key))"

definition note_deduplicated :: "swr_pool \<Rightarrow> swr_pool" where
  "note_deduplicated self = self\<lparr> sw_stats := (sw_stats self)\<lparr> ss_deduplicated := ss_deduplicated (sw_stats self) + 1 \<rparr> \<rparr>"

text \<open>A worker takes the oldest key.\<close>

definition swr_take :: "swr_pool \<Rightarrow> (cache_key \<times> swr_pool) option" where
  "swr_take self = (case sw_queue self of [] \<Rightarrow> None | key # queue \<Rightarrow> Some (key, self\<lparr> sw_queue := queue \<rparr>))"

definition key_name :: "hickory \<Rightarrow> cache_key \<Rightarrow> wire_name" where
  "key_name hk key = (case hk_name hk (ck_domain key) of Some name \<Rightarrow> name | None \<Rightarrow> [])"

definition refresh_query :: "hickory \<Rightarrow> u16 \<Rightarrow> cache_key \<Rightarrow> message" where
  "refresh_query hk mid key =
     (let request = hk_query hk mid;
          question = \<lparr> wq_name = key_name hk key, wq_type = ck_qtype key, wq_class = ck_qclass key \<rparr>
      in request\<lparr> msg_queries := msg_queries request @ [question], msg_recursion_desired := True \<rparr>)"

text \<open>One refresh, given what its forward brought; \<open>now\<close> is the clock when it stores or gives up.\<close>

definition swr_refresh ::
  "sizes \<Rightarrow> swr_pool \<Rightarrow> dns_cache \<Rightarrow> int \<Rightarrow> cache_key \<Rightarrow> io_error + message \<Rightarrow> (swr_pool \<times> dns_cache) option" where
  "swr_refresh sz self cache now key forwarded = do {
     (stored, cache) \<leftarrow> (case forwarded of
        Inr response \<Rightarrow> cache_store sz cache now key response
      | Inl _ \<Rightarrow> Some (False, cache));
     (if stored
      then Some (self\<lparr> sw_stats := (sw_stats self)\<lparr> ss_completed := ss_completed (sw_stats self) + 1 \<rparr> \<rparr>, cache)
      else map_option (Pair (self\<lparr> sw_stats := (sw_stats self)\<lparr> ss_failed := ss_failed (sw_stats self) + 1 \<rparr> \<rparr>))
             (suppress_refresh cache now key REFRESH_FAILURE_COOLDOWN))
   }"

section \<open>The queue and the claims\<close>

definition swr_ok :: "swr_pool \<Rightarrow> bool" where
  "swr_ok self \<longleftrightarrow> length (sw_queue self) \<le> sw_capacity self \<and> sw_capacity self = sw_workers self * QUEUE_DEPTH_PER_WORKER \<and> 0 < sw_workers self"

lemma swr_new_ok: "swr_new workers = Some self \<Longrightarrow> swr_ok self"
  by (auto simp: swr_new_def swr_ok_def split: if_splits)

lemma release_run: "cache_run sz cache t log \<Longrightarrow> t \<le> now \<Longrightarrow>
    \<exists>cache'. release_refresh_claim cache key = Some cache' \<and> cache_run sz cache' now log \<and> (\<forall>k. map_option ce_answer (held cache' k) = map_option ce_answer (held cache k))
      \<and> (\<forall>e. held cache' key = Some e \<longrightarrow> ce_suppressed_until e = None)"
proof -
  assume run: "cache_run sz cache t log" and t: "t \<le> now"
  from cache_run_inv [OF run] have ok: "cache_ok sz cache" by blast
  from set_suppressed_cache [OF ok, of key None] obtain cache' where c: "release_refresh_claim cache key = Some cache'"
    "\<forall>k. held cache' k = (if k = key then map_option (\<lambda>e. e\<lparr> ce_suppressed_until := None \<rparr>) (held cache k) else held cache k)"
    by (auto simp: release_refresh_claim_def)
  from cache_run.step [OF run t, of "OpRelease key" cache'] c(1) have "cache_run sz cache' now log" by simp
  with c show ?thesis by (auto simp: option.map_comp comp_def)
qed

text \<open>An offer never fails and never grows the queue beyond its bound. Either the key is queued, or its claim
  is handed back, so that the next stale hit can claim again.\<close>

lemma swr_offer_ok:
  assumes run: "cache_run sz cache t log" "t \<le> now" and ok: "swr_ok self"
  shows "\<exists>self' cache'. swr_offer self cache key = Some (self', cache') \<and> swr_ok self' \<and> cache_run sz cache' (if sw_queue self' = sw_queue self then now else t) log
    \<and> (sw_queue self' = sw_queue self @ [key] \<and> cache' = cache
       \<or> sw_queue self' = sw_queue self \<and> (\<forall>e. held cache' key = Some e \<longrightarrow> ce_suppressed_until e = None))"
proof -
  from release_run [OF run] obtain cache' where c: "release_refresh_claim cache key = Some cache'" "cache_run sz cache' now log"
    "\<forall>e. held cache' key = Some e \<longrightarrow> ce_suppressed_until e = None" by blast
  show ?thesis
  proof (cases "\<not> sw_closed self \<and> length (sw_queue self) < sw_capacity self")
    case True
    then show ?thesis using run ok by (auto simp: swr_offer_def swr_ok_def)
  next
    case False
    then show ?thesis using c ok by (auto simp: swr_offer_def swr_ok_def)
  qed
qed

text \<open>A refresh either stores a new answer or puts the entry into its cooldown.\<close>

lemma swr_refresh_ok:
  assumes run: "cache_run sz cache t log" "t \<le> now" and ok: "swr_ok self"
  shows "\<exists>self' cache' log'. swr_refresh sz self cache now key forwarded = Some (self', cache') \<and> swr_ok self' \<and> cache_run sz cache' now log'
    \<and> (case forwarded of
         Inr response \<Rightarrow> storable cache response \<noteq> None \<longrightarrow> (\<exists>e. held cache' key = Some e \<and> ce_inserted_at e = now \<and> ce_suppressed_until e = None)
       | Inl _ \<Rightarrow> True)
    \<and> ((case forwarded of Inr response \<Rightarrow> storable cache response = None | Inl _ \<Rightarrow> True) \<longrightarrow>
         (\<forall>e. held cache' key = Some e \<longrightarrow> ce_suppressed_until e = Some (now + REFRESH_FAILURE_COOLDOWN)))"
proof -
  from cache_run_inv [OF run(1)] have cok: "cache_ok sz cache" by blast
  have fail: "\<exists>c'. suppress_refresh c now key REFRESH_FAILURE_COOLDOWN = Some c' \<and> cache_run sz c' now log'
      \<and> (\<forall>e. held c' key = Some e \<longrightarrow> ce_suppressed_until e = Some (now + REFRESH_FAILURE_COOLDOWN))"
    if r: "cache_run sz c t' log'" "t' \<le> now" for c t' log'
  proof -
    from cache_run_inv [OF r(1)] have "cache_ok sz c" by blast
    from set_suppressed_cache [OF this, of key "Some (now + REFRESH_FAILURE_COOLDOWN)"] obtain c' where
      c': "suppress_refresh c now key REFRESH_FAILURE_COOLDOWN = Some c'"
        "\<forall>k. held c' k = (if k = key then map_option (\<lambda>e. e\<lparr> ce_suppressed_until := Some (now + REFRESH_FAILURE_COOLDOWN) \<rparr>) (held c k) else held c k)"
      by (auto simp: suppress_refresh_def)
    from cache_run.step [OF r, of "OpSuppress key REFRESH_FAILURE_COOLDOWN" c'] c'(1) have "cache_run sz c' now log'" by simp
    with c' show ?thesis by auto
  qed
  show ?thesis
  proof (cases forwarded)
    case (Inl err)
    from fail [OF run] show ?thesis using ok Inl by (auto simp: swr_refresh_def swr_ok_def)
  next
    case (Inr response)
    from cache_store_ok [OF cok, of now key response] obtain stored c where
      c: "cache_store sz cache now key response = Some (stored, c)" "stored \<longleftrightarrow> storable cache response \<noteq> None"
        "stored \<longrightarrow> (\<exists>e. held c key = Some e \<and> ce_inserted_at e = now \<and> ce_suppressed_until e = None)"
      by (cases "storable cache response") auto
    from cache_run.step [OF run, of "OpStore key response" c] c(1) obtain log' where r: "cache_run sz c now log'" by auto
    show ?thesis
    proof (cases stored)
      case True
      then show ?thesis using c r Inr ok by (auto simp: swr_refresh_def swr_ok_def)
    next
      case False
      with fail [OF r order_refl] c Inr ok show ?thesis by (auto simp: swr_refresh_def swr_ok_def)
    qed
  qed
qed

end
