(* ===== verification/Pipeline.thy ===== *)
theory Pipeline
  imports Isolation Response Throttle Swr
begin

text \<open>
  The DNS pipeline (\<open>fah-dns/src/pipeline.rs\<close>): decode, decide, answer a blocked question locally, otherwise
  answer from the cache or forward, then report the event and encode the reply.

  The state is everything one request can change. What it cannot determine is its environment: the
  clock when it reads the cache and after its forward has returned, the forwarder, and what other
  requests and the refresh workers do to the state while it waits. Besides the reply and the new state
  the model returns the messages handed to the forwarder.
\<close>

section \<open>Events\<close>

datatype transport = Udp | Tcp | Dot | Doh

datatype client_transport = ClientUdp | ClientTcp | ClientDot | ClientDoh

fun client_transport_of :: "transport \<Rightarrow> client_transport" where
  "client_transport_of Udp = ClientUdp"
| "client_transport_of Tcp = ClientTcp"
| "client_transport_of Dot = ClientDot"
| "client_transport_of Doh = ClientDoh"

fun client_transport_str :: "client_transport \<Rightarrow> string" where
  "client_transport_str ClientUdp = ''udp''"
| "client_transport_str ClientTcp = ''tcp''"
| "client_transport_str ClientDot = ''dot''"
| "client_transport_str ClientDoh = ''doh''"

datatype stale_serve = FromSwr | AfterForwardFailure

datatype answer_outcome = Answered | ServfailSynthesized | ServfailRelayed | RefusedRelayed

record fah_query =
  fq_domain :: string
  fq_qtype :: query_type
  fq_client_ip :: ip_addr
  fq_timestamp :: int

record query_event =
  qe_query :: fah_query
  qe_verdict :: verdict
  qe_duration :: int
  qe_cache_hit :: bool
  qe_upstream_used :: bool
  qe_stale :: "stale_serve option"
  qe_policy :: "string option"
  qe_answer :: answer_outcome
  qe_endpoint :: "u8 option"
  qe_transport :: client_transport

definition query_event_new ::
  "fah_query \<Rightarrow> verdict \<Rightarrow> int \<Rightarrow> bool \<Rightarrow> bool \<Rightarrow> stale_serve option \<Rightarrow> client_transport \<Rightarrow> query_event" where
  "query_event_new query verdict duration cache_hit upstream_used stale transport =
     \<lparr> qe_query = query, qe_verdict = verdict, qe_duration = duration, qe_cache_hit = cache_hit, qe_upstream_used = upstream_used,
       qe_stale = stale, qe_policy = None, qe_answer = Answered, qe_endpoint = None, qe_transport = transport \<rparr>"

definition with_outcome :: "query_event \<Rightarrow> answer_outcome \<Rightarrow> u8 option \<Rightarrow> query_event" where
  "with_outcome self answer endpoint = self\<lparr> qe_answer := answer, qe_endpoint := endpoint \<rparr>"

definition under_policy :: "query_event \<Rightarrow> string option \<Rightarrow> query_event" where
  "under_policy self policy = self\<lparr> qe_policy := policy \<rparr>"

definition is_stale :: "query_event \<Rightarrow> bool" where
  "is_stale self \<longleftrightarrow> qe_stale self \<noteq> None"

record resolved =
  rs_response :: message
  rs_cache_hit :: bool
  rs_upstream_used :: bool
  rs_stale :: "stale_serve option"
  rs_outcome :: answer_outcome
  rs_endpoint :: "u8 option"

definition resolved_blocked :: "message \<Rightarrow> resolved" where
  "resolved_blocked response = \<lparr> rs_response = response, rs_cache_hit = False, rs_upstream_used = False, rs_stale = None,
     rs_outcome = Answered, rs_endpoint = None \<rparr>"

definition resolved_from_cache :: "message \<Rightarrow> stale_serve option \<Rightarrow> resolved" where
  "resolved_from_cache response stale = \<lparr> rs_response = response, rs_cache_hit = True, rs_upstream_used = False, rs_stale = stale,
     rs_outcome = Answered, rs_endpoint = None \<rparr>"

definition resolved_forwarded :: "message \<Rightarrow> answer_outcome \<Rightarrow> u8 \<Rightarrow> resolved" where
  "resolved_forwarded response outcome endpoint = \<lparr> rs_response = response, rs_cache_hit = False, rs_upstream_used = True,
     rs_stale = None, rs_outcome = outcome, rs_endpoint = Some endpoint \<rparr>"

definition synthesized_servfail :: "message \<Rightarrow> resolved" where
  "synthesized_servfail response = \<lparr> rs_response = response, rs_cache_hit = False, rs_upstream_used = False, rs_stale = None,
     rs_outcome = ServfailSynthesized, rs_endpoint = None \<rparr>"

section \<open>The state\<close>

record pipeline =
  pi_matcher :: matcher
  pi_active :: active_policies
  pi_blocking_ttl :: u32
  pi_cache :: dns_cache
  pi_swr :: "swr_pool option"
  pi_cleanup_interval :: "u32 option"
  pi_events :: "query_event list"
  pi_event_capacity :: nat
  pi_events_closed :: bool
  pi_dropped_events :: u64
  pi_encode_failures :: log_throttle

definition ENCODE_FAILURE_WARN_INTERVAL_MS :: int where
  "ENCODE_FAILURE_WARN_INTERVAL_MS = 60000"

definition pipeline_new ::
  "matcher \<Rightarrow> u32 \<Rightarrow> dns_cache_config \<Rightarrow> int \<Rightarrow> (cache_key \<Rightarrow> u64) \<Rightarrow> nat \<Rightarrow> pipeline" where
  "pipeline_new matcher blocking_ttl config refresh_claim_lease hash event_capacity =
     \<lparr> pi_matcher = matcher, pi_active = \<lparr> ap_assignments = [], ap_ids = [], ap_names = (\<lambda>_. None) \<rparr>, pi_blocking_ttl = blocking_ttl,
       pi_cache = cache_new config refresh_claim_lease hash, pi_swr = swr_new (cfg_swr_workers config),
       pi_cleanup_interval = (if cfg_cleanup_interval_seconds config = 0 then None else Some (cfg_cleanup_interval_seconds config)),
       pi_events = [], pi_event_capacity = event_capacity, pi_events_closed = False, pi_dropped_events = 0,
       pi_encode_failures = throttle_new ENCODE_FAILURE_WARN_INTERVAL_MS \<rparr>"

definition with_policies :: "pipeline \<Rightarrow> active_policies \<Rightarrow> pipeline" where
  "with_policies self active = self\<lparr> pi_active := active \<rparr>"

definition pipeline_swr_stats :: "pipeline \<Rightarrow> swr_stats" where
  "pipeline_swr_stats self =
     (case pi_swr self of Some swr \<Rightarrow> sw_stats swr
      | None \<Rightarrow> \<lparr> ss_enqueued = 0, ss_deduplicated = 0, ss_dropped = 0, ss_completed = 0, ss_failed = 0 \<rparr>)"

text \<open>One tick of the scheduled sweep, when there is one.\<close>

definition cache_cleanup_tick :: "sizes \<Rightarrow> pipeline \<Rightarrow> int \<Rightarrow> pipeline" where
  "cache_cleanup_tick sz self now =
     (case pi_cleanup_interval self of None \<Rightarrow> self | Some _ \<Rightarrow> self\<lparr> pi_cache := snd (clean sz (pi_cache self) now False) \<rparr>)"

record pipeline_env =
  pe_now :: int
  pe_later :: int
  pe_forward :: "message \<Rightarrow> io_error + (message \<times> u8)"
  pe_meanwhile :: "pipeline \<Rightarrow> pipeline"
  pe_timestamp :: int
  pe_elapsed :: int
  pe_warn_ms :: int
  pe_currents :: "u64 list"

definition encoded_reply :: "hickory \<Rightarrow> pipeline_env \<Rightarrow> pipeline \<Rightarrow> message \<Rightarrow> u16 \<Rightarrow> string \<times> pipeline" where
  "encoded_reply hk env self message budget =
     (let enc = encode_for_transport hk message budget
      in (en_bytes enc,
          if en_failure enc
          then self\<lparr> pi_encode_failures := snd (throttle_note (pi_encode_failures self) (pe_warn_ms env) (pe_currents env)) \<rparr>
          else self))"

section \<open>The path of a question that is not blocked\<close>

text \<open>An answer the upstream sent: kept if it is worth it, relayed under the client's id.\<close>

definition relay ::
  "sizes \<Rightarrow> pipeline_env \<Rightarrow> pipeline \<Rightarrow> message \<Rightarrow> cache_key \<Rightarrow> message \<Rightarrow> u8 \<Rightarrow> (resolved \<times> pipeline) option" where
  "relay sz env self request key response endpoint = do {
     (_, cache) \<leftarrow> cache_store sz (pi_cache self) (pe_later env) key response;
     let outcome = (case msg_response_code response of
                      ServFail \<Rightarrow> ServfailRelayed | Refused \<Rightarrow> RefusedRelayed | _ \<Rightarrow> Answered);
     Some (resolved_forwarded (response\<lparr> msg_id := msg_id request \<rparr>) outcome endpoint, self\<lparr> pi_cache := cache \<rparr>)
   }"

text \<open>After a failed forward: a stale entry if there is one, without claiming its refresh.\<close>

definition stale_fallback ::
  "hickory \<Rightarrow> pipeline_env \<Rightarrow> pipeline \<Rightarrow> message \<Rightarrow> wire_query \<Rightarrow> cache_key \<Rightarrow> (resolved option \<times> pipeline) option" where
  "stale_fallback hk env self request query key = do {
     (cached, cache) \<leftarrow> cache_lookup (pi_cache self) (pe_later env) key;
     Some (case cached of
             LStale answer _ \<Rightarrow> Some (resolved_from_cache (reply_from_cache hk request query answer STALE_SERVE_TTL) (Some AfterForwardFailure))
           | _ \<Rightarrow> None,
           self\<lparr> pi_cache := cache \<rparr>)
   }"

definition forward_and_store ::
  "hickory \<Rightarrow> sizes \<Rightarrow> pipeline_env \<Rightarrow> pipeline \<Rightarrow> message \<Rightarrow> wire_query \<Rightarrow> cache_key \<Rightarrow> (resolved \<times> pipeline) option" where
  "forward_and_store hk sz env self request query key =
     (let self = pe_meanwhile env self in
      case pe_forward env request of
        Inr (response, endpoint) \<Rightarrow>
          if msg_response_code response = ServFail
          then do {
            (fallback, self) \<leftarrow> stale_fallback hk env self request query key;
            (case fallback of
               Some r \<Rightarrow> Some (r, self)
             | None \<Rightarrow> relay sz env self request key response endpoint)
          }
          else relay sz env self request key response endpoint
      | Inl _ \<Rightarrow> do {
          (fallback, self) \<leftarrow> stale_fallback hk env self request query key;
          Some (case fallback of Some r \<Rightarrow> r | None \<Rightarrow> synthesized_servfail (response_error hk request ServFail), self)
        })"

definition resolve_query ::
  "hickory \<Rightarrow> sizes \<Rightarrow> pipeline_env \<Rightarrow> pipeline \<Rightarrow> message \<Rightarrow> wire_query \<Rightarrow> string \<Rightarrow> (resolved \<times> pipeline \<times> message list) option" where
  "resolve_query hk sz env self request query domain = do {
     let key = cache_key_of domain (wq_type query) (wq_class query);
     (cached, cache) \<leftarrow> (case pi_swr self of
        Some _ \<Rightarrow> lookup_and_claim_refresh (pi_cache self) (pe_now env) key
      | None \<Rightarrow> cache_lookup (pi_cache self) (pe_now env) key);
     let self = self\<lparr> pi_cache := cache \<rparr>;
     let forward = map_option (\<lambda>(r, self). (r, self, [request])) (forward_and_store hk sz env self request query key);
     (case cached of
        LFresh answer remaining_ttl \<Rightarrow>
          Some (resolved_from_cache (reply_from_cache hk request query answer remaining_ttl) None, self, [])
      | LStale answer claimed_refresh \<Rightarrow>
          (case pi_swr self of
             Some swr \<Rightarrow> do {
               (swr, cache) \<leftarrow> (if claimed_refresh then swr_offer swr (pi_cache self) key
                                else Some (note_deduplicated swr, pi_cache self));
               Some (resolved_from_cache (reply_from_cache hk request query answer STALE_SERVE_TTL) (Some FromSwr),
                     self\<lparr> pi_swr := Some swr, pi_cache := cache \<rparr>, [])
             }
           | None \<Rightarrow> forward)
      | LMiss \<Rightarrow> forward)
   }"

section \<open>Handling a request\<close>

definition emit_event ::
  "pipeline \<Rightarrow> fah_query \<Rightarrow> verdict \<Rightarrow> int \<Rightarrow> resolved \<Rightarrow> string option \<Rightarrow> transport \<Rightarrow> pipeline" where
  "emit_event self query verdict duration res policy transport =
     (let event = query_event_new query verdict duration (rs_cache_hit res) (rs_upstream_used res) (rs_stale res)
                    (client_transport_of transport);
          event = with_outcome (under_policy event policy) (rs_outcome res) (rs_endpoint res)
      in if \<not> pi_events_closed self \<and> length (pi_events self) < pi_event_capacity self
         then self\<lparr> pi_events := pi_events self @ [event] \<rparr>
         else self\<lparr> pi_dropped_events := pi_dropped_events self + 1 \<rparr>)"

text \<open>\<open>IpAddr::to_canonical\<close>: an IPv4-mapped IPv6 address is the IPv4 address.\<close>

definition to_canonical :: "ip_addr \<Rightarrow> ip_addr" where
  "to_canonical ip = (case ip of V4 a \<Rightarrow> V4 a | V6 a \<Rightarrow> if drop_bit 32 a = 0xFFFF then V4 (ucast a) else V6 a)"

definition decide_query ::
  "hickory \<Rightarrow> pipeline \<Rightarrow> message \<Rightarrow> wire_query \<Rightarrow> string \<Rightarrow> client_context \<Rightarrow> (verdict \<times> message option) option" where
  "decide_query hk self request query domain ctx = do {
     decision \<leftarrow> lookup_in (pi_matcher self) domain (to_fah_query_type (wq_type query)) ctx;
     (case decision of
        MBlock r \<Rightarrow> do {
          rewrite \<leftarrow> rewrite_of (pi_matcher self) r;
          rule \<leftarrow> decisive_rule_of (pi_matcher self) r;
          Some (Block rule, Some (blocked hk request query (pi_blocking_ttl self) rewrite))
        }
      | MAllow r \<Rightarrow> map_option (\<lambda>rule. (Allow rule, None)) (decisive_rule_of (pi_matcher self) r)
      | MPass \<Rightarrow> Some (Pass, None))
   }"

definition handle_query ::
  "hickory \<Rightarrow> sizes \<Rightarrow> pipeline_env \<Rightarrow> pipeline \<Rightarrow> message \<Rightarrow> wire_query \<Rightarrow> ip_addr \<Rightarrow> transport \<Rightarrow> u16 \<Rightarrow>
     (string \<times> pipeline \<times> message list) option" where
  "handle_query hk sz env self request query client_ip transport budget = do {
     let domain = lower (domain_of_name hk (wq_name query));
     let ctx = context_for (pi_matcher self) client_ip (pi_active self);
     let policy = active_id_of (pi_active self) (ctx_policy ctx);
     (verdict, local_response) \<leftarrow> decide_query hk self request query domain ctx;
     (res, self, sent) \<leftarrow> (case local_response of
        Some response \<Rightarrow> Some (resolved_blocked response, self, [])
      | None \<Rightarrow> do {
          (res, self, sent) \<leftarrow> resolve_query hk sz env self request query domain;
          Some (res, self\<lparr> pi_cache := note_lookup (pi_cache self) (rs_cache_hit res) \<rparr>, sent)
        });
     let self = emit_event self
          \<lparr> fq_domain = domain, fq_qtype = to_fah_query_type (wq_type query), fq_client_ip = client_ip, fq_timestamp = pe_timestamp env \<rparr>
          verdict (pe_elapsed env) res policy transport;
     let (bytes, self) = encoded_reply hk env self (rs_response res) budget;
     Some (bytes, self, sent)
   }"

definition reply_budget :: "transport \<Rightarrow> message \<Rightarrow> u16" where
  "reply_budget transport request = (case transport of Udp \<Rightarrow> max_udp_payload request | _ \<Rightarrow> 65535)"

definition handle ::
  "hickory \<Rightarrow> sizes \<Rightarrow> pipeline_env \<Rightarrow> pipeline \<Rightarrow> string \<Rightarrow> ip_addr \<Rightarrow> transport \<Rightarrow> (string option \<times> pipeline \<times> message list) option" where
  "handle hk sz env self raw client_ip transport =
     (let client_ip = to_canonical client_ip in
      case hk_from_vec hk raw of
        None \<Rightarrow> Some (None, self, [])
      | Some request \<Rightarrow>
          let budget = reply_budget transport request in
          if \<not> msg_is_query request then Some (None, self, [])
          else if msg_op_code request \<noteq> OpQuery
          then let (bytes, self) = encoded_reply hk env self (response_error hk request NotImp) budget in Some (Some bytes, self, [])
          else (case msg_queries request of
             [] \<Rightarrow> let (bytes, self) = encoded_reply hk env self (response_error hk request FormErr) budget in Some (Some bytes, self, [])
           | query # _ \<Rightarrow>
               map_option (\<lambda>(bytes, self, sent). (Some bytes, self, sent))
                 (handle_query hk sz env self request query client_ip transport budget)))"

section \<open>The decision\<close>

lemma rewrite_known: "decisive_rule_of mt r = Some rule \<Longrightarrow> \<exists>rewrite. rewrite_of mt r = Some rewrite"
  by (cases "is_url_rule r"; cases "index_at (mt_records mt) (unat (ref_index r))")
    (simp_all add: decisive_rule_of_def rewrite_of_def Let_def)

text \<open>A policy set as the configuration gives it: assignments name policies of the set.\<close>

definition policies_ok :: "policy_set \<Rightarrow> bool" where
  "policies_ok policies \<longleftrightarrow> 0 < length (ps_policies policies) \<and> length (ps_policies policies) \<le> POLICY_MAX
     \<and> (\<forall>a\<in>set (ps_assignments policies). \<exists>i<length (ps_policies policies). ca_policy a = PolicyId (of_nat i))"

lemma compile_assignments_policy: "compile_assignments pol pid configs = Ok as \<Longrightarrow> a \<in> set as \<Longrightarrow> ca_policy a = pid"
  by (induction configs arbitrary: as) (auto simp: and_then_Ok)

lemma compile_policies_policy:
  "compile_policies i configs = Ok (ps, as) \<Longrightarrow> a \<in> set as \<Longrightarrow> \<exists>j\<le>i + length ps. i < j \<and> ca_policy a = PolicyId (of_nat j)"
proof (induction i configs arbitrary: ps as rule: compile_policies.induct)
  case (2 i config configs)
  from "2.prems"(1) obtain as1 ps2 as2 where c: "compile_assignments (pc_id config) (PolicyId (of_nat (i + 1))) (pc_assignments config) = Ok as1"
    "compile_policies (i + 1) configs = Ok (ps2, as2)" "ps = compile_policy config # ps2" "as = as1 @ as2" by (auto simp: and_then_Ok)
  show ?case
  proof (cases "a \<in> set as1")
    case True
    from compile_assignments_policy [OF c(1) this] show ?thesis using c(3) by (intro exI [of _ "i + 1"]) simp
  next
    case False
    with "2.prems"(2) c(4) have "a \<in> set as2" by simp
    from "2.IH" [OF c(2) this] c(3) show ?thesis by force
  qed
qed simp

lemma from_config_policies_ok: "from_config timezone configs = Ok policies \<Longrightarrow> policies_ok policies"
proof -
  assume c: "from_config timezone configs = Ok policies"
  then obtain ps as where p: "compile_policies 0 configs = Ok (ps, as)" "ps_policies policies = ps_policies single_default @ ps"
    "set (ps_assignments policies) = set as"
    unfolding from_config_def by (auto simp: and_then_Ok split: outcome.splits if_splits)
  have "length (ps_policies policies) = Suc (length ps)" using p(2) by (simp add: single_default_def)
  then have "\<exists>i<length (ps_policies policies). ca_policy a = PolicyId (of_nat i)" if "a \<in> set (ps_assignments policies)" for a
    using compile_policies_policy [OF p(1), of a] that p(3) by (auto simp: less_Suc_eq_le)
  with from_config_sorted(2,3) [OF c] show ?thesis by (simp add: policies_ok_def)
qed

lemma single_default_ok: "policies_ok single_default"
  by (simp add: policies_ok_def single_default_def POLICY_MAX_def)

definition published :: "policy_set \<Rightarrow> active_policies \<Rightarrow> bool" where
  "published policies active \<longleftrightarrow> ap_assignments active = [] \<or> (\<exists>now named. active = active_at policies now named)"

lemma policy_for_in_of: "(\<forall>a\<in>set as. aa_policy a \<in> P) \<Longrightarrow> DEFAULT_POLICY \<in> P \<Longrightarrow> policy_for_in as ip \<in> P"
  by (induction as) auto

lemma context_known:
  assumes ok: "policies_ok policies" and active: "published policies active"
  shows "knows_policy policies (context_for mt ip active)"
proof -
  let ?P = "{PolicyId (of_nat i) | i. i < length (ps_policies policies)}"
  have "\<forall>a\<in>set (expand_assignment named c). aa_policy a = ca_policy c" for named c
    by (auto simp: expand_assignment_def split: client_selector.splits)
  then have "\<forall>a\<in>set (ap_assignments active). aa_policy a \<in> ?P"
    using active ok by (fastforce simp: published_def active_at_def policies_ok_def)
  moreover have "DEFAULT_POLICY \<in> ?P" using ok by (auto simp: DEFAULT_POLICY_def policies_ok_def intro: exI [of _ 0])
  ultimately have "policy_for active ip \<in> ?P" unfolding policy_for_def by (rule policy_for_in_of)
  then obtain i where i: "i < length (ps_policies policies)" "policy_for active ip = PolicyId (of_nat i)" by blast
  from view_bit(2) [OF i(1)] i(2) ok show ?thesis by (simp add: policies_ok_def context_for_def)
qed

text \<open>The pipeline judges by the lists and policies it was given: its ruleset is compiled from them, and its
  snapshot is one taken of them or the initial one.\<close>

definition judged_by :: "policy_set \<Rightarrow> (string \<times> string) list \<Rightarrow> pipeline \<Rightarrow> bool" where
  "judged_by policies texts self \<longleftrightarrow> policies_ok policies \<and> published policies (pi_active self) \<and> ruleset_fits policies texts
     \<and> (\<exists>stats. compile policies texts = Some (pi_matcher self, stats))"

text \<open>The decision never panics, and a local answer is made exactly for the names the lists block.\<close>

lemma decide_query_ok:
  assumes j: "judged_by policies texts self" and ctx_def: "ctx = context_for (pi_matcher self) ip (pi_active self)"
  shows "\<exists>v reply. decide_query hk self request query domain ctx = Some (v, reply)
    \<and> (case dom_reference (dom_texts policies texts) (query_name domain) (Some (qtype_bit (to_fah_query_type (wq_type query)))) ctx of
         Some False \<Rightarrow> (\<exists>rule. v = Block rule) \<and> (\<exists>rewrite. reply = Some (blocked hk request query (pi_blocking_ttl self) rewrite))
       | Some True \<Rightarrow> (\<exists>rule. v = Allow rule) \<and> reply = None
       | None \<Rightarrow> v = Pass \<and> reply = None)"
proof -
  from j obtain stats where f: "ruleset_fits policies texts" "compile policies texts = Some (pi_matcher self, stats)"
    by (auto simp: judged_by_def)
  have ctx: "knows_policy policies ctx" unfolding ctx_def using j by (intro context_known) (simp_all add: judged_by_def)
  from ruleset_reports [OF f(1) ctx, of domain "to_fah_query_type (wq_type query)"] f(2) obtain d v where
    d: "lookup_in (pi_matcher self) domain (to_fah_query_type (wq_type query)) ctx = Some d" "materialize (pi_matcher self) d = Some v"
      "dom_reference (dom_texts policies texts) (query_name domain) (Some (qtype_bit (to_fah_query_type (wq_type query)))) ctx = match_class d"
    by auto
  show ?thesis
  proof (cases d)
    case (MBlock r)
    with d(2) obtain rule where r: "decisive_rule_of (pi_matcher self) r = Some rule" by (auto simp: materialize_def)
    from rewrite_known [OF r] obtain rewrite where "rewrite_of (pi_matcher self) r = Some rewrite" by blast
    with d r MBlock show ?thesis by (auto simp: decide_query_def match_class_def)
  next
    case (MAllow r)
    with d(2) obtain rule where r: "decisive_rule_of (pi_matcher self) r = Some rule" by (auto simp: materialize_def)
    with d MAllow show ?thesis by (auto simp: decide_query_def match_class_def)
  next
    case MPass
    with d show ?thesis by (auto simp: decide_query_def match_class_def)
  qed
qed

section \<open>Reachable states\<close>

definition pipeline_state :: "sizes \<Rightarrow> pipeline \<Rightarrow> int \<Rightarrow> store_log \<Rightarrow> bool" where
  "pipeline_state sz self t log \<longleftrightarrow> (\<exists>t'\<le>t. cache_run sz (pi_cache self) t' log)
     \<and> (case pi_swr self of None \<Rightarrow> True | Some swr \<Rightarrow> swr_ok swr)"

text \<open>What the others do while a request waits for its forward leaves a reachable state, and time passes.\<close>

definition keeps_state :: "sizes \<Rightarrow> pipeline_env \<Rightarrow> bool" where
  "keeps_state sz env \<longleftrightarrow> pe_now env \<le> pe_later env
     \<and> (\<forall>p log. pipeline_state sz p (pe_now env) log \<longrightarrow> (\<exists>log'. pipeline_state sz (pe_meanwhile env p) (pe_later env) log'))"

lemma pipeline_new_state: "pipeline_state sz (pipeline_new matcher ttl config lease hash capacity) t []"
  unfolding pipeline_state_def pipeline_new_def
  by (auto intro: cache_run.start swr_new_ok split: option.splits)

lemma pipeline_state_cache:
  assumes st: "pipeline_state sz self t log" and t: "t \<le> now" and a: "cache_apply sz now op (pi_cache self) = Some cache"
  shows "pipeline_state sz (self\<lparr> pi_cache := cache \<rparr>) now (logged (pi_cache self) now op @ log)"
proof -
  from st obtain t' where "t' \<le> t" "cache_run sz (pi_cache self) t' log" by (auto simp: pipeline_state_def)
  with t a have "cache_run sz cache now (logged (pi_cache self) now op @ log)" by (intro cache_run.step [where t = t']) simp_all
  with st show ?thesis by (auto simp: pipeline_state_def)
qed

lemma lookup_state:
  assumes st: "pipeline_state sz self t log" and t: "t \<le> now"
  shows "\<exists>r cache. lookup_inner (pi_cache self) now key claim = Some (r, cache) \<and> pipeline_state sz (self\<lparr> pi_cache := cache \<rparr>) now log
    \<and> (case r of
      LFresh answer remaining \<Rightarrow> \<exists>ttl stored_at. map_of log key = Some (answer, ttl, stored_at)
        \<and> now < stored_at + uint ttl * SECOND \<and> uint remaining = (stored_at + uint ttl * SECOND - now) div SECOND
    | LStale answer claimed \<Rightarrow> \<exists>ttl stored_at. map_of log key = Some (answer, ttl, stored_at)
        \<and> stored_at + uint ttl * SECOND \<le> now \<and> now < stored_at + uint ttl * SECOND + MAX_STALE
    | LMiss \<Rightarrow> True)"
proof -
  from st obtain t' where r: "t' \<le> t" "cache_run sz (pi_cache self) t' log" by (auto simp: pipeline_state_def)
  from cache_run_inv [OF r(2)] have ok: "cache_ok sz (pi_cache self)" by blast
  from lookup_inner_ok [OF ok, of now key claim] obtain r' cache where l: "lookup_inner (pi_cache self) now key claim = Some (r', cache)" by blast
  from pipeline_state_cache [OF st t, of "OpLookup key claim" cache] l have "pipeline_state sz (self\<lparr> pi_cache := cache \<rparr>) now log" by simp
  moreover have "t' \<le> now" using r(1) t by simp
  note served = cache_served [OF r(2) this l]
  ultimately show ?thesis using l served by (cases r') fastforce+
qed

lemma store_state:
  assumes st: "pipeline_state sz self t log" and t: "t \<le> now"
  shows "\<exists>stored cache log'. cache_store sz (pi_cache self) now key response = Some (stored, cache)
    \<and> pipeline_state sz (self\<lparr> pi_cache := cache \<rparr>) now log'"
proof -
  from st obtain t' where "cache_run sz (pi_cache self) t' log" by (auto simp: pipeline_state_def)
  from cache_run_inv [OF this] have ok: "cache_ok sz (pi_cache self)" by blast
  from cache_store_ok [OF ok, of now key response] obtain stored cache where
    c: "cache_store sz (pi_cache self) now key response = Some (stored, cache)" by blast
  from pipeline_state_cache [OF st t, of "OpStore key response" cache] c show ?thesis by auto
qed

lemma offer_state:
  assumes st: "pipeline_state sz self t log" and t: "t \<le> now" and swr: "pi_swr self = Some swr"
  shows "\<exists>swr' cache. swr_offer swr (pi_cache self) key = Some (swr', cache)
    \<and> pipeline_state sz (self\<lparr> pi_swr := Some swr', pi_cache := cache \<rparr>) now log"
proof -
  from st swr obtain t' where r: "t' \<le> t" "cache_run sz (pi_cache self) t' log" "swr_ok swr" by (auto simp: pipeline_state_def)
  have "t' \<le> now" using r(1) t by simp
  from swr_offer_ok [OF r(2) this r(3), of key] obtain swr' cache where
    o: "swr_offer swr (pi_cache self) key = Some (swr', cache)" "swr_ok swr'"
      "cache_run sz cache (if sw_queue swr' = sw_queue swr then now else t') log" by blast
  have "\<exists>t''\<le>now. cache_run sz cache t'' log" using o(3) \<open>t' \<le> now\<close> by (auto split: if_splits)
  with o show ?thesis by (auto simp: pipeline_state_def)
qed

section \<open>Where an answer comes from\<close>

text \<open>From the cache: the latest answer stored for the question, replayed under what is left of its TTL, or
  stale under the short TTL.\<close>

definition from_store :: "hickory \<Rightarrow> store_log \<Rightarrow> cache_key \<Rightarrow> message \<Rightarrow> wire_query \<Rightarrow> int \<Rightarrow> resolved \<Rightarrow> bool" where
  "from_store hk log key request query now res \<longleftrightarrow> rs_cache_hit res \<and> \<not> rs_upstream_used res
     \<and> (\<exists>answer ttl stored_at shown. map_of log key = Some (answer, ttl, stored_at)
          \<and> rs_response res = reply_from_cache hk request query answer shown
          \<and> (if rs_stale res = None
             then now < stored_at + uint ttl * SECOND \<and> uint shown = (stored_at + uint ttl * SECOND - now) div SECOND
             else shown = STALE_SERVE_TTL \<and> stored_at + uint ttl * SECOND \<le> now \<and> now < stored_at + uint ttl * SECOND + MAX_STALE))"

text \<open>From the upstream: its response to this request, under the client's id.\<close>

definition from_upstream :: "pipeline_env \<Rightarrow> message \<Rightarrow> resolved \<Rightarrow> bool" where
  "from_upstream env request res \<longleftrightarrow> \<not> rs_cache_hit res \<and> rs_upstream_used res \<and> rs_stale res = None
     \<and> (\<exists>response endpoint. pe_forward env request = Inr (response, endpoint) \<and> rs_endpoint res = Some endpoint
          \<and> rs_response res = response\<lparr> msg_id := msg_id request \<rparr>
          \<and> (rs_outcome res = Answered \<longleftrightarrow> msg_response_code response \<noteq> ServFail \<and> msg_response_code response \<noteq> Refused))"

definition forward_failed :: "pipeline_env \<Rightarrow> message \<Rightarrow> bool" where
  "forward_failed env request \<longleftrightarrow>
     (case pe_forward env request of Inl _ \<Rightarrow> True | Inr (response, _) \<Rightarrow> msg_response_code response = ServFail)"

lemma relay_ok:
  assumes st: "pipeline_state sz self (pe_later env) log" and f: "pe_forward env request = Inr (response, endpoint)"
  shows "\<exists>res self' log'. relay sz env self request key response endpoint = Some (res, self')
    \<and> pipeline_state sz self' (pe_later env) log' \<and> from_upstream env request res"
proof -
  from store_state [OF st order_refl, of key response] obtain stored cache log' where
    c: "cache_store sz (pi_cache self) (pe_later env) key response = Some (stored, cache)"
      "pipeline_state sz (self\<lparr> pi_cache := cache \<rparr>) (pe_later env) log'" by blast
  then show ?thesis using f
    by (auto simp: relay_def from_upstream_def resolved_forwarded_def split: response_code.splits)
qed

lemma stale_fallback_ok:
  assumes st: "pipeline_state sz self (pe_later env) log"
  shows "\<exists>reply self'. stale_fallback hk env self request query key = Some (reply, self') \<and> pipeline_state sz self' (pe_later env) log
    \<and> (\<forall>res. reply = Some res \<longrightarrow> rs_stale res = Some AfterForwardFailure \<and> from_store hk log key request query (pe_later env) res)"
proof -
  from lookup_state [OF st order_refl, of key False] obtain r cache where
    l: "lookup_inner (pi_cache self) (pe_later env) key False = Some (r, cache)"
      "pipeline_state sz (self\<lparr> pi_cache := cache \<rparr>) (pe_later env) log"
    and s: "\<And>answer claimed. r = LStale answer claimed \<Longrightarrow> \<exists>ttl stored_at. map_of log key = Some (answer, ttl, stored_at)
        \<and> stored_at + uint ttl * SECOND \<le> pe_later env \<and> pe_later env < stored_at + uint ttl * SECOND + MAX_STALE"
    by fastforce
  show ?thesis
  proof (cases r)
    case (LStale answer claimed)
    with l s [OF LStale] show ?thesis
      by (auto simp: stale_fallback_def cache_lookup_def from_store_def resolved_from_cache_def)
  qed (use l in \<open>auto simp: stale_fallback_def cache_lookup_def\<close>)
qed

definition forward_answer :: "hickory \<Rightarrow> pipeline_env \<Rightarrow> store_log \<Rightarrow> cache_key \<Rightarrow> message \<Rightarrow> wire_query \<Rightarrow> resolved \<Rightarrow> bool" where
  "forward_answer hk env log key request query res \<longleftrightarrow> from_upstream env request res
     \<or> forward_failed env request \<and> rs_stale res = Some AfterForwardFailure \<and> from_store hk log key request query (pe_later env) res
     \<or> (\<exists>err. pe_forward env request = Inl err) \<and> res = synthesized_servfail (response_error hk request ServFail)"

lemma forward_and_store_ok:
  assumes st: "pipeline_state sz self (pe_now env) log" and env: "keeps_state sz env"
  shows "\<exists>res self' log'. forward_and_store hk sz env self request query key = Some (res, self')
    \<and> pipeline_state sz self' (pe_later env) log' \<and> forward_answer hk env log' key request query res"
proof -
  from env st obtain log1 where st1: "pipeline_state sz (pe_meanwhile env self) (pe_later env) log1" by (auto simp: keeps_state_def)
  from stale_fallback_ok [OF st1, of hk request query key] obtain reply self2 where
    fb: "stale_fallback hk env (pe_meanwhile env self) request query key = Some (reply, self2)" "pipeline_state sz self2 (pe_later env) log1"
      "\<And>res. reply = Some res \<Longrightarrow> rs_stale res = Some AfterForwardFailure \<and> from_store hk log1 key request query (pe_later env) res" by blast
  show ?thesis
  proof (cases "pe_forward env request")
    case (Inl err)
    then show ?thesis using fb
      by (cases reply) (auto simp: forward_and_store_def Let_def forward_answer_def forward_failed_def)
  next
    case (Inr x)
    obtain response endpoint where x: "x = (response, endpoint)" by (cases x)
    note relay = relay_ok [OF _ Inr [unfolded x], of sz _ _ key]
    show ?thesis
    proof (cases "msg_response_code response = ServFail \<and> reply \<noteq> None")
      case True
      then show ?thesis using fb Inr x by (auto simp: forward_and_store_def Let_def forward_answer_def forward_failed_def)
    next
      case False
      then show ?thesis using fb(1) Inr x relay [OF st1] relay [OF fb(2)]
        by (cases "msg_response_code response = ServFail") (auto simp: forward_and_store_def Let_def forward_answer_def)
    qed
  qed
qed

lemma pipeline_state_later: "pipeline_state sz self t log \<Longrightarrow> t \<le> t' \<Longrightarrow> pipeline_state sz self t' log"
  by (auto simp: pipeline_state_def intro: order_trans)

lemma pipeline_state_cong:
  "pi_cache self' = pi_cache self \<Longrightarrow> pi_swr self' = pi_swr self \<Longrightarrow> pipeline_state sz self' t log = pipeline_state sz self t log"
  by (simp add: pipeline_state_def)

definition resolved_answer ::
  "hickory \<Rightarrow> pipeline_env \<Rightarrow> store_log \<Rightarrow> store_log \<Rightarrow> message \<Rightarrow> wire_query \<Rightarrow> string \<Rightarrow> resolved \<Rightarrow> message list \<Rightarrow> bool" where
  "resolved_answer hk env log log' request query domain res sent \<longleftrightarrow>
     (let key = cache_key_of domain (wq_type query) (wq_class query)
      in sent = [] \<and> rs_stale res \<noteq> Some AfterForwardFailure \<and> from_store hk log key request query (pe_now env) res
         \<or> sent = [request] \<and> forward_answer hk env log' key request query res)"

lemma resolve_query_ok:
  assumes st: "pipeline_state sz self (pe_now env) log" and env: "keeps_state sz env"
  shows "\<exists>res self' sent log'. resolve_query hk sz env self request query domain = Some (res, self', sent)
    \<and> pipeline_state sz self' (pe_later env) log' \<and> resolved_answer hk env log log' request query domain res sent"
proof -
  let ?key = "cache_key_of domain (wq_type query) (wq_class query)"
  have le: "pe_now env \<le> pe_later env" using env by (simp add: keeps_state_def)
  from lookup_state [OF st order_refl, of ?key "pi_swr self \<noteq> None"] obtain r cache where
    l: "lookup_inner (pi_cache self) (pe_now env) ?key (pi_swr self \<noteq> None) = Some (r, cache)"
      "pipeline_state sz (self\<lparr> pi_cache := cache \<rparr>) (pe_now env) log"
    and served: "case r of
      LFresh answer remaining \<Rightarrow> \<exists>ttl stored_at. map_of log ?key = Some (answer, ttl, stored_at)
        \<and> pe_now env < stored_at + uint ttl * SECOND \<and> uint remaining = (stored_at + uint ttl * SECOND - pe_now env) div SECOND
    | LStale answer claimed \<Rightarrow> \<exists>ttl stored_at. map_of log ?key = Some (answer, ttl, stored_at)
        \<and> stored_at + uint ttl * SECOND \<le> pe_now env \<and> pe_now env < stored_at + uint ttl * SECOND + MAX_STALE
    | LMiss \<Rightarrow> True" by blast
  have look: "(case pi_swr self of Some _ \<Rightarrow> lookup_and_claim_refresh (pi_cache self) (pe_now env) ?key
      | None \<Rightarrow> cache_lookup (pi_cache self) (pe_now env) ?key) = Some (r, cache)"
    using l(1) by (cases "pi_swr self") (simp_all add: lookup_and_claim_refresh_def cache_lookup_def)
  note later = pipeline_state_later [OF _ le]
  from forward_and_store_ok [OF l(2) env, of hk request query ?key] obtain res self' log' where
    fwd: "forward_and_store hk sz env (self\<lparr> pi_cache := cache \<rparr>) request query ?key = Some (res, self')"
      "pipeline_state sz self' (pe_later env) log'" "forward_answer hk env log' ?key request query res" by blast
  have rq: "resolve_query hk sz env self request query domain = (case r of
        LFresh answer remaining_ttl \<Rightarrow>
          Some (resolved_from_cache (reply_from_cache hk request query answer remaining_ttl) None, self\<lparr> pi_cache := cache \<rparr>, [])
      | LStale answer claimed \<Rightarrow> (case pi_swr self of
          Some swr \<Rightarrow> map_option (\<lambda>(swr, cache). (resolved_from_cache (reply_from_cache hk request query answer STALE_SERVE_TTL) (Some FromSwr),
              self\<lparr> pi_swr := Some swr, pi_cache := cache \<rparr>, []))
            (if claimed then swr_offer swr cache ?key else Some (note_deduplicated swr, cache))
        | None \<Rightarrow> Some (res, self', [request]))
      | LMiss \<Rightarrow> Some (res, self', [request]))"
    unfolding resolve_query_def Let_def look bind.bind_lunit prod.case fwd(1)
    by (cases r; cases "pi_swr self") (auto simp: Option.bind_map_option map_conv_bind_option comp_def split_def)
  note defs = rq Let_def resolved_answer_def
  show ?thesis
  proof (cases r)
    case (LFresh answer remaining)
    with served later [OF l(2)] show ?thesis by (auto simp: defs from_store_def resolved_from_cache_def)
  next
    case (LStale answer claimed)
    show ?thesis
    proof (cases "pi_swr self")
      case None
      with LStale fwd show ?thesis by (auto simp: defs)
    next
      case (Some swr)
      from offer_state [OF l(2) order_refl, of swr ?key] Some obtain swr' cache' where
        o: "swr_offer swr cache ?key = Some (swr', cache')"
          "pipeline_state sz (self\<lparr> pi_swr := Some swr', pi_cache := cache' \<rparr>) (pe_now env) log" by (auto simp: pipeline_state_def)
      have n: "pipeline_state sz (self\<lparr> pi_swr := Some (note_deduplicated swr), pi_cache := cache \<rparr>) (pe_now env) log"
        using l(2) Some by (auto simp: pipeline_state_def note_deduplicated_def swr_ok_def)
      from LStale served obtain ttl stored_at where s: "map_of log ?key = Some (answer, ttl, stored_at)"
        "stored_at + uint ttl * SECOND \<le> pe_now env" "pe_now env < stored_at + uint ttl * SECOND + MAX_STALE" by auto
      have store: "from_store hk log ?key request query (pe_now env)
          (resolved_from_cache (reply_from_cache hk request query answer STALE_SERVE_TTL) (Some FromSwr))"
        using s by (auto simp: from_store_def resolved_from_cache_def)
      have "rs_stale (resolved_from_cache m (Some FromSwr)) \<noteq> Some AfterForwardFailure" for m by (simp add: resolved_from_cache_def)
      moreover have "\<exists>self'. resolve_query hk sz env self request query domain
          = Some (resolved_from_cache (reply_from_cache hk request query answer STALE_SERVE_TTL) (Some FromSwr), self', [])
          \<and> pipeline_state sz self' (pe_later env) log"
        using later [OF o(2)] o(1) later [OF n] Some LStale by (cases claimed) (simp_all add: defs)
      ultimately show ?thesis using store by (auto simp: resolved_answer_def Let_def)
    qed
  next
    case LMiss
    with fwd show ?thesis by (auto simp: defs)
  qed
qed

section \<open>Handling a request: properties\<close>

lemma encoded_reply_ok:
  "\<exists>self'. encoded_reply hk env self m budget = (en_bytes (encode_for_transport hk m budget), self')
     \<and> pi_cache self' = pi_cache self \<and> pi_swr self' = pi_swr self \<and> pi_events self' = pi_events self
     \<and> pi_dropped_events self' = pi_dropped_events self"
  by (simp add: encoded_reply_def Let_def)

definition reported_as :: "verdict \<Rightarrow> pipeline \<Rightarrow> pipeline \<Rightarrow> bool" where
  "reported_as v self self' \<longleftrightarrow> (\<exists>e. pi_events self' = pi_events self @ [e] \<and> qe_verdict e = v)
     \<or> pi_events self' = pi_events self \<and> pi_dropped_events self' = pi_dropped_events self + 1"

lemma emit_event_ok:
  "pi_cache (emit_event self query v duration res policy transport) = pi_cache self"
  "pi_swr (emit_event self query v duration res policy transport) = pi_swr self"
  "reported_as v self (emit_event self query v duration res policy transport)"
  by (simp_all add: emit_event_def reported_as_def Let_def query_event_new_def with_outcome_def under_policy_def)

definition judgement :: "hickory \<Rightarrow> policy_set \<Rightarrow> (string \<times> string) list \<Rightarrow> pipeline \<Rightarrow> ip_addr \<Rightarrow> wire_query \<Rightarrow> bool option" where
  "judgement hk policies texts self client_ip query =
     dom_reference (dom_texts policies texts) (query_name (lower (domain_of_name hk (wq_name query))))
       (Some (qtype_bit (to_fah_query_type (wq_type query)))) (context_for (pi_matcher self) client_ip (pi_active self))"

lemma handle_query_blocked:
  assumes j: "judged_by policies texts self" and b: "judgement hk policies texts self client_ip query = Some False"
  shows "\<exists>rule rewrite self'. handle_query hk sz env self request query client_ip transport budget =
      Some (en_bytes (encode_for_transport hk (blocked hk request query (pi_blocking_ttl self) rewrite) budget), self', [])
    \<and> pi_cache self' = pi_cache self \<and> pi_swr self' = pi_swr self \<and> reported_as (Block rule) self self'"
proof -
  let ?ctx = "context_for (pi_matcher self) client_ip (pi_active self)" and ?domain = "lower (domain_of_name hk (wq_name query))"
  from decide_query_ok [OF j refl, of hk request query ?domain client_ip] b obtain rule rewrite where
    d: "decide_query hk self request query ?domain ?ctx = Some (Block rule, Some (blocked hk request query (pi_blocking_ttl self) rewrite))"
    by (auto simp: judgement_def)
  let ?self = "emit_event self
      \<lparr> fq_domain = ?domain, fq_qtype = to_fah_query_type (wq_type query), fq_client_ip = client_ip, fq_timestamp = pe_timestamp env \<rparr>
      (Block rule) (pe_elapsed env) (resolved_blocked (blocked hk request query (pi_blocking_ttl self) rewrite))
      (active_id_of (pi_active self) (ctx_policy ?ctx)) transport"
  from encoded_reply_ok [of hk env ?self "blocked hk request query (pi_blocking_ttl self) rewrite" budget] obtain self' where
    e: "encoded_reply hk env ?self (blocked hk request query (pi_blocking_ttl self) rewrite) budget =
          (en_bytes (encode_for_transport hk (blocked hk request query (pi_blocking_ttl self) rewrite) budget), self')"
      "pi_cache self' = pi_cache ?self" "pi_swr self' = pi_swr ?self" "pi_events self' = pi_events ?self"
      "pi_dropped_events self' = pi_dropped_events ?self" by blast
  have m: "rs_response (resolved_blocked x) = x" for x by (simp add: resolved_blocked_def)
  have "reported_as (Block rule) self self'" using emit_event_ok(3) [where v = "Block rule"] e(4,5) unfolding reported_as_def by metis
  then show ?thesis using e(1-3) d by (auto simp: handle_query_def Let_def m emit_event_ok)
qed

lemma handle_query_passed:
  assumes j: "judged_by policies texts self" and p: "judgement hk policies texts self client_ip query \<noteq> Some False"
    and st: "pipeline_state sz self (pe_now env) log" and env: "keeps_state sz env"
  shows "\<exists>res self' sent log'. handle_query hk sz env self request query client_ip transport budget =
      Some (en_bytes (encode_for_transport hk (rs_response res) budget), self', sent)
    \<and> pipeline_state sz self' (pe_later env) log'
    \<and> resolved_answer hk env log log' request query (lower (domain_of_name hk (wq_name query))) res sent"
proof -
  let ?ctx = "context_for (pi_matcher self) client_ip (pi_active self)" and ?domain = "lower (domain_of_name hk (wq_name query))"
  from decide_query_ok [OF j refl, of hk request query ?domain client_ip] p obtain v where
    d: "decide_query hk self request query ?domain ?ctx = Some (v, None)"
    by (auto simp: judgement_def split: option.splits bool.splits)
  from resolve_query_ok [OF st env, of hk request query ?domain] obtain res self1 sent log' where
    r: "resolve_query hk sz env self request query ?domain = Some (res, self1, sent)" "pipeline_state sz self1 (pe_later env) log'"
      "resolved_answer hk env log log' request query ?domain res sent" by blast
  from pipeline_state_cache [OF r(2) order_refl, of "OpNote (rs_cache_hit res)"] have
    n: "pipeline_state sz (self1\<lparr> pi_cache := note_lookup (pi_cache self1) (rs_cache_hit res) \<rparr>) (pe_later env) log'" by simp
  let ?self = "emit_event (self1\<lparr> pi_cache := note_lookup (pi_cache self1) (rs_cache_hit res) \<rparr>)
      \<lparr> fq_domain = ?domain, fq_qtype = to_fah_query_type (wq_type query), fq_client_ip = client_ip, fq_timestamp = pe_timestamp env \<rparr>
      v (pe_elapsed env) res (active_id_of (pi_active self) (ctx_policy ?ctx)) transport"
  from encoded_reply_ok [of hk env ?self "rs_response res" budget] obtain self' where
    e: "encoded_reply hk env ?self (rs_response res) budget = (en_bytes (encode_for_transport hk (rs_response res) budget), self')"
      "pi_cache self' = pi_cache ?self" "pi_swr self' = pi_swr ?self" by blast
  have "pipeline_state sz self' (pe_later env) log'"
    using n pipeline_state_cong [of self' "self1\<lparr> pi_cache := note_lookup (pi_cache self1) (rs_cache_hit res) \<rparr>"] e(2,3) by (simp add: emit_event_ok)
  then show ?thesis using d r e(1) by (auto simp: handle_query_def Let_def)
qed

definition asks :: "hickory \<Rightarrow> string \<Rightarrow> message \<Rightarrow> wire_query \<Rightarrow> bool" where
  "asks hk raw request query \<longleftrightarrow> hk_from_vec hk raw = Some request \<and> msg_is_query request \<and> msg_op_code request = OpQuery
     \<and> (\<exists>rest. msg_queries request = query # rest)"

lemma handle_question:
  "asks hk raw request query \<Longrightarrow> handle hk sz env self raw client_ip transport =
     map_option (\<lambda>(bytes, self, sent). (Some bytes, self, sent))
       (handle_query hk sz env self request query (to_canonical client_ip) transport (reply_budget transport request))"
  by (auto simp: asks_def handle_def Let_def)

text \<open>C2: A question the lists block for this client is answered by the resolver alone. Nothing is handed to an
  upstream, the cache and the refresh queue stay as they were, the reply is the encoded blocking
  answer, and the query log is told of a block or the loss of the event is counted. The judgement is
  that of scanning every rule of the configured lists under the client's policy.\<close>

theorem blocked_stays_local:
  assumes j: "judged_by policies texts self" and q: "asks hk raw request query"
    and b: "judgement hk policies texts self (to_canonical client_ip) query = Some False"
  shows "\<exists>rule rewrite self'. handle hk sz env self raw client_ip transport =
      Some (Some (en_bytes (encode_for_transport hk (blocked hk request query (pi_blocking_ttl self) rewrite) (reply_budget transport request))), self', [])
    \<and> pi_cache self' = pi_cache self \<and> pi_swr self' = pi_swr self \<and> reported_as (Block rule) self self'"
  using handle_query_blocked [OF j b, of sz env request transport "reply_budget transport request"]
  by (fastforce simp: handle_question [OF q])

text \<open>C3: A question that is not blocked gets a genuine answer. Either nothing is sent and the reply is the
  latest answer stored for exactly this name, type and class, within its TTL or stale within its day;
  or this very request is forwarded once, and the reply is the upstream's response under the client's
  id, or, when the forward failed, a stored answer that is still stale-servable, or a server failure.\<close>

theorem passed_answer_genuine:
  assumes j: "judged_by policies texts self" and q: "asks hk raw request query"
    and p: "judgement hk policies texts self (to_canonical client_ip) query \<noteq> Some False"
    and st: "pipeline_state sz self (pe_now env) log" and env: "keeps_state sz env"
  shows "\<exists>res self' sent log'. handle hk sz env self raw client_ip transport =
      Some (Some (en_bytes (encode_for_transport hk (rs_response res) (reply_budget transport request))), self', sent)
    \<and> pipeline_state sz self' (pe_later env) log'
    \<and> resolved_answer hk env log log' request query (lower (domain_of_name hk (wq_name query))) res sent"
  using handle_query_passed [OF j p st env, of request transport "reply_budget transport request"]
  by (fastforce simp: handle_question [OF q])

lemma blocked_id: "hickory_ok hk \<Longrightarrow> msg_id (blocked hk request query ttl rewrite) = msg_id request"
  using skeleton_ok(1) [of hk request]
  by (auto simp: blocked_def null_ip_reply_def Let_def with_query_def with_answer_def answers_request_def
      split: option.splits rewrite_outcome.splits)

lemma resolved_id:
  assumes hk: "hickory_ok hk" and r: "resolved_answer hk env log log' request query domain res sent"
  shows "msg_id (rs_response res) = msg_id request" "sent = [] \<or> sent = [request]"
proof -
  have "msg_id (reply_from_cache hk request query answer shown) = msg_id request" for answer shown
    using reply_from_cache_ok [OF hk, of request query answer shown] by (simp add: answers_request_def)
  moreover have "msg_id (response_error hk request code) = msg_id request" for code
    using skeleton_ok(1) [OF hk, of request code] by (simp add: response_error_def answers_request_def)
  ultimately show "msg_id (rs_response res) = msg_id request"
    using r by (auto simp: resolved_answer_def Let_def forward_answer_def from_store_def from_upstream_def synthesized_servfail_def)
  show "sent = [] \<or> sent = [request]" using r by (auto simp: resolved_answer_def Let_def)
qed

text \<open>A reply: the request is answered under its id, and nothing else was sent.\<close>

definition replied :: "hickory \<Rightarrow> message \<Rightarrow> u16 \<Rightarrow> string option \<Rightarrow> message list \<Rightarrow> bool" where
  "replied hk request budget reply sent \<longleftrightarrow> (sent = [] \<or> sent = [request])
     \<and> (\<exists>m. msg_id m = msg_id request \<and> reply = Some (en_bytes (encode_for_transport hk m budget)))"

lemma repliedI: "msg_id m = msg_id request \<Longrightarrow> sent = [] \<or> sent = [request] \<Longrightarrow>
    replied hk request budget (Some (en_bytes (encode_for_transport hk m budget))) sent"
  by (auto simp: replied_def)

lemma handle_question_replied:
  assumes hk: "hickory_ok hk" and j: "judged_by policies texts self" and q: "asks hk raw request query"
    and st: "pipeline_state sz self (pe_now env) log" and env: "keeps_state sz env"
  shows "\<exists>reply self' sent log'. handle hk sz env self raw client_ip transport = Some (reply, self', sent)
    \<and> pipeline_state sz self' (pe_later env) log' \<and> replied hk request (reply_budget transport request) reply sent"
proof (cases "judgement hk policies texts self (to_canonical client_ip) query = Some False")
  case True
  from handle_query_blocked [OF j True, of sz env request transport "reply_budget transport request"] obtain rewrite self' where
    b: "handle_query hk sz env self request query (to_canonical client_ip) transport (reply_budget transport request) =
      Some (en_bytes (encode_for_transport hk (blocked hk request query (pi_blocking_ttl self) rewrite) (reply_budget transport request)), self', [])"
    "pi_cache self' = pi_cache self" "pi_swr self' = pi_swr self" by blast
  have "pipeline_state sz self' (pe_later env) log"
    using st env pipeline_state_later pipeline_state_cong [OF b(2,3)] by (auto simp: keeps_state_def)
  then show ?thesis using b(1) handle_question [OF q] repliedI [OF blocked_id [OF hk]] by fastforce
next
  case False
  from handle_query_passed [OF j False st env, of request transport "reply_budget transport request"] obtain res self' sent log' where
    b: "handle_query hk sz env self request query (to_canonical client_ip) transport (reply_budget transport request) =
      Some (en_bytes (encode_for_transport hk (rs_response res) (reply_budget transport request)), self', sent)"
    "pipeline_state sz self' (pe_later env) log'"
    "resolved_answer hk env log log' request query (lower (domain_of_name hk (wq_name query))) res sent" by blast
  show ?thesis using b(1,2) handle_question [OF q] repliedI [OF resolved_id [OF hk b(3)]] by fastforce
qed

text \<open>C4: Whatever bytes a client sends over whatever transport, handling them does not panic and leaves a
  reachable state. There is a reply exactly when the bytes decode to a query; it is a message with the
  id of the request, encoded for the size its transport allows; and nothing but this request was sent
  upstream, at most once.\<close>

theorem handle_total:
  assumes hk: "hickory_ok hk" and j: "judged_by policies texts self"
    and st: "pipeline_state sz self (pe_now env) log" and env: "keeps_state sz env"
  shows "\<exists>reply self' sent log'. handle hk sz env self raw client_ip transport = Some (reply, self', sent)
    \<and> pipeline_state sz self' (pe_later env) log'
    \<and> (case hk_from_vec hk raw of
         None \<Rightarrow> reply = None \<and> sent = []
       | Some request \<Rightarrow> if msg_is_query request then replied hk request (reply_budget transport request) reply sent
           else reply = None \<and> sent = [])"
proof -
  have later: "pipeline_state sz self (pe_later env) log" using st env pipeline_state_later by (auto simp: keeps_state_def)
  have err: "msg_id (response_error hk request code) = msg_id request" for request code
    using skeleton_ok(1) [OF hk, of request code] by (simp add: response_error_def answers_request_def)
  show ?thesis
  proof (cases "hk_from_vec hk raw")
    case None
    then show ?thesis using later by (auto simp: handle_def Let_def)
  next
    case (Some request)
    consider "\<not> msg_is_query request" | code where "msg_is_query request"
        "handle hk sz env self raw client_ip transport =
           (let (bytes, self) = encoded_reply hk env self (response_error hk request code) (reply_budget transport request) in Some (Some bytes, self, []))"
      | query where "asks hk raw request query"
      using Some by (cases "msg_op_code request = OpQuery"; cases "msg_queries request")
        (auto simp: handle_def Let_def asks_def split: list.splits)
    then show ?thesis
    proof cases
      case 1
      then show ?thesis using Some later by (auto simp: handle_def Let_def)
    next
      case 2
      from encoded_reply_ok [of hk env self "response_error hk request code" "reply_budget transport request"] obtain self' where
        e: "encoded_reply hk env self (response_error hk request code) (reply_budget transport request) =
              (en_bytes (encode_for_transport hk (response_error hk request code) (reply_budget transport request)), self')"
          "pi_cache self' = pi_cache self" "pi_swr self' = pi_swr self" by blast
      have "pipeline_state sz self' (pe_later env) log" using later pipeline_state_cong [OF e(2,3)] by simp
      then show ?thesis using 2 e(1) Some repliedI [OF err] by fastforce
    next
      case 3
      then show ?thesis using handle_question_replied [OF hk j 3 st env] Some by (fastforce simp: asks_def)
    qed
  qed
qed

section \<open>A small pipeline\<close>

definition sample_crate :: hickory where
  "sample_crate = sample_hickory\<lparr> hk_from_vec := (\<lambda>raw. Some (sample_query\<lparr> msg_queries := [\<lparr> wq_name = [raw], wq_type = RT_A, wq_class = 1 \<rparr>] \<rparr>)) \<rparr>"

definition sample_pipeline :: pipeline where
  "sample_pipeline = pipeline_new (fst (the (compile single_default sample_texts))) 10 sample_config (5 * SECOND) (\<lambda>_. 0) 1"

definition sample_env :: pipeline_env where
  "sample_env = \<lparr> pe_now = 0, pe_later = 1, pe_forward = (\<lambda>_. Inl TimedOut), pe_meanwhile = (\<lambda>p. p), pe_timestamp = 0, pe_elapsed = 0,
     pe_warn_ms = 0, pe_currents = [] \<rparr>"

lemma sample_pipeline_judged: "judged_by single_default sample_texts sample_pipeline"
proof -
  from ruleset_compiles [OF sample_fits, of single_default] obtain mt stats where "compile single_default sample_texts = Some (mt, stats)" by blast
  then show ?thesis
    by (simp add: judged_by_def sample_pipeline_def pipeline_new_def single_default_ok published_def sample_fits)
qed

lemma sample_context:
  "context_for (pi_matcher sample_pipeline) ip (pi_active sample_pipeline) = \<lparr> ctx_policy = DEFAULT_POLICY, ctx_ip = Some ip, ctx_name = None \<rparr>"
  by (simp add: context_for_def sample_pipeline_def pipeline_new_def policy_for_def name_of_def)

lemma sample_judgement:
  "judgement sample_crate single_default sample_texts sample_pipeline (V4 7) \<lparr> wq_name = [''X.a.io''], wq_type = RT_A, wq_class = 1 \<rparr> = Some False"
  "judgement sample_crate single_default sample_texts sample_pipeline (V4 7) \<lparr> wq_name = [''b.a.io''], wq_type = RT_A, wq_class = 1 \<rparr> = Some True"
  unfolding judgement_def sample_context sample_rules by code_simp+

lemma sample_asks: "asks sample_crate raw (sample_query\<lparr> msg_queries := [\<lparr> wq_name = [raw], wq_type = RT_A, wq_class = 1 \<rparr>] \<rparr>)
    \<lparr> wq_name = [raw], wq_type = RT_A, wq_class = 1 \<rparr>"
  by (simp add: asks_def sample_crate_def sample_query_def fresh_response_def)

lemma sample_crate_ok: "hickory_ok sample_crate"
  using sample_hickory_ok by (simp add: hickory_ok_def sample_crate_def)

lemma sample_state: "pipeline_state sz sample_pipeline 0 []"
  unfolding sample_pipeline_def by (rule pipeline_new_state)

lemma sample_env_ok: "keeps_state sz sample_env"
  using pipeline_state_later [of sz _ 0 _ 1] by (fastforce simp: keeps_state_def sample_env_def)

lemma sample_canonical: "to_canonical (V6 0xFFFF00000007) = V4 7"
  by code_simp

theorem blocked_stays_local_witness:
  "\<exists>bytes self'. handle sample_crate sample_sizes sample_env sample_pipeline ''X.a.io'' (V6 0xFFFF00000007) Udp = Some (Some bytes, self', [])
     \<and> pi_cache self' = pi_cache sample_pipeline"
  using blocked_stays_local [OF sample_pipeline_judged sample_asks sample_judgement(1) [folded sample_canonical], of sample_sizes sample_env Udp] by blast

theorem passed_answer_genuine_witness:
  "\<exists>res self' sent log'. handle sample_crate sample_sizes sample_env sample_pipeline ''b.a.io'' (V6 0xFFFF00000007) Tcp =
       Some (Some (en_bytes (encode_for_transport sample_crate (rs_response res) 65535)), self', sent)
     \<and> resolved_answer sample_crate sample_env [] log' (sample_query\<lparr> msg_queries := [\<lparr> wq_name = [''b.a.io''], wq_type = RT_A, wq_class = 1 \<rparr>] \<rparr>)
         \<lparr> wq_name = [''b.a.io''], wq_type = RT_A, wq_class = 1 \<rparr> ''b.a.io'' res sent"
proof -
  have p: "judgement sample_crate single_default sample_texts sample_pipeline (to_canonical (V6 0xFFFF00000007))
      \<lparr> wq_name = [''b.a.io''], wq_type = RT_A, wq_class = 1 \<rparr> \<noteq> Some False"
    unfolding sample_canonical sample_judgement(2) by simp
  have st: "pipeline_state sample_sizes sample_pipeline (pe_now sample_env) []" using sample_state by (simp add: sample_env_def)
  have "lower (domain_of_name sample_crate [''b.a.io'']) = ''b.a.io''" by code_simp
  moreover have "reply_budget Tcp m = 65535" for m by (simp add: reply_budget_def)
  ultimately show ?thesis
    using passed_answer_genuine [OF sample_pipeline_judged sample_asks p st sample_env_ok, of Tcp] by fastforce
qed

theorem handle_total_witness:
  "\<exists>reply self' sent. handle sample_crate sample_sizes sample_env sample_pipeline ''b.a.io'' (V4 7) Doh = Some (reply, self', sent) \<and> reply \<noteq> None"
proof -
  have st: "pipeline_state sample_sizes sample_pipeline (pe_now sample_env) []" using sample_state by (simp add: sample_env_def)
  have "hk_from_vec sample_crate ''b.a.io'' = Some (sample_query\<lparr> msg_queries := [\<lparr> wq_name = [''b.a.io''], wq_type = RT_A, wq_class = 1 \<rparr>] \<rparr>)"
    "msg_is_query sample_query" by (simp_all add: sample_crate_def sample_query_def)
  then show ?thesis
    using handle_total [OF sample_crate_ok sample_pipeline_judged st sample_env_ok, of "''b.a.io''" "V4 7" Doh]
    by (auto simp: replied_def)
qed

end
