(* ===== verification/Egress.thy ===== *)
theory Egress
  imports Policy_Model
begin

text \<open>
  Where the proxies may connect (\<open>fah-common/src/egress.rs\<close>): the allow-list, the IPv6 forms that carry an IPv4
  address, and the blocks of addresses that are refused.
\<close>

section \<open>The policy\<close>

datatype refusal =
    PortNotIntercepted | Unspecified | Loopback | LinkLocal | Private | Cgnat | Multicast | Broadcast

fun refusal_reason :: "refusal \<Rightarrow> string" where
  "refusal_reason PortNotIntercepted = ''port_not_intercepted''"
| "refusal_reason Unspecified = ''unspecified''"
| "refusal_reason Loopback = ''loopback''"
| "refusal_reason LinkLocal = ''link_local''"
| "refusal_reason Private = ''private''"
| "refusal_reason Cgnat = ''cgnat''"
| "refusal_reason Multicast = ''multicast''"
| "refusal_reason Broadcast = ''broadcast''"

record allowed_net =
  an_addr :: ip_addr
  an_prefix_len :: u8

fun is_ipv4 :: "ip_addr \<Rightarrow> bool" where
  "is_ipv4 (V4 _) \<longleftrightarrow> True"
| "is_ipv4 (V6 _) \<longleftrightarrow> False"

definition net_host :: "ip_addr \<Rightarrow> allowed_net" where
  "net_host addr = \<lparr> an_addr = addr, an_prefix_len = (if is_ipv4 addr then 32 else 128) \<rparr>"

definition prefix_matches :: "128 word \<Rightarrow> 128 word \<Rightarrow> u8 \<Rightarrow> u8 \<Rightarrow> bool" where
  "prefix_matches net candidate prefix_len bits =
     (if prefix_len = 0 then True
      else let shift = unat (bits - prefix_len) mod 128 in drop_bit shift net = drop_bit shift candidate)"

definition net_contains :: "allowed_net \<Rightarrow> ip_addr \<Rightarrow> bool" where
  "net_contains self candidate =
     (case (an_addr self, candidate) of
        (V4 net, V4 ip) \<Rightarrow> prefix_matches (ucast net) (ucast ip) (an_prefix_len self) 32
      | (V6 net, V6 ip) \<Rightarrow> prefix_matches net ip (an_prefix_len self) 128
      | _ \<Rightarrow> False)"

definition net_from_str :: "string \<Rightarrow> allowed_net option" where
  "net_from_str s = do {
     let (addr_text, prefix_text) = (case split_once (CHR ''/'') s of
           Some (addr, len_text) \<Rightarrow> (addr, Some len_text) | None \<Rightarrow> (s, None));
     addr \<leftarrow> parse_ip_addr addr_text;
     let max = (if is_ipv4 addr then 32 else 128);
     prefix_len \<leftarrow> (case prefix_text of
        None \<Rightarrow> Some max
      | Some len_text \<Rightarrow> do {
          value \<leftarrow> parse_unsigned 255 len_text;
          if max < (of_int value :: u8) then None else Some (of_int value)
        });
     Some \<lparr> an_addr = addr, an_prefix_len = prefix_len \<rparr>
   }"

record destination_policy =
  dp_origin_port :: u16
  dp_exceptions :: "allowed_net list"

definition canonicalize :: "ip_addr \<Rightarrow> ip_addr" where
  "canonicalize ip = (case ip of
     V4 _ \<Rightarrow> ip
   | V6 v6 \<Rightarrow>
       let octets = octets6 v6;
           embedded = v4_of_bytes (drop 12 octets)
       in if take 12 octets = replicate 10 0 @ [0xFF, 0xFF] then V4 embedded
          else if segments6 v6 ! 0 = 0x2002 then V4 (v4_of_bytes [octets ! 2, octets ! 3, octets ! 4, octets ! 5])
          else if list_all (\<lambda>b. b = 0) (take 12 octets) \<and> octets ! 12 \<noteq> 0 then V4 embedded
          else if take 4 octets = [0x00, 0x64, 0xFF, 0x9B] \<and> list_all (\<lambda>b. b = 0) (take 8 (drop 4 octets)) then V4 embedded
          else ip)"

definition check_v4 :: "ipv4 \<Rightarrow> refusal + unit" where
  "check_v4 ip =
     (let o0 = octets4 ip ! 0; o1 = octets4 ip ! 1
      in if ip = 0 \<or> o0 = 0 then Inl Unspecified
         else if o0 = 127 then Inl Loopback
         else if o0 = 169 \<and> o1 = 254 then Inl LinkLocal
         else if octets4 ip = [255, 255, 255, 255] then Inl Broadcast
         else if 224 \<le> o0 \<and> o0 \<le> 239 then Inl Multicast
         else if o0 = 100 \<and> 64 \<le> o1 \<and> o1 < 128 then Inl Cgnat
         else if o0 = 10 \<or> o0 = 172 \<and> 16 \<le> o1 \<and> o1 \<le> 31 \<or> o0 = 192 \<and> o1 = 168 then Inl Private
         else Inr ())"

definition check_v6 :: "ipv6 \<Rightarrow> refusal + unit" where
  "check_v6 ip =
     (let segments = segments6 ip
      in if ip = 0 then Inl Unspecified
         else if ip = 1 then Inl Loopback
         else if segments ! 0 AND 0xFF00 = 0xFF00 then Inl Multicast
         else if segments ! 0 AND 0xFFC0 = 0xFE80 then Inl LinkLocal
         else if segments ! 0 AND 0xFE00 = 0xFC00 then Inl Private
         else if list_all (\<lambda>s. s = 0) (take 6 segments) then Inl Unspecified
         else Inr ())"

definition egress_check :: "destination_policy \<Rightarrow> ip_addr \<Rightarrow> u16 \<Rightarrow> refusal + unit" where
  "egress_check self ip port =
     (if port \<noteq> dp_origin_port self then Inl PortNotIntercepted
      else let ip = canonicalize ip
        in if list_ex (\<lambda>net. net_contains net ip) (dp_exceptions self) then Inr ()
           else (case ip of V4 ip \<Rightarrow> check_v4 ip | V6 ip \<Rightarrow> check_v6 ip))"

section \<open>Octets and words\<close>

lemma bit_octets6: "i < 16 \<Longrightarrow> bit (octets6 a ! i) k \<longleftrightarrow> k < 8 \<and> bit a (8 * (15 - i) + k)"
  by (simp add: octets6_nth bit_ucast_iff bit_drop_bit_eq)

lemma octets6_prefix:
  assumes "n \<le> 16"
  shows "take n (octets6 a) = take n (octets6 b) \<longleftrightarrow> drop_bit (128 - 8 * n) a = drop_bit (128 - 8 * n) b"
proof
  assume eq: "take n (octets6 a) = take n (octets6 b)"
  show "drop_bit (128 - 8 * n) a = drop_bit (128 - 8 * n) b"
  proof (rule bit_word_eqI)
    fix k assume "k < LENGTH(128)"
    let ?j = "128 - 8 * n + k"
    show "bit (drop_bit (128 - 8 * n) a) k = bit (drop_bit (128 - 8 * n) b) k"
    proof (cases "?j < 128")
      case True
      let ?i = "15 - ?j div 8"
      have i: "?i < n" "?i < 16" and j: "8 * (15 - ?i) + ?j mod 8 = ?j" using True assms by auto
      have "octets6 a ! ?i = octets6 b ! ?i" using eq i(1) by (metis nth_take)
      with bit_octets6 [OF i(2), of a "?j mod 8"] bit_octets6 [OF i(2), of b "?j mod 8"] j
      show ?thesis by (simp add: bit_drop_bit_eq)
    next
      case False
      then have "\<not> bit a ?j" "\<not> bit b ?j" by (auto dest: bit_imp_le_length)
      then show ?thesis by (simp add: bit_drop_bit_eq)
    qed
  qed
next
  assume eq: "drop_bit (128 - 8 * n) a = drop_bit (128 - 8 * n) b"
  have "octets6 a ! i = octets6 b ! i" if "i < n" for i
  proof (rule bit_word_eqI)
    fix k assume "k < LENGTH(8)"
    then have k: "k < 8" by simp
    have j: "8 * (15 - i) + k = (128 - 8 * n) + (8 * (n - 1 - i) + k)" using that assms by auto
    from eq have "bit (drop_bit (128 - 8 * n) a) (8 * (n - 1 - i) + k) = bit (drop_bit (128 - 8 * n) b) (8 * (n - 1 - i) + k)" by simp
    then have "bit a (8 * (15 - i) + k) = bit b (8 * (15 - i) + k)" unfolding j bit_drop_bit_eq comp_def .
    with that assms k show "bit (octets6 a ! i) k = bit (octets6 b ! i) k" by (simp add: bit_octets6)
  qed
  with assms show "take n (octets6 a) = take n (octets6 b)" by (intro nth_equalityI) simp_all
qed

lemma v4_of_word: "v4_of_bytes [ucast (drop_bit (m + 24) a), ucast (drop_bit (m + 16) a), ucast (drop_bit (m + 8) a), ucast (drop_bit m a)]
    = (ucast (drop_bit m a) :: ipv4)" for a :: ipv6
proof -
  have "[ucast (drop_bit (m + 24) a), ucast (drop_bit (m + 16) a), ucast (drop_bit (m + 8) a), ucast (drop_bit m a)]
      = octets4 (ucast (drop_bit m a))"
    unfolding octets4_def by (auto intro!: bit_word_eqI simp: bit_simps ac_simps)
  then show ?thesis by simp
qed

section \<open>IPv6 addresses that carry an IPv4 address\<close>

text \<open>Mapped (\<open>::ffff:0:0/96\<close>), 6to4 (\<open>2002::/16\<close>), compatible (\<open>::/96\<close>, not below \<open>0.0.0.0/8\<close>) and NAT64
  (\<open>64:ff9b::/96\<close>).\<close>

definition carries :: "ipv6 \<Rightarrow> ipv4 \<Rightarrow> bool" where
  "carries a b \<longleftrightarrow> drop_bit 32 a = 0xFFFF \<and> ucast a = b
     \<or> drop_bit 112 a = 0x2002 \<and> ucast (drop_bit 80 a) = b
     \<or> drop_bit 32 a = 0 \<and> drop_bit 24 a \<noteq> 0 \<and> ucast a = b
     \<or> drop_bit 32 a = 0x64FF9B0000000000000000 \<and> ucast a = b"

lemma all_zero: "list_all (\<lambda>b. b = x) xs \<longleftrightarrow> xs = replicate (length xs) x"
  by (induction xs) auto

lemma take12:
  "take 12 (octets6 a) = replicate 10 0 @ [0xFF, 0xFF] \<longleftrightarrow> drop_bit 32 a = 0xFFFF"
  "list_all (\<lambda>b. b = 0) (take 12 (octets6 a)) \<longleftrightarrow> drop_bit 32 a = 0"
  "take 4 (octets6 a) = [0x00, 0x64, 0xFF, 0x9B] \<and> list_all (\<lambda>b. b = 0) (take 8 (drop 4 (octets6 a)))
     \<longleftrightarrow> drop_bit 32 a = 0x64FF9B0000000000000000"
proof -
  have p: "take 12 (octets6 a) = take 12 (octets6 c) \<longleftrightarrow> drop_bit 32 a = drop_bit 32 c" for c
    using octets6_prefix [of 12 a c] by simp
  have "take 12 (octets6 0xFFFF00000000) = replicate 10 0 @ [0xFF, 0xFF]" "drop_bit 32 (0xFFFF00000000 :: ipv6) = 0xFFFF" by code_simp+
  with p show "take 12 (octets6 a) = replicate 10 0 @ [0xFF, 0xFF] \<longleftrightarrow> drop_bit 32 a = 0xFFFF" by metis
  have "take 12 (octets6 0) = replicate 12 0" by code_simp
  then have "take 12 (octets6 a) = replicate 12 0 \<longleftrightarrow> drop_bit 32 a = 0" using p [of 0] by simp
  moreover have "list_all (\<lambda>b. b = 0) (take 12 (octets6 a)) \<longleftrightarrow> take 12 (octets6 a) = replicate 12 0"
    unfolding all_zero by simp
  ultimately show "list_all (\<lambda>b. b = 0) (take 12 (octets6 a)) \<longleftrightarrow> drop_bit 32 a = 0" by simp
  let ?n = "0x64FF9B000000000000000000000000 :: ipv6"
  have n: "take 12 (octets6 ?n) = [0x00, 0x64, 0xFF, 0x9B] @ replicate 8 0" "drop_bit 32 ?n = 0x64FF9B0000000000000000" by code_simp+
  have "take 12 (octets6 a) = take 4 (octets6 a) @ take 8 (drop 4 (octets6 a))" by (simp add: take_add [symmetric])
  then have "take 12 (octets6 a) = [0x00, 0x64, 0xFF, 0x9B] @ replicate 8 0 \<longleftrightarrow>
      take 4 (octets6 a) = [0x00, 0x64, 0xFF, 0x9B] \<and> take 8 (drop 4 (octets6 a)) = replicate 8 0"
    using append_eq_append_conv [of "take 4 (octets6 a)" "[0x00, 0x64, 0xFF, 0x9B]" "take 8 (drop 4 (octets6 a))" "replicate 8 0"] by simp
  moreover have "list_all (\<lambda>b. b = 0) (take 8 (drop 4 (octets6 a))) \<longleftrightarrow> take 8 (drop 4 (octets6 a)) = replicate 8 0"
    unfolding all_zero by simp
  ultimately show "take 4 (octets6 a) = [0x00, 0x64, 0xFF, 0x9B] \<and> list_all (\<lambda>b. b = 0) (take 8 (drop 4 (octets6 a)))
     \<longleftrightarrow> drop_bit 32 a = 0x64FF9B0000000000000000" using p [of ?n] n by simp
qed

lemma uint_ucast_drop:
  assumes "LENGTH('a::len) - n \<le> LENGTH('b::len)"
  shows "uint (ucast (drop_bit n (a :: 'a word)) :: 'b word) = uint a div 2 ^ n" "uint (drop_bit n a) = uint a div 2 ^ n"
proof -
  show d: "uint (drop_bit n a) = uint a div 2 ^ n"
    unfolding unsigned_drop_bit_eq by (simp add: drop_bit_eq_div take_bit_int_eq_self)
  have "uint a div 2 ^ n < 2 ^ LENGTH('b)"
  proof -
    have "uint a < 2 ^ LENGTH('a)" by (rule uint_lt2p)
    also have "(2 :: int) ^ LENGTH('a) \<le> 2 ^ (LENGTH('b) + n)" using assms by (intro power_increasing) auto
    finally have lt: "uint a < 2 ^ LENGTH('b) * 2 ^ n" by (simp add: power_add)
    have "uint a div 2 ^ n * 2 ^ n \<le> uint a" using div_mult_mod_eq [of "uint a" "2 ^ n"] by (smt (verit) pos_mod_sign zero_less_power)
    with lt have "uint a div 2 ^ n * 2 ^ n < 2 ^ LENGTH('b) * 2 ^ n" by linarith
    then show ?thesis by simp
  qed
  with d show "uint (ucast (drop_bit n a) :: 'b word) = uint a div 2 ^ n"
    unfolding ucast_eq by (simp add: uint_word_of_int mod_pos_pos_trivial pos_imp_zdiv_nonneg_iff)
qed

lemma octets6_parts:
  "v4_of_bytes (drop 12 (octets6 a)) = ucast a" "v4_of_bytes [octets6 a ! 2, octets6 a ! 3, octets6 a ! 4, octets6 a ! 5] = ucast (drop_bit 80 a)"
  "octets6 a ! 12 = ucast (drop_bit 24 a)" "segments6 a ! 0 = 0x2002 \<longleftrightarrow> drop_bit 112 a = 0x2002"
proof -
  have "drop 12 (octets6 a) = map (\<lambda>i. octets6 a ! i) [12, 13, 14, 15]" by (simp add: octets6_def upt_conv_Cons)
  then show "v4_of_bytes (drop 12 (octets6 a)) = ucast a" using v4_of_word [of 0 a] by (simp add: octets6_nth)
  show "v4_of_bytes [octets6 a ! 2, octets6 a ! 3, octets6 a ! 4, octets6 a ! 5] = ucast (drop_bit 80 a)"
    using v4_of_word [of 80 a] by (simp add: octets6_nth)
  show "octets6 a ! 12 = ucast (drop_bit 24 a)" by (simp add: octets6_nth)
  have "uint (ucast (drop_bit 112 a) :: u16) = uint (drop_bit 112 a)"
    using uint_ucast_drop [where 'b = 16, of 112 a] by simp
  then show "segments6 a ! 0 = 0x2002 \<longleftrightarrow> drop_bit 112 a = 0x2002"
    by (simp add: segments6_def word_uint_eq_iff)
qed

lemma carries_canonicalize:
  "carries a b \<longleftrightarrow> canonicalize (V6 a) = V4 b" "(\<nexists>b. carries a b) \<Longrightarrow> canonicalize (V6 a) = V6 a"
proof -
  have top: "drop_bit 112 a \<noteq> 0x2002" if "drop_bit 32 a = 0xFFFF \<or> drop_bit 32 a = 0 \<or> drop_bit 32 a = 0x64FF9B0000000000000000"
  proof -
    have s: "drop_bit 112 a = drop_bit 80 c" if "drop_bit 32 a = c" for c using that by auto
    have "drop_bit 80 (0xFFFF :: ipv6) = 0" "drop_bit 80 (0x64FF9B0000000000000000 :: ipv6) = 0x64" by code_simp+
    then show ?thesis using that s [of "0xFFFF"] s [of 0] s [of "0x64FF9B0000000000000000"] by auto
  qed
  have low: "(ucast (drop_bit 24 a) :: u8) = 0 \<longleftrightarrow> drop_bit 24 a = 0" if "drop_bit 32 a = 0"
  proof -
    have "uint a div 2 ^ 32 = 0" using uint_ucast_drop(2) [where 'b = 128, of 32 a] that by simp
    then have "uint a div 2 ^ 24 < 256" "0 \<le> uint a div 2 ^ 24" using uint_ge_0 [of a] by (auto simp: div_eq_0_iff)
    then have "uint (ucast (drop_bit 24 a) :: u8) = uint (drop_bit 24 a)"
      using uint_ucast_drop(2) [where 'b = 128, of 24 a] by (simp add: ucast_eq uint_word_of_int)
    then show ?thesis by (simp add: word_uint_eq_iff)
  qed
  have c: "canonicalize (V6 a) = (if drop_bit 32 a = 0xFFFF then V4 (ucast a)
      else if drop_bit 112 a = 0x2002 then V4 (ucast (drop_bit 80 a))
      else if drop_bit 32 a = 0 \<and> drop_bit 24 a \<noteq> 0 then V4 (ucast a)
      else if drop_bit 32 a = 0x64FF9B0000000000000000 then V4 (ucast a) else V6 a)"
    unfolding canonicalize_def ip_addr.case Let_def take12 octets6_parts using low by auto
  show "carries a b \<longleftrightarrow> canonicalize (V6 a) = V4 b" unfolding c carries_def using top by auto
  show "(\<nexists>b. carries a b) \<Longrightarrow> canonicalize (V6 a) = V6 a" unfolding c carries_def by auto
qed

section \<open>The refused blocks\<close>

text \<open>A block of addresses of the given width: its base and the length of its prefix.\<close>

definition in_block :: "nat \<Rightarrow> int \<Rightarrow> int \<times> nat \<Rightarrow> bool" where
  "in_block bits a = (\<lambda>(base, p). a div 2 ^ (bits - p) = base div 2 ^ (bits - p))"

text \<open>The blocks the policy refuses, with the reason it gives, in the notation of the address registries:
  \<open>0.0.0.0/8\<close>, \<open>127.0.0.0/8\<close>, \<open>169.254.0.0/16\<close>, \<open>255.255.255.255\<close>, \<open>224.0.0.0/4\<close>, \<open>100.64.0.0/10\<close>, and the
  three RFC 1918 blocks; \<open>::\<close>, \<open>::1\<close>, \<open>ff00::/8\<close>, \<open>fe80::/10\<close>, \<open>fc00::/7\<close> and what is left of \<open>::/96\<close>. The
  first block that holds the address gives the reason. These are not all the blocks that are not
  globally routable: \<open>240.0.0.0/4\<close> and the documentation and benchmarking ranges are outside them.\<close>

definition refused_v4 :: "((int \<times> nat) \<times> refusal) list" where
  "refused_v4 =
     [((0, 8), Unspecified), ((0x7F000000, 8), Loopback), ((0xA9FE0000, 16), LinkLocal), ((0xFFFFFFFF, 32), Broadcast),
      ((0xE0000000, 4), Multicast), ((0x64400000, 10), Cgnat), ((0x0A000000, 8), Private), ((0xAC100000, 12), Private),
      ((0xC0A80000, 16), Private)]"

definition refused_v6 :: "((int \<times> nat) \<times> refusal) list" where
  "refused_v6 =
     [((0, 128), Unspecified), ((1, 128), Loopback), ((0xFF000000000000000000000000000000, 8), Multicast),
      ((0xFE800000000000000000000000000000, 10), LinkLocal), ((0xFC000000000000000000000000000000, 7), Private),
      ((0, 96), Unspecified)]"

definition block_verdict :: "ip_addr \<Rightarrow> refusal + unit" where
  "block_verdict ip =
     (case find (\<lambda>(block, _). case ip of V4 a \<Rightarrow> in_block 32 (uint a) block | V6 a \<Rightarrow> in_block 128 (uint a) block)
             (case ip of V4 _ \<Rightarrow> refused_v4 | V6 _ \<Rightarrow> refused_v6) of
        None \<Rightarrow> Inr () | Some (_, reason) \<Rightarrow> Inl reason)"

lemma byte_block:
  assumes q: "0 \<le> q" "q < (256 :: int)"
  shows "(256 * p + q) div 64 = 4 * p' + 1 \<longleftrightarrow> p = p' \<and> 64 \<le> q \<and> q < 128"
    "(256 * p + q) div 16 = 16 * p' + 1 \<longleftrightarrow> p = p' \<and> 16 \<le> q \<and> q \<le> 31"
    "(256 * p + q) div 4096 = 14 \<longleftrightarrow> 224 \<le> p \<and> p \<le> 239"
    "256 * p + q = 256 * p' + q' \<and> 0 \<le> q' \<and> q' < 256 \<longleftrightarrow> p = p' \<and> q = q' \<and> 0 \<le> q' \<and> q' < 256"
proof -
  have r: "0 \<le> q div 64" "q div 64 < 4" "0 \<le> q div 16" "q div 16 < 16" using q by linarith+
  have four: "4 * p + r = 4 * p' + 1 \<longleftrightarrow> p = p' \<and> r = 1" if "0 \<le> r" "r < 4" for r :: int using that by presburger
  have sixteen: "16 * p + r = 16 * p' + 1 \<longleftrightarrow> p = p' \<and> r = 1" if "0 \<le> r" "r < 16" for r :: int using that by presburger
  have "(256 * p + q) div 64 = 4 * p + q div 64" by linarith
  moreover have "4 * p + q div 64 = 4 * p' + 1 \<longleftrightarrow> p = p' \<and> q div 64 = 1" by (rule four) (rule r)+
  moreover have "q div 64 = 1 \<longleftrightarrow> 64 \<le> q \<and> q < 128" by auto
  ultimately show "(256 * p + q) div 64 = 4 * p' + 1 \<longleftrightarrow> p = p' \<and> 64 \<le> q \<and> q < 128" by simp
  have "(256 * p + q) div 16 = 16 * p + q div 16" by linarith
  moreover have "16 * p + q div 16 = 16 * p' + 1 \<longleftrightarrow> p = p' \<and> q div 16 = 1" by (rule sixteen) (rule r)+
  moreover have "q div 16 = 1 \<longleftrightarrow> 16 \<le> q \<and> q \<le> 31" by auto
  ultimately show "(256 * p + q) div 16 = 16 * p' + 1 \<longleftrightarrow> p = p' \<and> 16 \<le> q \<and> q \<le> 31" by simp
  show "(256 * p + q) div 4096 = 14 \<longleftrightarrow> 224 \<le> p \<and> p \<le> 239" using q by auto
  show "256 * p + q = 256 * p' + q' \<and> 0 \<le> q' \<and> q' < 256 \<longleftrightarrow> p = p' \<and> q = q' \<and> 0 \<le> q' \<and> q' < 256" using q by (smt (verit))
qed

lemma check_v4_blocks: "check_v4 a = block_verdict (V4 a)"
proof -
  let ?A = "uint a"
  have bound: "0 \<le> ?A" "?A < 2 ^ 32" using uint_lt2p [of a] by simp_all
  have o0: "uint (octets4 a ! 0) = ?A div 2 ^ 24" using uint_ucast_drop [where 'b = 8, of 24 a] by (simp add: octets4_nth)
  have o1: "uint (octets4 a ! 1) = ?A div 2 ^ 16 mod 256"
    using uint_ucast_drop(2) [where 'b = 32, of 16 a] by (simp add: octets4_nth ucast_eq uint_word_of_int)
  define B where "B = ?A div 65536"
  have B: "?A div 2 ^ 24 = B div 256" "?A div 2 ^ 22 = B div 64" "?A div 2 ^ 20 = B div 16" "?A div 2 ^ 28 = B div 4096" "?A div 2 ^ 16 = B"
    by (simp_all add: B_def zdiv_zmult2_eq [symmetric])
  have all: "octets4 a = [255, 255, 255, 255] \<longleftrightarrow> ?A = 0xFFFFFFFF"
  proof
    assume "octets4 a = [255, 255, 255, 255]"
    then have "a = v4_of_bytes [255, 255, 255, 255]" using v4_of_bytes_octets4 [of a] by simp
    moreover have "v4_of_bytes [255, 255, 255, 255] = 0xFFFFFFFF" by code_simp
    ultimately show "?A = 0xFFFFFFFF" by simp
  next
    assume "?A = 0xFFFFFFFF"
    then have "a = 0xFFFFFFFF" by (simp add: word_uint_eq_iff)
    moreover have "octets4 0xFFFFFFFF = [255, 255, 255, 255]" by code_simp
    ultimately show "octets4 a = [255, 255, 255, 255]" by simp
  qed
  have z: "a = 0 \<longleftrightarrow> ?A = 0" by (simp add: uint_0_iff)
  have zero: "?A = 0 \<Longrightarrow> B = 0" by (simp add: B_def)
  have blocks: "B div 64 = 401 \<longleftrightarrow> B div 256 = 100 \<and> 64 \<le> B mod 256 \<and> B mod 256 < 128"
    "B div 16 = 2753 \<longleftrightarrow> B div 256 = 172 \<and> 16 \<le> B mod 256 \<and> B mod 256 \<le> 31"
    "B = 43518 \<longleftrightarrow> B div 256 = 169 \<and> B mod 256 = 254" "B = 49320 \<longleftrightarrow> B div 256 = 192 \<and> B mod 256 = 168"
    "B div 4096 = 14 \<longleftrightarrow> 224 \<le> B div 256 \<and> B div 256 \<le> 239"
  proof -
    have b: "B = 256 * (B div 256) + B mod 256" "0 \<le> B mod 256" "B mod 256 < 256" by simp_all
    note k = byte_block [OF b(2,3), of "B div 256", folded b(1)]
    show "B div 64 = 401 \<longleftrightarrow> B div 256 = 100 \<and> 64 \<le> B mod 256 \<and> B mod 256 < 128" using k(1) [of 100] by simp
    show "B div 16 = 2753 \<longleftrightarrow> B div 256 = 172 \<and> 16 \<le> B mod 256 \<and> B mod 256 \<le> 31" using k(2) [of 172] by simp
    show "B = 43518 \<longleftrightarrow> B div 256 = 169 \<and> B mod 256 = 254" using k(4) [of 169 254] by simp
    show "B = 49320 \<longleftrightarrow> B div 256 = 192 \<and> B mod 256 = 168" using k(4) [of 192 168] by simp
    show "B div 4096 = 14 \<longleftrightarrow> 224 \<le> B div 256 \<and> B div 256 \<le> 239" using k(3) by simp
  qed
  show ?thesis
    unfolding check_v4_def Let_def all z block_verdict_def refused_v4_def in_block_def
    using zero by (simp add: word_uint_eq_iff word_le_def word_less_def o0 o1 [unfolded One_nat_def] B [simplified] blocks)
qed

lemma uint_and_high:
  fixes s :: u16
  assumes "n \<le> 16"
  shows "uint (s AND NOT (mask n)) = uint s div 2 ^ n * 2 ^ n"
proof -
  have eq: "s AND NOT (mask n) = push_bit n (drop_bit n s)"
    by (rule bit_word_eqI) (auto simp: bit_simps)
  have lt: "uint s div 2 ^ n * 2 ^ n < 2 ^ 16"
  proof -
    have "uint s div 2 ^ n * 2 ^ n \<le> uint s" using div_mult_mod_eq [of "uint s" "2 ^ n"] by (smt (verit) pos_mod_sign zero_less_power)
    then show ?thesis using uint_lt2p [of s] by simp
  qed
  have d: "uint (drop_bit n s) = uint s div 2 ^ n" using uint_ucast_drop(2) [where 'b = 16, of n s] by simp
  have "uint (push_bit n (drop_bit n s)) = take_bit LENGTH(16) (push_bit n (uint (drop_bit n s)))" by (rule unsigned_push_bit_eq)
  also have "\<dots> = take_bit 16 (uint s div 2 ^ n * 2 ^ n)" unfolding d push_bit_eq_mult by simp
  also have "\<dots> = uint s div 2 ^ n * 2 ^ n" using lt by (intro take_bit_int_eq_self) (simp_all add: pos_imp_zdiv_nonneg_iff)
  finally show ?thesis unfolding eq .
qed

lemma segments6_zero: "list_all (\<lambda>s. s = 0) (take 6 (segments6 a)) \<longleftrightarrow> drop_bit 32 a = 0"
proof -
  have s: "take 6 (segments6 a) = map (\<lambda>i. ucast (drop_bit i a)) [112, 96, 80, 64, 48, 32]" by (simp add: segments6_def)
  show ?thesis
  proof
    assume z: "list_all (\<lambda>s. s = 0) (take 6 (segments6 a))"
    show "drop_bit 32 a = 0"
    proof (rule bit_word_eqI)
      fix k assume "k < LENGTH(128)"
      let ?j = "32 + k"
      have "\<not> bit a ?j"
      proof (cases "?j < 128")
        case True
        then have "16 * (?j div 16) \<in> {112, 96, 80, 64, 48, 32}" by auto
        with z have "\<not> bit (ucast (drop_bit (16 * (?j div 16)) a) :: u16) (?j mod 16)" unfolding s by auto
        then show ?thesis by (simp add: bit_simps del: div_add1_eq)
      qed (auto dest: bit_imp_le_length)
      then show "bit (drop_bit 32 a) k = bit (0 :: ipv6) k" by (simp add: bit_drop_bit_eq)
    qed
  next
    assume z: "drop_bit 32 a = 0"
    have "drop_bit (32 + i) a = 0" for i using z by (metis drop_bit_drop_bit drop_bit_of_0 add.commute)
    from this [of 80] this [of 64] this [of 48] this [of 32] this [of 16] this [of 0]
    show "list_all (\<lambda>s. s = 0) (take 6 (segments6 a))" unfolding s by simp
  qed
qed

lemma check_v6_blocks: "check_v6 a = block_verdict (V6 a)"
proof -
  let ?A = "uint a" and ?s = "segments6 a ! 0"
  define S where "S = ?A div 2 ^ 112"
  have s: "uint ?s = S" using uint_ucast_drop [where 'b = 16, of 112 a] by (simp add: segments6_def S_def)
  have high: "?s AND m = c \<longleftrightarrow> S div 2 ^ n = uint c div 2 ^ n" if "m = NOT (mask n)" "n \<le> 16" "uint c mod 2 ^ n = 0" for m c :: u16 and n
  proof -
    have "?s AND m = c \<longleftrightarrow> S div 2 ^ n * 2 ^ n = uint c" unfolding that(1) word_uint_eq_iff uint_and_high [OF that(2)] s by simp
    also have "uint c = uint c div 2 ^ n * 2 ^ n" using that(3) div_mult_mod_eq [of "uint c" "2 ^ n"] by simp
    finally show ?thesis by simp
  qed
  have m: "(0xFF00 :: u16) = NOT (mask 8)" "(0xFFC0 :: u16) = NOT (mask 6)" "(0xFE00 :: u16) = NOT (mask 9)"
    by (simp_all add: mask_numeral)
  have h: "?s AND 0xFF00 = 0xFF00 \<longleftrightarrow> S div 256 = 255" "?s AND 0xFFC0 = 0xFE80 \<longleftrightarrow> S div 64 = 1018" "?s AND 0xFE00 = 0xFC00 \<longleftrightarrow> S div 512 = 126"
    using high [OF m(1), of "0xFF00"] high [OF m(2), of "0xFE80"] high [OF m(3), of "0xFC00"] by simp_all
  have b: "?A div 2 ^ 120 = S div 256" "?A div 2 ^ 118 = S div 64" "?A div 2 ^ 121 = S div 512"
    by (simp_all add: S_def zdiv_zmult2_eq [symmetric])
  have z: "list_all (\<lambda>s. s = 0) (take 6 (segments6 a)) \<longleftrightarrow> ?A div 2 ^ 32 = 0"
    unfolding segments6_zero using uint_ucast_drop(2) [where 'b = 128, of 32 a] by (simp add: word_uint_eq_iff)
  have "a = 0 \<longleftrightarrow> ?A = 0" "a = 1 \<longleftrightarrow> ?A = 1" by (simp_all add: word_uint_eq_iff)
  then show ?thesis
    unfolding check_v6_def Let_def h z block_verdict_def refused_v6_def in_block_def
    by (auto simp: b [simplified])
qed

section \<open>Where the proxies connect\<close>

text \<open>C13: The destination check is default-deny over the listed blocks. Off the intercepted port everything is
  refused, exceptions included. On it, an address the operator has excepted is accepted, and any
  other gets the verdict of the blocks: it is refused, with the reason of its block, when it is in one,
  and accepted when it is in none. An IPv6 address that carries an IPv4 address is judged exactly as
  that address, whatever the form, so no spelling reaches what the plain spelling does not. Nothing
  is claimed of special ranges outside the listed blocks, which the code accepts.\<close>

theorem egress_default_deny:
  "(egress_check pol (V4 a) port = (if port \<noteq> dp_origin_port pol then Inl PortNotIntercepted
      else if list_ex (\<lambda>net. net_contains net (V4 a)) (dp_exceptions pol) then Inr () else block_verdict (V4 a)))
   \<and> (carries c b \<longrightarrow> egress_check pol (V6 c) port = egress_check pol (V4 b) port)
   \<and> ((\<exists>b. carries c b) \<or> egress_check pol (V6 c) port = (if port \<noteq> dp_origin_port pol then Inl PortNotIntercepted
      else if list_ex (\<lambda>net. net_contains net (V6 c)) (dp_exceptions pol) then Inr () else block_verdict (V6 c)))"
proof -
  have v4: "canonicalize (V4 x) = V4 x" for x by (simp add: canonicalize_def)
  show ?thesis
  proof (cases "\<exists>b. carries c b")
    case False
    then have "canonicalize (V6 c) = V6 c" by (rule carries_canonicalize(2))
    with False show ?thesis by (auto simp: egress_check_def v4 check_v4_blocks check_v6_blocks)
  next
    case True
    then show ?thesis using carries_canonicalize(1) [of c]
      by (auto simp: egress_check_def Let_def v4 check_v4_blocks)
  qed
qed

text \<open>Not every range that is not globally routable is among the blocks: \<open>240.0.0.1\<close> (reserved), \<open>192.0.2.1\<close>
  (documentation), \<open>198.18.0.1\<close> (benchmarking) and \<open>2001:db8::1\<close> (documentation) are accepted.\<close>

lemma reserved_accepted:
  "list_all (\<lambda>ip. egress_check \<lparr> dp_origin_port = 80, dp_exceptions = [] \<rparr> ip 80 = Inr ())
     [V4 0xF0000001, V4 0xC0000201, V4 0xC6120001, V6 0x20010DB8000000000000000000000001]"
  by code_simp

text \<open>The exceptions are CIDR blocks: parsing only yields prefixes that fit the family, and then membership is
  agreement on the prefix.\<close>

definition net_ok :: "allowed_net \<Rightarrow> bool" where
  "net_ok net \<longleftrightarrow> an_prefix_len net \<le> (if is_ipv4 (an_addr net) then 32 else 128)"

lemma net_from_str_ok: "net_from_str s = Some net \<Longrightarrow> net_ok net"
  by (auto simp: net_from_str_def net_ok_def Let_def split: option.splits prod.splits if_splits bind_splits)

lemma net_contains_block:
  assumes "net_ok net"
  shows "net_contains net ip = (case (an_addr net, ip) of
      (V4 a, V4 b) \<Rightarrow> in_block 32 (uint b) (uint a, unat (an_prefix_len net))
    | (V6 a, V6 b) \<Rightarrow> in_block 128 (uint b) (uint a, unat (an_prefix_len net))
    | _ \<Rightarrow> False)"
proof -
  let ?p = "an_prefix_len net"
  have div: "drop_bit n x = drop_bit n y \<longleftrightarrow> uint x div 2 ^ n = uint y div 2 ^ n" for n and x y :: ipv6
    using uint_ucast_drop(2) [where 'b = 128, of n x] uint_ucast_drop(2) [where 'b = 128, of n y] by (simp add: word_uint_eq_iff)
  have up: "uint (ucast x :: ipv6) = uint x" for x :: ipv4
    using uint_ucast_drop(1) [where 'b = 128, of 0 x] by simp
  have zero: "uint x div 2 ^ 32 = 0" "uint y div 2 ^ 128 = 0" for x :: ipv4 and y :: ipv6
    using uint_lt2p [of x] uint_lt2p [of y] by (simp_all add: div_eq_0_iff)
  have sub: "unat (k - ?p) = unat k - unat ?p" if "?p \<le> k" for k using that by (rule unat_sub)
  show ?thesis
  proof (cases "?p = 0")
    case True
    then show ?thesis using zero by (auto simp: net_contains_def prefix_matches_def in_block_def split: ip_addr.splits)
  next
    case False
    then have pos: "0 < unat ?p" by (simp add: unat_gt_0)
    show ?thesis
      using assms pos False sub [of 32] sub [of 128]
      by (auto simp: net_ok_def net_contains_def prefix_matches_def in_block_def div up Let_def split: ip_addr.splits)
  qed
qed

theorem egress_default_deny_witness:
  "egress_check \<lparr> dp_origin_port = 80, dp_exceptions = [] \<rparr> (V6 0x2002C0A80A0100000000000000000000) 80 = Inl Private"
proof -
  have c: "carries 0x2002C0A80A0100000000000000000000 0xC0A80A01" by code_simp
  have "egress_check \<lparr> dp_origin_port = 80, dp_exceptions = [] \<rparr> (V4 0xC0A80A01) 80 = Inl Private" by code_simp
  with egress_default_deny [of _ 0 _ "0x2002C0A80A0100000000000000000000" "0xC0A80A01"] c show ?thesis by metis
qed

end
