(* ===== verification/Spec2Isabelle.thy ===== *)
theory Spec2Isabelle
  imports Parsers Isolation Cache_Run Upstream Pipeline Egress
begin

text \<open>
  FastAdHunter is a DNS and HTTP ad blocker written in Rust. Filter lists are parsed into rules, the
  rules are compiled into a matcher of two tiers (domain names for DNS questions, URL patterns for
  HTTP requests), and every question is decided under the policy its client is assigned to. A blocked
  question is answered locally; any other is answered from the cache or forwarded to an upstream.
  This library models that chain: from list text to decision, and from the bytes of a DNS request to the
  bytes of its reply.

  \<^bold>\<open>Conventions.\<close> Rust integers are words (\<open>u8\<close> to \<open>u64\<close>, release profile: arithmetic wraps), counters
  of type \<open>usize\<close> are \<open>nat\<close> or \<open>int\<close> with the saturating operations written out, \<open>str\<close> and byte slices
  are strings of bytes, a struct is a record, a \<open>HashMap\<close> is a map or an association list. A panic, or a
  loop that does not return, is \<open>None\<close> (or \<open>Panic\<close> where the code also returns errors); theorems show
  \<open>Some\<close>. Clocks are arguments.

  \<^bold>\<open>Rules and decisions\<close> (sources under \<open>src/crates\<close>).
  \<^item> \<open>Prelude\<close>, \<open>Text\<close>, \<open>Net\<close>, \<open>Saturating\<close>: integers, indexing, ASCII and string operations and IP address
    parsing of the standard library, as far as the sources use them.
  \<^item> \<open>Rule_Types\<close>: \<open>fah-rules/src/{rule,resource,domain,rule_list}.rs\<close>, \<open>fah-model/src/{http,verdict}.rs\<close>.
    Domain normalisation is shown canonical.
  \<^item> \<open>Policy_Model\<close>, \<open>Policy\<close>: \<open>fah-model/src/policy.rs\<close>, \<open>fah-rules/src/policy.rs\<close>,
    \<open>fah-config/src/schema/policy.rs\<close>: schedules, networks, client scopes, policy sets and snapshots.
    A snapshot agrees with direct resolution, resolution is most-specific-first, list masks are exact.
  \<^item> \<open>Tz\<close>: \<open>fah-config/src/tz.rs\<close>: the POSIX zone parser, transitions and the civil calendar.
  \<^item> \<open>Format\<close>, \<open>Parsers\<close>: \<open>fah-rules/src/format.rs\<close> and \<open>fah-rules/src/parser/\<close>: format detection and the
    hosts, domain-list and adblock parsers. Every parsed rule is well formed.
  \<^item> \<open>Probe\<close>: linear-probing tables, as an interface (\<open>probe_table\<close>) that both tiers' tables satisfy;
    walks run on fuel, and the table's length is enough because a table always has a vacant slot.
  \<^item> \<open>Hashing\<close>, \<open>Matcher_Builder\<close>, \<open>Matcher\<close>, \<open>Matcher_Spec\<close>: \<open>fah-rules/src/matcher.rs\<close>: hashes and packed
    slots, the builder with its deduplication index, the compiled slot table and the walk over label
    suffixes, and the reference that scans all rules, which the lookup is shown to agree with.
  \<^item> \<open>Merge\<close>: the deduplication contract the builders of both tiers refine.
  \<^item> \<open>Url_Pattern\<close>, \<open>Url_Tokens\<close>, \<open>Url_Request\<close>, \<open>Url_Builder\<close>, \<open>Url_Build\<close>, \<open>Url_Lookup\<close>, \<open>Url_Walk\<close>:
    \<open>fah-rules/src/url_matcher.rs\<close>. The pattern walk decides a declarative relation; patterns are
    filed under keys that every matching URL offers; the builder refines \<open>merge_one\<close>; the compiled
    index reaches every rule; and a lookup decides what scanning the original rules would.
  \<^item> \<open>Compile\<close>, \<open>Ruleset\<close>, \<open>Isolation\<close>: the compile step of \<open>fah-rules/src/lifecycle/mod.rs\<close> and what holds from the
    texts of the lists to the verdict: decisions of both tiers, the reported rule, and that a policy
    decides as if only the lists it sees existed.

  \<^bold>\<open>Answering DNS\<close> (sources under \<open>src/crates/fah-dns/src\<close> unless given).
  \<^item> \<open>Dns_Wire\<close>: the message data and \<open>qtype.rs\<close>.
  \<^item> \<open>Cache\<close>, \<open>Cache_Inv\<close>, \<open>Cache_Spec\<close>, \<open>Cache_Run\<close>: \<open>cache.rs\<close>. Invariants of a shard, what each operation does to
    the entry held for a key, and the properties of all runs of the operations under a clock that does
    not go back: bounds, latest answer, availability, leases of refresh claims.
  \<^item> \<open>Throttle\<close>: \<open>fah-common/src/throttle.rs\<close> and \<open>upstream/alarm.rs\<close>, two instances of one rate limiter
    interface (\<open>rate_limiter\<close>).
  \<^item> \<open>Health\<close>, \<open>Transport\<close>, \<open>Upstream\<close>: \<open>upstream/{health,plain,encrypted,mod}.rs\<close> and
    \<open>fah-common/src/histogram.rs\<close>: the packed health word with its transitions, plain and
    multiplexed exchanges, and the walk over the endpoints, which terminates. \<open>walk_step\<close> is the same
    walk as one of many that share the pool and interleave: none of them loses a probe.
  \<^item> \<open>Response\<close>: \<open>response.rs\<close> and \<open>rewrite.rs\<close>: what a blocking answer and a replayed answer say.
  \<^item> \<open>Swr\<close>: \<open>swr.rs\<close>: the bounded queue of refreshes. An offer queues the key or hands its claim back.
  \<^item> \<open>Pipeline\<close>: \<open>pipeline.rs\<close> and the event types of \<open>fah-model\<close>. Over compiled lists and reachable caches:
    blocked questions stay local, other answers are genuine, and no input makes a request fail.

  \<^bold>\<open>Connecting out.\<close> \<open>Egress\<close>: \<open>fah-common/src/egress.rs\<close>: the proxies connect only on the intercepted port and
  never, unless excepted, to an address of the listed private, local and multicast blocks, whichever
  way it is spelled. Reserved and documentation ranges are not among the blocks.

  \<^bold>\<open>Concurrency.\<close> What other threads do is an argument: the values failed compare-exchanges return, and
  functions applied to the shared state while a task waits. Theorems about a walk or a request hold for
  all of them, or for those that keep the number of endpoints or the state of a cache reachable,
  which is then a named hypothesis (\<open>keeps_size\<close>, \<open>keeps_state\<close>). Probes are shown to be resolved
  without any: all walks over a pool are in the step relation \<open>walk_step\<close>.

  \<^bold>\<open>Parameters and bounds.\<close> The crate \<open>memchr\<close> is a parameter (\<open>memchr_lib\<close>) with its documented
  behaviour as the hypothesis \<open>memchr_ok\<close>, and so is the crate \<open>hickory-proto\<close> (\<open>hickory\<close>, with \<open>hickory_ok\<close>
  for fresh responses and \<open>hickory_header\<close> for the size of an encoded header). Heap sizes of cached
  answers and the hash of a cache key are parameters without hypotheses. The rulesets considered fit
  the 32-bit offsets of the matcher and have no token key hash equal to an n-gram key hash
  (\<open>ruleset_fits\<close>, an executable predicate). The walk over \<open>n\<close> endpoints runs on fuel \<open>n + 1\<close>, which is shown to
  be enough for up to 256 endpoints, the range of the endpoint's 8-bit number.

  \<^bold>\<open>Not modelled.\<close> Sockets, task spawning, files, metrics and logging; TLS and certificates, which call
  libraries; the construction of an upstream from its configuration; the download and refresh schedule of the
  lists; the HTTP and HTTPS proxies around the decisions above, with the interception scope; statistics;
  the management API, the dashboard and the terminal monitor; floating-point summaries and the accounting
  of heap bytes of the rulesets.
\<close>

end
